(* ===== verification/Prelude.thy ===== *)
theory Prelude
  imports Main "HOL-Library.Word" "HOL-Library.Char_ord" "HOL-Library.List_Lexorder" "HOL-Library.Multiset"
begin

text \<open>
  Shared ground of the development: the machine integers, the pieces of the C++ standard
  library the sources use (\<open>std::to_chars\<close>, \<open>std::from_chars\<close>, \<open>std::string_view\<close>
  searching, \<open>operator[]\<close> of \<open>std::unordered_map\<close>), and the generic lemmas on them that the
  component theories share. The collections \<open>num_simps\<close> (decimal text) and \<open>map_simps\<close>
  (association lists) carry most component proofs.
\<close>

named_theorems num_simps
named_theorems map_simps

type_synonym u64 = "64 word"
type_synonym u32 = "32 word"

section \<open>Decimal text\<close>

definition is_digit :: "char \<Rightarrow> bool" where
  "is_digit c \<longleftrightarrow> 48 \<le> (of_char c :: nat) \<and> (of_char c :: nat) \<le> 57"

definition digit_val :: "char \<Rightarrow> nat" where
  "digit_val c = of_char c - 48"

definition digit_char :: "nat \<Rightarrow> char" where
  "digit_char d = char_of (48 + d)"

text \<open>\<open>std::to_chars\<close> and \<open>std::to_string\<close> on an unsigned value.\<close>

fun dec_of :: "nat \<Rightarrow> string" where
  "dec_of n = (if n < 10 then [digit_char n] else dec_of (n div 10) @ [digit_char (n mod 10)])"

declare dec_of.simps [simp del]

definition dec64 :: "u64 \<Rightarrow> string" where
  "dec64 w = dec_of (unat w)"

text \<open>The value of a run of digits, most significant first.\<close>

definition dec_val :: "string \<Rightarrow> nat" where
  "dec_val s = foldl (\<lambda>a c. 10 * a + digit_val c) 0 s"

datatype errc = InvalidArgument | ResultOutOfRange

text \<open>
  \<open>std::from_chars\<close> on \<open>uint64_t\<close>: the longest prefix of digits; the second component is the
  text from \<open>ptr\<close> on. No sign and no white space is accepted. On an error the output variable
  keeps its old value.
\<close>

definition from_chars_u64 :: "string \<Rightarrow> (errc + u64) \<times> string" where
  "from_chars_u64 s =
     (let ds = takeWhile is_digit s; rest = dropWhile is_digit s in
      if ds = [] then (Inl InvalidArgument, s)
      else if dec_val ds < 2 ^ 64 then (Inr (word_of_nat (dec_val ds)), rest)
      else (Inl ResultOutOfRange, rest))"

text \<open>\<open>std::from_chars\<close> on a 32-bit \<open>int\<close>: a minus sign is accepted, a plus sign is not.\<close>

definition from_chars_int :: "string \<Rightarrow> (errc + int) \<times> string" where
  "from_chars_int s =
     (let neg = (s \<noteq> [] \<and> hd s = CHR ''-'');
          body = (if neg then tl s else s);
          ds = takeWhile is_digit body; rest = dropWhile is_digit body;
          v = (if neg then - int (dec_val ds) else int (dec_val ds)) in
      if ds = [] then (Inl InvalidArgument, s)
      else if - (2 ^ 31) \<le> v \<and> v < 2 ^ 31 then (Inr v, rest)
      else (Inl ResultOutOfRange, rest))"

lemma is_digit_digit_char [simp]: "d < 10 \<Longrightarrow> is_digit (digit_char d)"
  by (simp add: is_digit_def digit_char_def)

lemma digit_val_digit_char [num_simps]: "d < 10 \<Longrightarrow> digit_val (digit_char d) = d"
  by (simp add: digit_val_def digit_char_def)

lemma digit_chars [num_simps]:
  "digit_char 0 = CHR ''0''" "digit_char 1 = CHR ''1''" "digit_char (Suc 0) = CHR ''1''"
  "digit_char 2 = CHR ''2''" "digit_char 3 = CHR ''3''" "digit_char 4 = CHR ''4''"
  "digit_char 5 = CHR ''5''" "digit_char 6 = CHR ''6''" "digit_char 7 = CHR ''7''"
  "digit_char 8 = CHR ''8''" "digit_char 9 = CHR ''9''"
  by (simp_all add: digit_char_def char_of_def bit_0)

lemma digit_val_less: "is_digit c \<Longrightarrow> digit_val c < 10"
  by (auto simp: is_digit_def digit_val_def)

lemma digit_char_digit_val [num_simps]: "is_digit c \<Longrightarrow> digit_char (digit_val c) = c"
  by (simp add: is_digit_def digit_val_def digit_char_def)

lemma dec_val_Nil [num_simps]: "dec_val [] = 0"
  by (simp add: dec_val_def)

lemma dec_val_snoc [num_simps]: "dec_val (s @ [c]) = 10 * dec_val s + digit_val c"
  by (simp add: dec_val_def)

lemma dec_of_ne [simp]: "dec_of n \<noteq> []"
  by (subst dec_of.simps) simp

lemma dec_of_digits: "c \<in> set (dec_of n) \<Longrightarrow> is_digit c"
proof (induction n rule: dec_of.induct)
  case (1 n)
  then show ?case by (cases "n < 10") (auto simp: dec_of.simps [of n])
qed

lemma dec_of_all_digits [simp]: "list_all is_digit (dec_of n)"
  by (simp add: list_all_iff dec_of_digits)

lemma dec_val_dec_of [simp]: "dec_val (dec_of n) = n"
proof (induction n rule: dec_of.induct)
  case (1 n)
  show ?case
  proof (cases "n < 10")
    case True
    then have "dec_of n = [] @ [digit_char n]" by (simp add: dec_of.simps)
    then show ?thesis using True by (simp only: dec_val_snoc) (simp add: num_simps)
  next
    case False
    then have "dec_of n = dec_of (n div 10) @ [digit_char (n mod 10)]"
      by (subst dec_of.simps) simp
    then show ?thesis using 1 False by (simp add: num_simps)
  qed
qed

lemma dec_of_inj [simp]: "dec_of a = dec_of b \<longleftrightarrow> a = b"
  by (metis dec_val_dec_of)

lemma dec64_inj [simp]: "dec64 a = dec64 b \<longleftrightarrow> a = b"
  by (simp add: dec64_def unsigned_word_eqI) (metis word_unat_eq_iff)

lemma dec64_ne [simp]: "dec64 w \<noteq> []"
  by (simp add: dec64_def)

lemma dec64_digits: "c \<in> set (dec64 w) \<Longrightarrow> is_digit c"
  by (simp add: dec64_def dec_of_digits)

lemma digit_run_take [simp]:
  "(\<And>c. c \<in> set ds \<Longrightarrow> is_digit c) \<Longrightarrow> takeWhile is_digit ds = ds"
  by (simp add: takeWhile_eq_all_conv)

lemma digit_run_drop [simp]:
  "(\<And>c. c \<in> set ds \<Longrightarrow> is_digit c) \<Longrightarrow> dropWhile is_digit ds = []"
  by (simp add: dropWhile_eq_Nil_conv)

lemma from_chars_digits:
  assumes "ds \<noteq> []" and "\<And>c. c \<in> set ds \<Longrightarrow> is_digit c"
  shows "from_chars_u64 ds =
    (if dec_val ds < 2 ^ 64 then (Inr (word_of_nat (dec_val ds)), []) else (Inl ResultOutOfRange, []))"
  using assms by (simp add: from_chars_u64_def Let_def)

text \<open>Reading back what was written gives the number and consumes the text.\<close>

lemma from_chars_dec64 [num_simps]: "from_chars_u64 (dec64 w) = (Inr w, [])"
proof -
  have "unat w < 2 ^ 64" using unsigned_less [of w] by simp
  then show ?thesis
    by (simp add: dec64_def from_chars_digits dec_of_digits)
qed

text \<open>A length bound on a run of digits bounds its value.\<close>

lemma dec_val_bound: "(\<And>c. c \<in> set s \<Longrightarrow> is_digit c) \<Longrightarrow> dec_val s < 10 ^ length s"
proof (induction s rule: rev_induct)
  case Nil
  then show ?case by (simp add: dec_val_def)
next
  case (snoc c s)
  then have "dec_val s < 10 ^ length s" and "digit_val c < 10"
    by (auto intro: digit_val_less)
  then show ?case by (simp add: num_simps)
qed

section \<open>Searching text\<close>

text \<open>\<open>find(c, start)\<close>, \<open>rfind(c)\<close> and \<open>substr(pos, n)\<close>; \<open>npos\<close> is \<open>None\<close>.\<close>

definition find_from :: "char \<Rightarrow> string \<Rightarrow> nat \<Rightarrow> nat option" where
  "find_from c s start =
     (let i = start + length (takeWhile (\<lambda>x. x \<noteq> c) (drop start s))
      in if i < length s then Some i else None)"

definition rfind :: "char \<Rightarrow> string \<Rightarrow> nat option" where
  "rfind c s =
     (if c \<in> set s then Some (length s - 1 - length (takeWhile (\<lambda>x. x \<noteq> c) (rev s))) else None)"

definition substr :: "string \<Rightarrow> nat \<Rightarrow> nat \<Rightarrow> string" where
  "substr s pos n = take n (drop pos s)"

lemma find_from_None: "c \<notin> set s \<Longrightarrow> find_from c (p @ s) (length p) = None"
proof -
  assume "c \<notin> set s"
  then have "takeWhile (\<lambda>x. x \<noteq> c) s = s" by (induction s) auto
  from arg_cong [OF this, of length] show ?thesis by (simp add: find_from_def)
qed

lemma find_from_Some:
  assumes "c \<notin> set a"
  shows "find_from c (p @ a @ c # b) (length p) = Some (length p + length a)"
proof -
  have "takeWhile (\<lambda>x. x \<noteq> c) (a @ c # b) = a"
    using assms by (subst takeWhile_append2) auto
  then show ?thesis by (simp add: find_from_def)
qed

lemma rfind_None [simp]: "rfind c s = None \<longleftrightarrow> c \<notin> set s"
  by (simp add: rfind_def)

lemma rfind_last:
  assumes "c \<notin> set b"
  shows "rfind c (a @ c # b) = Some (length a)"
proof -
  have "takeWhile (\<lambda>x. x \<noteq> c) (rev (a @ c # b)) = rev b"
    using assms by (subst rev_append) (auto intro: takeWhile_append2 [of "rev b", THEN trans])
  then show ?thesis by (simp add: rfind_def)
qed

section \<open>Hash maps\<close>

text \<open>
  An \<open>std::unordered_map\<close> is an association list with distinct keys; the list's order stands
  for the iteration order, which the language leaves open. \<open>upd_default k d f m\<close> is
  \<open>f(m[k])\<close>: \<open>operator[]\<close> inserts the default \<open>d\<close> for an absent key, and \<open>f\<close> updates the value.
\<close>

fun upd_default :: "'k \<Rightarrow> 'v \<Rightarrow> ('v \<Rightarrow> 'v) \<Rightarrow> ('k \<times> 'v) list \<Rightarrow> ('k \<times> 'v) list" where
  "upd_default k d f [] = [(k, f d)]"
| "upd_default k d f ((j, v) # m) = (if j = k then (j, f v) # m else (j, v) # upd_default k d f m)"

definition at_default :: "'v \<Rightarrow> ('k \<times> 'v) list \<Rightarrow> 'k \<Rightarrow> 'v" where
  "at_default d m k = (case map_of m k of None \<Rightarrow> d | Some v \<Rightarrow> v)"

definition distinct_keys :: "('k \<times> 'v) list \<Rightarrow> bool" where
  "distinct_keys m \<longleftrightarrow> distinct (map fst m)"

lemma upd_default_keys [map_simps]: "fst ` set (upd_default k d f m) = insert k (fst ` set m)"
proof (induction m)
  case (Cons p m)
  then show ?case by (cases p) (simp add: insert_commute)
qed simp

lemma upd_default_distinct [map_simps]:
  "distinct_keys m \<Longrightarrow> distinct_keys (upd_default k d f m)"
proof (induction m)
  case (Cons p m)
  obtain j v where "p = (j, v)" by (cases p)
  with Cons show ?case by (auto simp: distinct_keys_def upd_default_keys)
qed (simp add: distinct_keys_def)

lemma map_of_upd_default [map_simps]:
  "map_of (upd_default k d f m) = (map_of m)(k \<mapsto> f (at_default d m k))"
  by (induction m) (auto simp: at_default_def fun_eq_iff)

lemma at_default_upd [map_simps]:
  "at_default d (upd_default k d f m) j = (if j = k then f (at_default d m k) else at_default d m j)"
  by (simp add: at_default_def map_of_upd_default)

lemma at_default_Nil [map_simps]: "at_default d [] k = d"
  by (simp add: at_default_def)

lemma distinct_keys_Nil [map_simps]: "distinct_keys []"
  by (simp add: distinct_keys_def)

section \<open>Sums\<close>

text \<open>The empty tail of a record is the trivial monoid, so records of counters are monoids.\<close>

instantiation unit :: comm_monoid_add
begin

definition zero_unit :: unit where "zero_unit = ()"

definition plus_unit :: "unit \<Rightarrow> unit \<Rightarrow> unit" where "plus_unit a b = ()"

instance
  by intro_classes simp_all

end

lemma sum_list_filter_append [simp]:
  "sum_list (map f (filter P (a @ b))) =
     sum_list (map f (filter P a)) + (sum_list (map f (filter P b)) :: 'a :: monoid_add)"
  by simp

lemma fst_case_prod_map [simp]: "map fst (map (\<lambda>(k, v). (k, f k v)) m) = map fst m"
  by (induction m) auto

end
