(* ===== verification/Cdr.thy ===== *)
theory Cdr
  imports Prelude
begin

text \<open>
  The record every component passes on (\<open>inc/cdr_record.hpp\<close>) and the numeric constants the
  components share (\<open>inc/constants.hpp\<close>). \<open>std::time_t\<close> is a signed 64-bit count of seconds;
  every value the parser computes is far inside that range, so it is an \<open>int\<close>.
\<close>

datatype UsageType = MOC | MTC | SMS_MO | SMS_MT | D | U | B | X

record CdrRecord =
  sequence :: u64
  subscriberImsi :: u64
  subscriberImei :: string
  usageType :: UsageType
  subscriberMSISDN :: u64
  callTime :: int
  duration :: u64
  bytesReceived :: u64
  bytesTransmitted :: u64
  secondPartyIMSI :: u64
  secondPartyMSISDN :: u64

definition kFieldCount :: nat where "kFieldCount = 12"
definition kMaxImsiDigits :: nat where "kMaxImsiDigits = 15"
definition kMaxMsisdnDigits :: nat where "kMaxMsisdnDigits = 15"
definition kBatchSize :: nat where "kBatchSize = 4096"
definition kMsinDivisor :: u64 where "kMsinDivisor = 10000000000"

end
