(* ===== verification/CsvParser.thy ===== *)
theory CsvParser
  imports Cdr "HOL-Library.Monad_Syntax"
begin

text \<open>
  \<open>src/parser/csv_parser.cpp\<close>: one separated line into a \<open>CdrRecord\<close>. A helper that returns
  \<open>bool\<close> and fills an output variable is a function into \<open>option\<close>; \<open>None\<close> is \<open>false\<close>.
  The lemmas show that the splitting loop computes the fields of the line, what each field
  parser accepts, that a rendered line is read back, and how \<open>timegm\<close> counts days.
\<close>

section \<open>Splitting\<close>

text \<open>The loop of \<open>split\<close>: \<open>i\<close> counts the fields, \<open>start\<close> is where the next one begins.\<close>

function split_from :: "string \<Rightarrow> char \<Rightarrow> nat \<Rightarrow> nat \<Rightarrow> string list \<Rightarrow> string list option" where
  "split_from str delim i start out =
     (if i < kFieldCount then
        (case find_from delim str start of
           None \<Rightarrow>
             if i + 1 = kFieldCount then Some (out @ [substr str start (length str)]) else None
         | Some pos \<Rightarrow>
             split_from str delim (i + 1) (pos + 1) (out @ [substr str start (pos - start)]))
      else None)"
  by pat_completeness auto
termination
  by (relation "measure (\<lambda>(str, delim, i, start, out). kFieldCount - i)") auto

declare split_from.simps [simp del]

definition split :: "string \<Rightarrow> char \<Rightarrow> string list option" where
  "split str delim = split_from str delim 0 0 []"

text \<open>The fields of a line, as the format means them: the text between the separators.\<close>

fun fields_of :: "char \<Rightarrow> string \<Rightarrow> string list" where
  "fields_of sep [] = [[]]"
| "fields_of sep (c # s) =
     (if c = sep then [] # fields_of sep s
      else (case fields_of sep s of [] \<Rightarrow> [[c]] | f # fs \<Rightarrow> (c # f) # fs))"

lemma fields_of_ne [simp]: "fields_of sep s \<noteq> []"
  by (induction s) (auto split: list.split)

lemma fields_of_last: "sep \<notin> set s \<Longrightarrow> fields_of sep s = [s]"
  by (induction s) auto

lemma fields_of_first: "sep \<notin> set a \<Longrightarrow> fields_of sep (a @ sep # b) = a # fields_of sep b"
  by (induction a) (auto split: list.split)

lemma length_fields_of: "length (fields_of sep s) = Suc (count_list s sep)"
  by (induction s) (auto split: list.split)

lemma split_from_fields:
  "length out = i \<Longrightarrow> i < kFieldCount \<Longrightarrow> split_from (p @ s) d i (length p) out =
     (if i + length (fields_of d s) = kFieldCount then Some (out @ fields_of d s) else None)"
proof (induction "kFieldCount - i" arbitrary: i p s out rule: less_induct)
  case less
  show ?case
  proof (cases "d \<in> set s")
    case False
    then show ?thesis using less.prems
      by (subst split_from.simps) (simp add: find_from_None fields_of_last substr_def)
  next
    case True
    then obtain a b where ab: "s = a @ d # b" "d \<notin> set a" by (auto dest: split_list_first)
    let ?out = "out @ [a]" and ?p = "p @ a @ [d]"
    have step: "split_from (p @ s) d i (length p) out =
        split_from (?p @ b) d (i + 1) (length ?p) ?out"
      using less.prems ab by (subst split_from.simps) (simp add: find_from_Some substr_def)
    show ?thesis
    proof (cases "i + 1 < kFieldCount")
      case lt: True
      show ?thesis unfolding step using less.prems lt ab
        by (subst less.hyps [of "i + 1" ?out ?p b]) (auto simp: fields_of_first)
    next
      case False
      then show ?thesis unfolding step using less.prems ab
        by (subst split_from.simps) (simp add: fields_of_first length_fields_of)
    qed
  qed
qed

lemma split_fields:
  "split str d =
     (if length (fields_of d str) = kFieldCount then Some (fields_of d str) else None)"
  using split_from_fields [of "[]" 0 "[]" str d] by (simp add: split_def kFieldCount_def)

section \<open>Fields\<close>

definition parseU64 :: "string \<Rightarrow> bool \<Rightarrow> nat \<Rightarrow> u64 option" where
  "parseU64 str optional maxDigits =
     (if str = [] then (if optional then Some 0 else None)
      else if maxDigits \<noteq> 0 \<and> length str > maxDigits then None
      else (case from_chars_u64 str of
              (Inr v, rest) \<Rightarrow> if rest = [] then Some v else None
            | (Inl e, rest) \<Rightarrow> None))"

definition parseUsage :: "string \<Rightarrow> UsageType option" where
  "parseUsage sv =
     (if sv = ''MOC'' then Some MOC
      else if sv = ''MTC'' then Some MTC
      else if sv = ''SMS-MO'' then Some SMS_MO
      else if sv = ''SMS-MT'' then Some SMS_MT
      else if sv = ''D'' then Some D
      else if sv = ''U'' then Some U
      else if sv = ''B'' then Some B
      else if sv = ''X'' then Some X
      else None)"

text \<open>The two-digit reader of \<open>parseDateTime\<close>: it looks at the error code only, not at \<open>ptr\<close>.\<close>

definition d2 :: "string \<Rightarrow> nat \<Rightarrow> int" where
  "d2 s off = (case from_chars_int (substr s off 2) of (Inr v, rest) \<Rightarrow> v | (Inl e, rest) \<Rightarrow> - 1)"

text \<open>
  \<open>timegm\<close> of the C library on a broken-down time: UTC, proleptic Gregorian calendar, a day of
  the month past the month's end carries over. The month is \<open>0..11\<close>, the year is the full year.
\<close>

definition is_leap :: "int \<Rightarrow> bool" where
  "is_leap y \<longleftrightarrow> y mod 4 = 0 \<and> (y mod 100 \<noteq> 0 \<or> y mod 400 = 0)"

definition month_start :: "int list" where
  "month_start = [0, 31, 59, 90, 120, 151, 181, 212, 243, 273, 304, 334]"

definition days_from_civil :: "int \<Rightarrow> int \<Rightarrow> int \<Rightarrow> int" where
  "days_from_civil y mon mday =
     365 * (y - 1970) + ((y - 1) div 4 - (y - 1) div 100 + (y - 1) div 400 - 477)
     + month_start ! nat mon + (if is_leap y \<and> 1 < mon then 1 else 0) + (mday - 1)"

definition timegm :: "int \<Rightarrow> int \<Rightarrow> int \<Rightarrow> int \<Rightarrow> int \<Rightarrow> int \<Rightarrow> int" where
  "timegm y mon mday h m s = ((days_from_civil y mon mday * 24 + h) * 60 + m) * 60 + s"

definition parseDateTime :: "string \<Rightarrow> string \<Rightarrow> int option" where
  "parseDateTime date time =
     (if length date \<noteq> 10 \<or> length time \<noteq> 8 then None
      else if date ! 2 \<noteq> CHR ''/'' \<or> date ! 5 \<noteq> CHR ''/'' then None
      else if time ! 2 \<noteq> CHR '':'' \<or> time ! 5 \<noteq> CHR '':'' then None
      else
        let mday = d2 date 0; mon = d2 date 3 - 1 in
        (case from_chars_int (substr date 6 4) of
           (Inl e, rest) \<Rightarrow> None
         | (Inr year, rest) \<Rightarrow>
             let hour = d2 time 0; min = d2 time 3; sec = d2 time 6 in
             if mday < 1 \<or> mday > 31 \<or> mon < 0 \<or> mon > 11 then None
             else if hour < 0 \<or> hour > 23 then None
             else if min < 0 \<or> min > 59 \<or> sec < 0 \<or> sec > 59 then None
             else Some (timegm year mon mday hour min sec)))"

section \<open>The line\<close>

definition parse :: "char \<Rightarrow> string \<Rightarrow> CdrRecord option" where
  "parse m_sep line = do {
     fields \<leftarrow> split line m_sep;
     seq \<leftarrow> parseU64 (fields ! 0) False 0;
     imsi \<leftarrow> parseU64 (fields ! 1) False kMaxImsiDigits;
     usage \<leftarrow> parseUsage (fields ! 3);
     msisdn \<leftarrow> parseU64 (fields ! 4) False kMaxMsisdnDigits;
     time \<leftarrow> parseDateTime (fields ! 5) (fields ! 6);
     dur \<leftarrow> parseU64 (fields ! 7) False 0;
     rx \<leftarrow> parseU64 (fields ! 8) True 0;
     tx \<leftarrow> parseU64 (fields ! 9) True 0;
     pimsi \<leftarrow> parseU64 (fields ! 10) True kMaxImsiDigits;
     pmsisdn \<leftarrow> parseU64 (fields ! 11) True kMaxMsisdnDigits;
     Some \<lparr>sequence = seq, subscriberImsi = imsi, subscriberImei = fields ! 2, usageType = usage,
       subscriberMSISDN = msisdn, callTime = time, duration = dur, bytesReceived = rx,
       bytesTransmitted = tx, secondPartyIMSI = pimsi, secondPartyMSISDN = pmsisdn\<rparr>
   }"


section \<open>What the field parsers accept\<close>

lemma from_chars_u64_all:
  "from_chars_u64 s = (Inr v, []) \<longleftrightarrow>
     s \<noteq> [] \<and> list_all is_digit s \<and> dec_val s < 2 ^ 64 \<and> v = word_of_nat (dec_val s)"
  by (auto simp: from_chars_u64_def Let_def dropWhile_eq_Nil_conv takeWhile_eq_all_conv
      list_all_iff split: if_splits)

lemma parseU64_iff:
  "parseU64 s opt md = Some v \<longleftrightarrow>
     (if s = [] then opt \<and> v = 0
      else list_all is_digit s \<and> (md \<noteq> 0 \<longrightarrow> length s \<le> md) \<and> dec_val s < 2 ^ 64
           \<and> v = word_of_nat (dec_val s))"
proof (cases "s = []")
  case False
  have "(\<exists>rest. from_chars_u64 s = (Inr v, rest) \<and> rest = []) \<longleftrightarrow>
      list_all is_digit s \<and> dec_val s < 2 ^ 64 \<and> v = word_of_nat (dec_val s)"
    using False by (simp add: from_chars_u64_all)
  with False show ?thesis
    by (auto simp: parseU64_def split: prod.splits sum.splits if_splits)
qed (auto simp: parseU64_def)

lemma unat_dec_val:
  "dec_val s < 2 ^ 64 \<Longrightarrow> unat (word_of_nat (dec_val s) :: u64) = dec_val s"
  by (simp add: unat_of_nat take_bit_nat_eq_self)

lemma parseU64_bound:
  assumes "parseU64 s opt md = Some v" and "md \<noteq> 0"
  shows "unat v < 10 ^ md"
proof (cases "s = []")
  case False
  with assms have s: "\<And>c. c \<in> set s \<Longrightarrow> is_digit c" "length s \<le> md" "dec_val s < 2 ^ 64"
      "v = word_of_nat (dec_val s)"
    by (auto simp: parseU64_iff list_all_iff)
  have "dec_val s < 10 ^ length s" using s(1) by (rule dec_val_bound)
  also have "\<dots> \<le> 10 ^ md" using s(2) by simp
  finally show ?thesis using s by (simp add: unat_dec_val)
qed (use assms in \<open>simp add: parseU64_iff\<close>)

text \<open>The code a usage type is written with.\<close>

fun usage_code :: "UsageType \<Rightarrow> string" where
  "usage_code MOC = ''MOC''"
| "usage_code MTC = ''MTC''"
| "usage_code SMS_MO = ''SMS-MO''"
| "usage_code SMS_MT = ''SMS-MT''"
| "usage_code D = ''D''"
| "usage_code U = ''U''"
| "usage_code B = ''B''"
| "usage_code X = ''X''"

lemma parseUsage_iff: "parseUsage sv = Some u \<longleftrightarrow> sv = usage_code u"
  by (cases u) (auto simp: parseUsage_def)

text \<open>\<open>parse\<close> as one condition on the fields.\<close>

lemma parse_Some_iff:
  "parse sep line = Some r \<longleftrightarrow>
     (\<exists>fs. fs = fields_of sep line \<and> length fs = kFieldCount \<and>
        parseU64 (fs ! 0) False 0 = Some (sequence r) \<and>
        parseU64 (fs ! 1) False kMaxImsiDigits = Some (subscriberImsi r) \<and>
        subscriberImei r = fs ! 2 \<and>
        parseUsage (fs ! 3) = Some (usageType r) \<and>
        parseU64 (fs ! 4) False kMaxMsisdnDigits = Some (subscriberMSISDN r) \<and>
        parseDateTime (fs ! 5) (fs ! 6) = Some (callTime r) \<and>
        parseU64 (fs ! 7) False 0 = Some (duration r) \<and>
        parseU64 (fs ! 8) True 0 = Some (bytesReceived r) \<and>
        parseU64 (fs ! 9) True 0 = Some (bytesTransmitted r) \<and>
        parseU64 (fs ! 10) True kMaxImsiDigits = Some (secondPartyIMSI r) \<and>
        parseU64 (fs ! 11) True kMaxMsisdnDigits = Some (secondPartyMSISDN r))"
  by (cases r) (simp add: parse_def split_fields bind_eq_Some_conv, blast)

section \<open>The calendar\<close>

definition month_len :: "int \<Rightarrow> int \<Rightarrow> int" where
  "month_len y mon = (if mon = 1 then (if is_leap y then 29 else 28)
     else [31, 28, 31, 30, 31, 30, 31, 31, 30, 31, 30, 31] ! nat mon)"

fun next_day :: "int \<times> int \<times> int \<Rightarrow> int \<times> int \<times> int" where
  "next_day (y, mon, d) =
     (if d < month_len y mon then (y, mon, d + 1)
      else if mon < 11 then (y, mon + 1, 1) else (y + 1, 0, 1))"

lemma div_step:
  assumes "(0::int) < n"
  shows "y div n = (y - 1) div n + (if y mod n = 0 then 1 else 0)"
proof (cases "y mod n = 0")
  case True
  then have "y - 1 = n * (y div n - 1) + (n - 1)"
    by (metis add.commute add_diff_eq diff_add_cancel mod_0_imp_dvd dvd_mult_div_cancel
        mult.right_neutral right_diff_distrib)
  then have "(y - 1) div n = y div n - 1"
    by (rule int_div_pos_eq) (use assms in auto)
  with True show ?thesis by simp
next
  case False
  have "0 \<le> y mod n" and "y mod n < n" using assms by simp_all
  with False have "0 \<le> y mod n - 1" and "y mod n - 1 < n" by linarith+
  moreover have "y - 1 = n * (y div n) + (y mod n - 1)" by simp
  ultimately have "(y - 1) div n = y div n" by (intro int_div_pos_eq)
  with False show ?thesis by simp
qed

lemma mod_multiple: "(y::int) mod (a * b) = 0 \<Longrightarrow> y mod a = 0"
  by (metis dvd_mult_left mod_0_imp_dvd dvd_imp_mod_0)

text \<open>Leap years up to and including \<open>y\<close>, against those before it.\<close>

definition leaps_before :: "int \<Rightarrow> int" where
  "leaps_before y = (y - 1) div 4 - (y - 1) div 100 + (y - 1) div 400"

lemma leap_rule:
  assumes "a = a' + (if P then 1 else 0)" "b = b' + (if Q then 1 else 0)"
    "c = c' + (if R then 1 else (0::int))" "R \<Longrightarrow> Q" "Q \<Longrightarrow> P"
  shows "a - b + c = a' - b' + c' + (if P \<and> (\<not> Q \<or> R) then 1 else 0)"
  using assms by (cases P; cases Q; cases R) simp_all

lemma leaps_before_Suc: "leaps_before (y + 1) = leaps_before y + (if is_leap y then 1 else 0)"
  unfolding leaps_before_def is_leap_def add_diff_cancel_right'
proof (rule leap_rule)
  show "y mod 400 = 0 \<Longrightarrow> y mod 100 = 0" using mod_multiple [of y 100 4] by simp
  show "y mod 100 = 0 \<Longrightarrow> y mod 4 = 0" using mod_multiple [of y 4 25] by simp
qed (rule div_step; simp only: zero_less_numeral)+

lemma days_alt:
  "days_from_civil y mon mday = 365 * (y - 1970) + (leaps_before y - 477)
     + month_start ! nat mon + (if is_leap y \<and> 1 < mon then 1 else 0) + (mday - 1)"
  by (simp only: days_from_civil_def leaps_before_def)

lemma month_cases:
  assumes "0 \<le> mon" "mon < 11"
  obtains "mon = 0" | "mon = 1" | "mon = 2" | "mon = 3" | "mon = 4" | "mon = 5" | "mon = 6"
    | "mon = 7" | "mon = 8" | "mon = 9" | "mon = (10::int)"
proof -
  have "mon = 0 \<or> mon = 1 \<or> mon = 2 \<or> mon = 3 \<or> mon = 4 \<or> mon = 5 \<or> mon = 6 \<or> mon = 7
      \<or> mon = 8 \<or> mon = 9 \<or> mon = 10"
    using assms by presburger
  then show thesis using that by blast
qed

lemma month_start_step:
  assumes "0 \<le> mon" "mon < 11"
  shows "month_start ! nat (mon + 1) + (if is_leap y \<and> 1 < mon + 1 then 1 else 0)
    = month_start ! nat mon + (if is_leap y \<and> 1 < mon then 1 else 0) + month_len y mon"
  using assms by (cases rule: month_cases) (simp_all add: month_start_def month_len_def)

lemma days_next_day:
  assumes "0 \<le> mon" "mon \<le> 11" "1 \<le> d" "d \<le> month_len y mon"
  shows "(case next_day (y, mon, d) of (y', mon', d') \<Rightarrow> days_from_civil y' mon' d')
    = days_from_civil y mon d + 1"
proof -
  consider "d < month_len y mon" | "d = month_len y mon" "mon < 11"
    | "d = month_len y mon" "mon = 11" using assms by linarith
  then show ?thesis
  proof cases
    case 2
    then show ?thesis using month_start_step [OF assms(1), of y] by (simp add: days_alt)
  next
    case 3
    then show ?thesis
      by (simp add: days_alt leaps_before_Suc month_start_def month_len_def)
  qed (simp add: days_alt)
qed

lemma days_epoch: "days_from_civil 1970 0 1 = 0"
  by (simp add: days_from_civil_def month_start_def)


section \<open>Writing a line\<close>

text \<open>
  The line the record format prescribes for a record, used to state that parsing reads back
  what was written: numbers in decimal, an absent optional number as an empty field, the call
  time as a calendar date and a time of day.
\<close>

record civil =
  cyear :: nat
  cmonth :: nat
  cday :: nat
  chour :: nat
  cmin :: nat
  csec :: nat

definition valid_civil :: "civil \<Rightarrow> bool" where
  "valid_civil c \<longleftrightarrow> cyear c < 10000 \<and> 1 \<le> cmonth c \<and> cmonth c \<le> 12 \<and> 1 \<le> cday c \<and> cday c \<le> 31
     \<and> chour c < 24 \<and> cmin c < 60 \<and> csec c < 60"

definition time_of :: "civil \<Rightarrow> int" where
  "time_of c = timegm (int (cyear c)) (int (cmonth c) - 1) (int (cday c))
     (int (chour c)) (int (cmin c)) (int (csec c))"

definition two :: "nat \<Rightarrow> string" where
  "two n = [digit_char (n div 10), digit_char (n mod 10)]"

definition four :: "nat \<Rightarrow> string" where
  "four n = two (n div 100) @ two (n mod 100)"

definition date_text :: "civil \<Rightarrow> string" where
  "date_text c = two (cday c) @ ''/'' @ two (cmonth c) @ ''/'' @ four (cyear c)"

definition time_text :: "civil \<Rightarrow> string" where
  "time_text c = two (chour c) @ '':'' @ two (cmin c) @ '':'' @ two (csec c)"

definition opt_text :: "u64 \<Rightarrow> string" where
  "opt_text w = (if w = 0 then [] else dec64 w)"

fun join :: "char \<Rightarrow> string list \<Rightarrow> string" where
  "join sep [] = []"
| "join sep [f] = f"
| "join sep (f # g # fs) = f @ sep # join sep (g # fs)"

definition record_fields :: "CdrRecord \<Rightarrow> civil \<Rightarrow> string list" where
  "record_fields r c =
     [dec64 (sequence r), dec64 (subscriberImsi r), subscriberImei r, usage_code (usageType r),
      dec64 (subscriberMSISDN r), date_text c, time_text c, dec64 (duration r),
      opt_text (bytesReceived r), opt_text (bytesTransmitted r),
      opt_text (secondPartyIMSI r), opt_text (secondPartyMSISDN r)]"

definition render :: "char \<Rightarrow> CdrRecord \<Rightarrow> civil \<Rightarrow> string" where
  "render sep r c = join sep (record_fields r c)"

lemma fields_of_join:
  "fs \<noteq> [] \<Longrightarrow> (\<And>f. f \<in> set fs \<Longrightarrow> sep \<notin> set f) \<Longrightarrow> fields_of sep (join sep fs) = fs"
  by (induction sep fs rule: join.induct) (simp_all add: fields_of_last fields_of_first)

lemma join_snoc: "fs \<noteq> [] \<Longrightarrow> join sep (fs @ [f]) = join sep fs @ sep # f"
  by (induction sep fs rule: join.induct) simp_all

lemma length_dec_of: "n < 10 ^ k \<Longrightarrow> 0 < k \<Longrightarrow> length (dec_of n) \<le> k"
proof (induction n arbitrary: k rule: dec_of.induct)
  case (1 n)
  show ?case
  proof (cases "n < 10")
    case False
    then obtain j where k: "k = Suc j" "0 < j" using 1(2,3)
      by (cases k; cases "k - 1") auto
    then have "n div 10 < 10 ^ j" using 1(2) by simp
    then have "length (dec_of (n div 10)) \<le> j" using 1(1) False k by simp
    then show ?thesis using False k by (subst dec_of.simps) simp
  qed (use 1 in \<open>simp add: dec_of.simps\<close>)
qed

lemma parseU64_dec64:
  "(md = 0 \<or> unat v < 10 ^ md) \<Longrightarrow> parseU64 (dec64 v) opt md = Some v"
  using length_dec_of [of "unat v" md] by (auto simp: parseU64_def num_simps dec64_def [symmetric])

lemma parseU64_opt_text:
  "(md = 0 \<or> unat v < 10 ^ md) \<Longrightarrow> parseU64 (opt_text v) True md = Some v"
  by (cases "v = 0") (auto simp: opt_text_def parseU64_dec64 parseU64_def [of "[]"])

lemma digit_neq: "\<not> is_digit c \<Longrightarrow> d < 10 \<Longrightarrow> digit_char d \<noteq> c"
  by (metis is_digit_digit_char)

lemma not_digit_minus [simp]: "\<not> is_digit (CHR ''-'')"
  by (simp add: is_digit_def)

lemma from_chars_int_digits:
  assumes "ds \<noteq> []" "\<And>c. c \<in> set ds \<Longrightarrow> is_digit c" "length ds \<le> 9"
  shows "from_chars_int ds = (Inr (int (dec_val ds)), [])"
proof -
  have "dec_val ds < 10 ^ length ds" using assms(2) by (rule dec_val_bound)
  also have "\<dots> \<le> 10 ^ 9" using assms(3) by (intro power_increasing) auto
  finally have "int (dec_val ds) < 2 ^ 31" by simp
  moreover have "hd ds \<noteq> CHR ''-''" using assms(1,2) not_digit_minus by (metis hd_in_set)
  ultimately show ?thesis using assms(1,2) by (simp add: from_chars_int_def Let_def)
qed

lemma set_two: "n < 100 \<Longrightarrow> c \<in> set (two n) \<Longrightarrow> is_digit c"
  by (auto simp: two_def)

lemma set_four: "n < 10000 \<Longrightarrow> c \<in> set (four n) \<Longrightarrow> is_digit c"
  by (auto simp: four_def intro: set_two [of "n div 100"] set_two [of "n mod 100"])

lemma dec_val_two: "n < 100 \<Longrightarrow> dec_val (two n) = n"
  by (simp add: two_def dec_val_def num_simps)

lemma dec_val_four: "n < 10000 \<Longrightarrow> dec_val (four n) = n"
  by (simp add: four_def two_def dec_val_def num_simps)

lemma read_two: "n < 100 \<Longrightarrow> from_chars_int (two n) = (Inr (int n), [])"
  using from_chars_int_digits [of "two n"] set_two [of n] dec_val_two [of n]
  by (simp add: two_def)

lemma read_four: "n < 10000 \<Longrightarrow> from_chars_int (four n) = (Inr (int n), [])"
  using from_chars_int_digits [of "four n"] set_four [of n] dec_val_four [of n]
  by (simp add: four_def two_def)

lemma parseDateTime_text:
  assumes "valid_civil c"
  shows "parseDateTime (date_text c) (time_text c) = Some (time_of c)"
proof -
  let ?d = "date_text c" and ?t = "time_text c"
  have parts: "substr ?d 0 2 = two (cday c)" "substr ?d 3 2 = two (cmonth c)"
      "substr ?d 6 4 = four (cyear c)" "substr ?t 0 2 = two (chour c)"
      "substr ?t 3 2 = two (cmin c)" "substr ?t 6 2 = two (csec c)"
      "length ?d = 10" "length ?t = 8" "?d ! 2 = CHR ''/''" "?d ! 5 = CHR ''/''"
      "?t ! 2 = CHR '':''" "?t ! 5 = CHR '':''"
    by (simp_all add: date_text_def time_text_def two_def four_def substr_def)
  show ?thesis
    using assms unfolding parseDateTime_def d2_def parts valid_civil_def time_of_def
    by (simp add: read_two read_four)
qed

text \<open>The characters the fixed parts of a line are made of.\<close>

definition plain_sep :: "char \<Rightarrow> bool" where
  "plain_sep sep \<longleftrightarrow> \<not> is_digit sep \<and> sep \<notin> set ''/:-MOCTSDUBX''"

lemma record_fields_plain:
  assumes "plain_sep sep" "sep \<notin> set (subscriberImei r)" "valid_civil c"
    and "f \<in> set (record_fields r c)"
  shows "sep \<notin> set f"
proof -
  have d: "sep \<notin> set (dec64 w)" "sep \<notin> set (opt_text w)" for w
    using assms(1) dec64_digits by (auto simp: plain_sep_def opt_text_def)
  have "sep \<notin> set (usage_code u)" for u
    using assms(1) by (cases u) (auto simp: plain_sep_def)
  moreover have "sep \<notin> set (date_text c)" and "sep \<notin> set (time_text c)"
    using assms(1,3)
    by (auto simp: plain_sep_def date_text_def time_text_def valid_civil_def
        dest!: set_two [rotated] set_four [rotated])
  ultimately show ?thesis using assms(2,4) d by (auto simp: record_fields_def)
qed

section \<open>Properties\<close>

text \<open>
  C21: parsing reads back what was written. For any record whose identifiers fit their digit
  limits, and any separator that is not part of a field, the line the format prescribes for it
  parses to exactly that record.
\<close>

theorem parse_render:
  assumes "plain_sep sep" "sep \<notin> set (subscriberImei r)" "valid_civil c" "callTime r = time_of c"
    and "unat (subscriberImsi r) < 10 ^ 15" "unat (subscriberMSISDN r) < 10 ^ 15"
    and "unat (secondPartyIMSI r) < 10 ^ 15" "unat (secondPartyMSISDN r) < 10 ^ 15"
  shows "parse sep (render sep r c) = Some r"
proof -
  have "fields_of sep (render sep r c) = record_fields r c"
    unfolding render_def using record_fields_plain [OF assms(1-3)]
    by (intro fields_of_join) (simp_all add: record_fields_def)
  then show ?thesis
    using assms(4-) parseDateTime_text [OF assms(3)]
    by (simp add: parse_Some_iff record_fields_def kFieldCount_def parseU64_dec64
        parseU64_opt_text parseUsage_iff kMaxImsiDigits_def kMaxMsisdnDigits_def)
qed

theorem parse_render_witness:
  "parse (CHR ''|'') ''7|425020000000001|35|MOC|972500000001|29/02/2024|23:59:58|61||||972500000002''
     = Some \<lparr>sequence = 7, subscriberImsi = 425020000000001, subscriberImei = ''35'',
         usageType = MOC, subscriberMSISDN = 972500000001,
         callTime = time_of \<lparr>cyear = 2024, cmonth = 2, cday = 29, chour = 23, cmin = 59, csec = 58\<rparr>,
         duration = 61, bytesReceived = 0, bytesTransmitted = 0, secondPartyIMSI = 0,
         secondPartyMSISDN = 972500000002\<rparr>"
  using parse_render [of "CHR ''|''" "\<lparr>sequence = 7, subscriberImsi = 425020000000001,
      subscriberImei = ''35'', usageType = MOC, subscriberMSISDN = 972500000001,
      callTime = time_of \<lparr>cyear = 2024, cmonth = 2, cday = 29, chour = 23, cmin = 59, csec = 58\<rparr>,
      duration = 61, bytesReceived = 0, bytesTransmitted = 0, secondPartyIMSI = 0,
      secondPartyMSISDN = 972500000002\<rparr>"
      "\<lparr>cyear = 2024, cmonth = 2, cday = 29, chour = 23, cmin = 59, csec = 58\<rparr>"]
  by (simp add: render_def record_fields_def plain_sep_def is_digit_def valid_civil_def dec64_def
      dec_of.simps num_simps opt_text_def date_text_def time_text_def two_def four_def)

text \<open>
  C20: the parser accepts exactly the well-formed lines. A line parses iff it holds twelve fields
  and every field but the third is accepted by its own parser; the values are those the field
  parsers return, and the third field is kept as it stands.
\<close>

theorem parse_accepts:
  "parse sep line = Some r \<longleftrightarrow>
     (\<exists>fs. fs = fields_of sep line \<and> length fs = 12 \<and>
        parseU64 (fs ! 0) False 0 = Some (sequence r) \<and>
        parseU64 (fs ! 1) False 15 = Some (subscriberImsi r) \<and>
        subscriberImei r = fs ! 2 \<and>
        fs ! 3 = usage_code (usageType r) \<and>
        parseU64 (fs ! 4) False 15 = Some (subscriberMSISDN r) \<and>
        parseDateTime (fs ! 5) (fs ! 6) = Some (callTime r) \<and>
        parseU64 (fs ! 7) False 0 = Some (duration r) \<and>
        parseU64 (fs ! 8) True 0 = Some (bytesReceived r) \<and>
        parseU64 (fs ! 9) True 0 = Some (bytesTransmitted r) \<and>
        parseU64 (fs ! 10) True 15 = Some (secondPartyIMSI r) \<and>
        parseU64 (fs ! 11) True 15 = Some (secondPartyMSISDN r))"
  by (simp add: parse_Some_iff parseUsage_iff kFieldCount_def kMaxImsiDigits_def
      kMaxMsisdnDigits_def)

text \<open>
  A numeric field is accepted iff it is a non-empty run of digits within its digit limit
  whose value fits 64 bits, and the value is then that number; an empty field is accepted,
  as 0, only where the field is optional.
\<close>

theorem parseU64_accepts:
  "parseU64 str optional maxDigits = Some v \<longleftrightarrow>
     (if str = [] then optional \<and> v = 0
      else (\<forall>c \<in> set str. is_digit c) \<and> (maxDigits = 0 \<or> length str \<le> maxDigits)
           \<and> dec_val str < 2 ^ 64 \<and> unat v = dec_val str)"
proof -
  have "dec_val str < 2 ^ 64 \<Longrightarrow> v = word_of_nat (dec_val str) \<longleftrightarrow> unat v = dec_val str"
    by (metis unat_dec_val word_unat_eq_iff)
  then show ?thesis by (auto simp: parseU64_iff list_all_iff)
qed

theorem parseU64_accepts_witness:
  "parseU64 ''18446744073709551616'' False 0 = None \<and> parseU64 ''042'' False 15 = Some 42"
proof -
  have "\<not> (\<exists>v. parseU64 ''18446744073709551616'' False 0 = Some v)"
    by (simp add: parseU64_accepts dec_val_def digit_val_def)
  moreover have "parseU64 ''042'' False 15 = Some 42"
    by (simp add: parseU64_accepts dec_val_def digit_val_def is_digit_def)
  ultimately show ?thesis by simp
qed

text \<open>
  The time stamp is the count of seconds since 1970 in the Gregorian calendar: 1970-01-01
  00:00:00 is 0, and from any date to the date after it the count grows by one day.
\<close>

theorem timegm_calendar:
  "timegm 1970 0 1 0 0 0 = 0 \<and>
   (\<forall>y mon d h m s. 0 \<le> mon \<longrightarrow> mon \<le> 11 \<longrightarrow> 1 \<le> d \<longrightarrow> d \<le> month_len y mon \<longrightarrow>
      (case next_day (y, mon, d) of (y', mon', d') \<Rightarrow> timegm y' mon' d' h m s)
        = timegm y mon d h m s + 86400)"
proof (intro conjI allI impI)
  fix y mon d h m s :: int
  assume "0 \<le> mon" "mon \<le> 11" "1 \<le> d" "d \<le> month_len y mon"
  then show "(case next_day (y, mon, d) of (y', mon', d') \<Rightarrow> timegm y' mon' d' h m s)
      = timegm y mon d h m s + 86400"
    using days_next_day [of mon d y] by (auto simp: timegm_def split: prod.splits)
qed (simp add: timegm_def days_epoch)

theorem timegm_calendar_witness:
  "timegm 2024 2 1 12 0 0 = timegm 2024 1 29 12 0 0 + 86400"
  using conjunct2 [OF timegm_calendar, rule_format, of 1 29 2024 12 0 0]
  by (simp add: month_len_def is_leap_def)

text \<open>
  The date and time reader checks error codes but not where the digits end, so trailing junk
  inside a two-digit group is accepted: the comment above the function promises \<open>false\<close> on a
  bad format, the code returns a time.
\<close>

theorem parseDateTime_lenient:
  "parseDateTime ''1x/2y/20zz'' ''3a:4b:5c'' = Some (timegm 20 1 1 3 4 5)"
  by (simp add: parseDateTime_def d2_def substr_def from_chars_int_def is_digit_def dec_val_def
      digit_val_def)

end
