(* ===== verification/Aggregator.thy ===== *)
theory Aggregator
  imports Cdr
begin

text \<open>
  \<open>inc/aggregate/delta.hpp\<close> and \<open>src/aggregate/aggregator.cpp\<close>: a batch of records folded into
  the increments of its subscribers, operators and links. The three hash maps are association
  lists (\<open>Prelude\<close>). The lemmas show that each counter of the fold is the sum of what the
  records contribute to it, that a batch may be cut anywhere, and that links are symmetric.
\<close>

section \<open>Data\<close>

record SubDelta =
  voice_out :: u64
  voice_in :: u64
  data_rx :: u64
  data_tx :: u64
  sms_out :: u64
  sms_in :: u64
  noans :: u64
  busy :: u64
  failed :: u64

record OpDelta =
  op_voice_out :: u64
  op_voice_in :: u64
  op_sms_out :: u64
  op_sms_in :: u64

record LinkDelta =
  dur :: u64
  sms :: u64
  cnt :: u64

record LinkKey =
  owner :: u64
  peer :: u64

record Delta =
  subs :: "(u64 \<times> SubDelta) list"
  ops :: "(u32 \<times> OpDelta) list"
  links :: "(LinkKey \<times> LinkDelta) list"

text \<open>Counters start at 0 and add field by field, so each of the three is a commutative monoid.\<close>

instantiation SubDelta_ext :: (comm_monoid_add) comm_monoid_add
begin

definition zero_SubDelta_ext :: "'a SubDelta_scheme" where
  "zero_SubDelta_ext = \<lparr>voice_out = 0, voice_in = 0, data_rx = 0, data_tx = 0, sms_out = 0,
     sms_in = 0, noans = 0, busy = 0, failed = 0, \<dots> = 0\<rparr>"

definition plus_SubDelta_ext ::
    "'a SubDelta_scheme \<Rightarrow> 'a SubDelta_scheme \<Rightarrow> 'a SubDelta_scheme" where
  "plus_SubDelta_ext a b = \<lparr>voice_out = voice_out a + voice_out b, voice_in = voice_in a + voice_in b,
     data_rx = data_rx a + data_rx b, data_tx = data_tx a + data_tx b,
     sms_out = sms_out a + sms_out b, sms_in = sms_in a + sms_in b, noans = noans a + noans b,
     busy = busy a + busy b, failed = failed a + failed b,
     \<dots> = SubDelta.more a + SubDelta.more b\<rparr>"

instance
  by intro_classes (simp_all add: zero_SubDelta_ext_def plus_SubDelta_ext_def ac_simps)

end

instantiation OpDelta_ext :: (comm_monoid_add) comm_monoid_add
begin

definition zero_OpDelta_ext :: "'a OpDelta_scheme" where
  "zero_OpDelta_ext = \<lparr>op_voice_out = 0, op_voice_in = 0, op_sms_out = 0, op_sms_in = 0, \<dots> = 0\<rparr>"

definition plus_OpDelta_ext :: "'a OpDelta_scheme \<Rightarrow> 'a OpDelta_scheme \<Rightarrow> 'a OpDelta_scheme" where
  "plus_OpDelta_ext a b = \<lparr>op_voice_out = op_voice_out a + op_voice_out b,
     op_voice_in = op_voice_in a + op_voice_in b, op_sms_out = op_sms_out a + op_sms_out b,
     op_sms_in = op_sms_in a + op_sms_in b, \<dots> = OpDelta.more a + OpDelta.more b\<rparr>"

instance
  by intro_classes (simp_all add: zero_OpDelta_ext_def plus_OpDelta_ext_def ac_simps)

end

instantiation LinkDelta_ext :: (comm_monoid_add) comm_monoid_add
begin

definition zero_LinkDelta_ext :: "'a LinkDelta_scheme" where
  "zero_LinkDelta_ext = \<lparr>dur = 0, sms = 0, cnt = 0, \<dots> = 0\<rparr>"

definition plus_LinkDelta_ext ::
    "'a LinkDelta_scheme \<Rightarrow> 'a LinkDelta_scheme \<Rightarrow> 'a LinkDelta_scheme" where
  "plus_LinkDelta_ext a b = \<lparr>dur = dur a + dur b, sms = sms a + sms b, cnt = cnt a + cnt b,
     \<dots> = LinkDelta.more a + LinkDelta.more b\<rparr>"

instance
  by intro_classes (simp_all add: zero_LinkDelta_ext_def plus_LinkDelta_ext_def ac_simps)

end

lemmas delta_monoid_defs =
  zero_SubDelta_ext_def plus_SubDelta_ext_def zero_OpDelta_ext_def plus_OpDelta_ext_def
  zero_LinkDelta_ext_def plus_LinkDelta_ext_def zero_unit_def plus_unit_def

section \<open>Folding\<close>

text \<open>\<open>addLink\<close>: both directions of the pair, nothing without a second party.\<close>

definition add_to_link :: "u64 \<Rightarrow> u64 \<Rightarrow> u64 \<Rightarrow> LinkDelta \<Rightarrow> LinkDelta" where
  "add_to_link d s c e = e\<lparr>dur := dur e + d, sms := sms e + s, cnt := cnt e + c\<rparr>"

definition addLink ::
    "(LinkKey \<times> LinkDelta) list \<Rightarrow> u64 \<Rightarrow> u64 \<Rightarrow> u64 \<Rightarrow> u64 \<Rightarrow> u64 \<Rightarrow> (LinkKey \<times> LinkDelta) list" where
  "addLink ls a b d s c =
     (if b = 0 then ls
      else
        let ls = upd_default \<lparr>owner = a, peer = b\<rparr> 0 (add_to_link d s c) ls
        in upd_default \<lparr>owner = b, peer = a\<rparr> 0 (add_to_link d s c) ls)"

definition mccmnc_of :: "CdrRecord \<Rightarrow> u32" where
  "mccmnc_of r = ucast (subscriberImsi r div kMsinDivisor)"

text \<open>
  The body of the loop for one record. \<open>out.subs[..]\<close> creates the subscriber's entry whatever the
  usage type is; the operator's entry is created only for a non-zero operator code.
\<close>

definition on_sub :: "CdrRecord \<Rightarrow> (SubDelta \<Rightarrow> SubDelta) \<Rightarrow> Delta \<Rightarrow> Delta" where
  "on_sub r f out = out\<lparr>subs := upd_default (subscriberMSISDN r) 0 f (subs out)\<rparr>"

definition on_op :: "CdrRecord \<Rightarrow> (OpDelta \<Rightarrow> OpDelta) \<Rightarrow> Delta \<Rightarrow> Delta" where
  "on_op r f out =
     (if mccmnc_of r = 0 then out else out\<lparr>ops := upd_default (mccmnc_of r) 0 f (ops out)\<rparr>)"

definition on_link :: "CdrRecord \<Rightarrow> u64 \<Rightarrow> u64 \<Rightarrow> u64 \<Rightarrow> Delta \<Rightarrow> Delta" where
  "on_link r d s c out =
     out\<lparr>links := addLink (links out) (subscriberMSISDN r) (secondPartyMSISDN r) d s c\<rparr>"

definition fold_record :: "CdrRecord \<Rightarrow> Delta \<Rightarrow> Delta" where
  "fold_record r out =
     (if subscriberMSISDN r = 0 then out
      else
        let out = on_op r id (on_sub r id out) in
        case usageType r of
          MOC \<Rightarrow> on_link r (duration r) 0 1
                  (on_op r (\<lambda>p. p\<lparr>op_voice_out := op_voice_out p + duration r\<rparr>)
                  (on_sub r (\<lambda>s. s\<lparr>voice_out := voice_out s + duration r\<rparr>) out))
        | MTC \<Rightarrow> on_link r (duration r) 0 1
                  (on_op r (\<lambda>p. p\<lparr>op_voice_in := op_voice_in p + duration r\<rparr>)
                  (on_sub r (\<lambda>s. s\<lparr>voice_in := voice_in s + duration r\<rparr>) out))
        | SMS_MO \<Rightarrow> on_link r 0 1 0
                  (on_op r (\<lambda>p. p\<lparr>op_sms_out := op_sms_out p + 1\<rparr>)
                  (on_sub r (\<lambda>s. s\<lparr>sms_out := sms_out s + 1\<rparr>) out))
        | SMS_MT \<Rightarrow> on_link r 0 1 0
                  (on_op r (\<lambda>p. p\<lparr>op_sms_in := op_sms_in p + 1\<rparr>)
                  (on_sub r (\<lambda>s. s\<lparr>sms_in := sms_in s + 1\<rparr>) out))
        | D \<Rightarrow> on_sub r (\<lambda>s. s\<lparr>data_rx := data_rx s + bytesReceived r,
                              data_tx := data_tx s + bytesTransmitted r\<rparr>) out
        | U \<Rightarrow> on_sub r (\<lambda>s. s\<lparr>noans := noans s + 1\<rparr>) out
        | B \<Rightarrow> on_sub r (\<lambda>s. s\<lparr>busy := busy s + 1\<rparr>) out
        | X \<Rightarrow> on_sub r (\<lambda>s. s\<lparr>failed := failed s + 1\<rparr>) out)"

definition empty_delta :: Delta where
  "empty_delta = \<lparr>subs = [], ops = [], links = []\<rparr>"

text \<open>\<open>Aggregator::fold\<close>: the output is cleared, then every record of the batch is folded in.\<close>

definition fold_batch :: "CdrRecord list \<Rightarrow> Delta" where
  "fold_batch batch = foldl (\<lambda>out r. fold_record r out) empty_delta batch"

section \<open>What one record contributes\<close>

definition sub_contrib :: "CdrRecord \<Rightarrow> SubDelta" where
  "sub_contrib r =
     (case usageType r of
        MOC \<Rightarrow> 0\<lparr>voice_out := duration r\<rparr>
      | MTC \<Rightarrow> 0\<lparr>voice_in := duration r\<rparr>
      | SMS_MO \<Rightarrow> 0\<lparr>sms_out := 1\<rparr>
      | SMS_MT \<Rightarrow> 0\<lparr>sms_in := 1\<rparr>
      | D \<Rightarrow> 0\<lparr>data_rx := bytesReceived r, data_tx := bytesTransmitted r\<rparr>
      | U \<Rightarrow> 0\<lparr>noans := 1\<rparr>
      | B \<Rightarrow> 0\<lparr>busy := 1\<rparr>
      | X \<Rightarrow> 0\<lparr>failed := 1\<rparr>)"

definition op_contrib :: "CdrRecord \<Rightarrow> OpDelta" where
  "op_contrib r =
     (case usageType r of
        MOC \<Rightarrow> 0\<lparr>op_voice_out := duration r\<rparr>
      | MTC \<Rightarrow> 0\<lparr>op_voice_in := duration r\<rparr>
      | SMS_MO \<Rightarrow> 0\<lparr>op_sms_out := 1\<rparr>
      | SMS_MT \<Rightarrow> 0\<lparr>op_sms_in := 1\<rparr>
      | _ \<Rightarrow> 0)"

definition link_contrib :: "CdrRecord \<Rightarrow> LinkDelta" where
  "link_contrib r =
     (case usageType r of
        MOC \<Rightarrow> 0\<lparr>dur := duration r, cnt := 1\<rparr>
      | MTC \<Rightarrow> 0\<lparr>dur := duration r, cnt := 1\<rparr>
      | SMS_MO \<Rightarrow> 0\<lparr>sms := 1\<rparr>
      | SMS_MT \<Rightarrow> 0\<lparr>sms := 1\<rparr>
      | _ \<Rightarrow> 0)"

text \<open>A record counts when it names its subscriber; a link needs the second party too.\<close>

definition counts :: "CdrRecord \<Rightarrow> bool" where
  "counts r \<longleftrightarrow> subscriberMSISDN r \<noteq> 0"

definition is_contact :: "CdrRecord \<Rightarrow> bool" where
  "is_contact r \<longleftrightarrow> counts r \<and> secondPartyMSISDN r \<noteq> 0 \<and> usageType r \<in> {MOC, MTC, SMS_MO, SMS_MT}"

definition fwd_key :: "CdrRecord \<Rightarrow> LinkKey" where
  "fwd_key r = \<lparr>owner = subscriberMSISDN r, peer = secondPartyMSISDN r\<rparr>"

definition rev_key :: "CdrRecord \<Rightarrow> LinkKey" where
  "rev_key r = \<lparr>owner = secondPartyMSISDN r, peer = subscriberMSISDN r\<rparr>"

abbreviation sub_at :: "Delta \<Rightarrow> u64 \<Rightarrow> SubDelta" where "sub_at d \<equiv> at_default 0 (subs d)"
abbreviation op_at :: "Delta \<Rightarrow> u32 \<Rightarrow> OpDelta" where "op_at d \<equiv> at_default 0 (ops d)"
abbreviation link_at :: "Delta \<Rightarrow> LinkKey \<Rightarrow> LinkDelta" where "link_at d \<equiv> at_default 0 (links d)"

lemma sub_bump:
  "s\<lparr>voice_out := voice_out s + d\<rparr> = s + 0\<lparr>voice_out := d\<rparr>"
  "s\<lparr>voice_in := voice_in s + d\<rparr> = s + 0\<lparr>voice_in := d\<rparr>"
  "s\<lparr>sms_out := sms_out s + d\<rparr> = s + 0\<lparr>sms_out := d\<rparr>"
  "s\<lparr>sms_in := sms_in s + d\<rparr> = s + 0\<lparr>sms_in := d\<rparr>"
  "s\<lparr>data_rx := data_rx s + d, data_tx := data_tx s + e\<rparr> = s + 0\<lparr>data_rx := d, data_tx := e\<rparr>"
  "s\<lparr>noans := noans s + d\<rparr> = s + 0\<lparr>noans := d\<rparr>"
  "s\<lparr>busy := busy s + d\<rparr> = s + 0\<lparr>busy := d\<rparr>"
  "s\<lparr>failed := failed s + d\<rparr> = s + 0\<lparr>failed := d\<rparr>" for s :: SubDelta
  by (cases s; simp add: delta_monoid_defs)+

lemma op_bump:
  "p\<lparr>op_voice_out := op_voice_out p + d\<rparr> = p + 0\<lparr>op_voice_out := d\<rparr>"
  "p\<lparr>op_voice_in := op_voice_in p + d\<rparr> = p + 0\<lparr>op_voice_in := d\<rparr>"
  "p\<lparr>op_sms_out := op_sms_out p + d\<rparr> = p + 0\<lparr>op_sms_out := d\<rparr>"
  "p\<lparr>op_sms_in := op_sms_in p + d\<rparr> = p + 0\<lparr>op_sms_in := d\<rparr>" for p :: OpDelta
  by (cases p; simp add: delta_monoid_defs)+

lemma link_bump: "add_to_link d s c e = e + 0\<lparr>dur := d, sms := s, cnt := c\<rparr>"
  by (cases e) (simp add: add_to_link_def delta_monoid_defs)

lemmas bump_simps = sub_bump op_bump link_bump

lemma sub_at_on [map_simps]:
  "sub_at (on_sub r f out) k = (if subscriberMSISDN r = k then f (sub_at out k) else sub_at out k)"
  "sub_at (on_op r g out) k = sub_at out k"
  "sub_at (on_link r d s c out) k = sub_at out k"
  by (auto simp: on_sub_def on_op_def on_link_def map_simps)

lemma op_at_on [map_simps]:
  "op_at (on_sub r f out) k = op_at out k"
  "op_at (on_op r g out) k =
     (if mccmnc_of r \<noteq> 0 \<and> mccmnc_of r = k then g (op_at out k) else op_at out k)"
  "op_at (on_link r d s c out) k = op_at out k"
  by (auto simp: on_sub_def on_op_def on_link_def map_simps)

lemma fold_record_sub:
  "sub_at (fold_record r out) k =
     sub_at out k + (if counts r \<and> subscriberMSISDN r = k then sub_contrib r else 0)"
  unfolding fold_record_def Let_def
  by (cases "usageType r"; cases "subscriberMSISDN r = k"; cases "subscriberMSISDN r = 0")
    (simp_all add: sub_at_on counts_def sub_contrib_def sub_bump)

lemma fold_record_op:
  "op_at (fold_record r out) k =
     op_at out k + (if counts r \<and> mccmnc_of r = k \<and> k \<noteq> 0 then op_contrib r else 0)"
  unfolding fold_record_def Let_def
  by (cases "usageType r"; cases "mccmnc_of r = k"; cases "mccmnc_of r = 0")
    (simp_all add: op_at_on counts_def op_contrib_def op_bump)

lemma addLink_at:
  "at_default 0 (addLink ls a b d s c) k =
     at_default 0 ls k
     + (if b \<noteq> 0 \<and> k = \<lparr>owner = a, peer = b\<rparr> then 0\<lparr>dur := d, sms := s, cnt := c\<rparr> else 0)
     + (if b \<noteq> 0 \<and> k = \<lparr>owner = b, peer = a\<rparr> then 0\<lparr>dur := d, sms := s, cnt := c\<rparr> else 0)"
  by (cases "b = 0"; cases "k = \<lparr>owner = a, peer = b\<rparr>"; cases "k = \<lparr>owner = b, peer = a\<rparr>")
    (simp_all only: addLink_def Let_def at_default_upd link_bump if_True if_False simp_thms
      add_0_right add.assoc)

lemma link_at_on [map_simps]:
  "link_at (on_sub r f out) k = link_at out k"
  "link_at (on_op r g out) k = link_at out k"
  "link_at (on_link r d s c out) k =
     link_at out k
     + (if secondPartyMSISDN r \<noteq> 0 \<and> k = fwd_key r then 0\<lparr>dur := d, sms := s, cnt := c\<rparr> else 0)
     + (if secondPartyMSISDN r \<noteq> 0 \<and> k = rev_key r then 0\<lparr>dur := d, sms := s, cnt := c\<rparr> else 0)"
  by (simp_all add: on_sub_def on_op_def on_link_def addLink_at fwd_key_def rev_key_def)

lemma link_zero_upd:
  "(0::LinkDelta)\<lparr>dur := d, sms := 0, cnt := c\<rparr> = 0\<lparr>dur := d, cnt := c\<rparr>"
  "(0::LinkDelta)\<lparr>dur := 0, sms := s, cnt := 0\<rparr> = 0\<lparr>sms := s\<rparr>"
  by (simp_all add: delta_monoid_defs)

lemma fold_record_link:
  "link_at (fold_record r out) k =
     link_at out k + (if is_contact r \<and> fwd_key r = k then link_contrib r else 0)
       + (if is_contact r \<and> rev_key r = k then link_contrib r else 0)"
proof (cases "subscriberMSISDN r = 0")
  case False
  then show ?thesis unfolding fold_record_def Let_def
    by (cases "usageType r"; cases "secondPartyMSISDN r = 0"; cases "fwd_key r = k"; cases "rev_key r = k")
      (simp_all add: link_at_on is_contact_def counts_def link_contrib_def link_zero_upd)
qed (simp add: fold_record_def is_contact_def counts_def)

lemma fold_batch_Nil [simp]: "fold_batch [] = empty_delta"
  by (simp add: fold_batch_def)

lemma fold_batch_snoc: "fold_batch (b @ [r]) = fold_record r (fold_batch b)"
  by (simp add: fold_batch_def)

lemma empty_delta_at [simp]:
  "sub_at empty_delta k = 0" "op_at empty_delta j = 0" "link_at empty_delta l = 0"
  by (simp_all add: empty_delta_def map_simps)

section \<open>Sums over the batch\<close>

lemma sub_at_fold:
  "sub_at (fold_batch b) k =
     (if k = 0 then 0 else (\<Sum>r\<leftarrow>filter (\<lambda>r. subscriberMSISDN r = k) b. sub_contrib r))"
proof (induction b rule: rev_induct)
  case (snoc r b)
  then show ?case by (auto simp: fold_batch_snoc fold_record_sub counts_def)
qed simp

lemma op_at_fold:
  "op_at (fold_batch b) k =
     (if k = 0 then 0
      else (\<Sum>r\<leftarrow>filter (\<lambda>r. counts r \<and> mccmnc_of r = k) b. op_contrib r))"
proof (induction b rule: rev_induct)
  case (snoc r b)
  then show ?case by (auto simp: fold_batch_snoc fold_record_op)
qed simp

lemma link_at_fold:
  "link_at (fold_batch b) k =
     (\<Sum>r\<leftarrow>filter (\<lambda>r. is_contact r \<and> fwd_key r = k) b. link_contrib r)
     + (\<Sum>r\<leftarrow>filter (\<lambda>r. is_contact r \<and> rev_key r = k) b. link_contrib r)"
proof (induction b rule: rev_induct)
  case (snoc r b)
  then show ?case by (auto simp: fold_batch_snoc fold_record_link ac_simps)
qed simp

lemmas at_fold = sub_at_fold op_at_fold link_at_fold

text \<open>The fields of a sum are the sums of the fields.\<close>

lemma sub_field_plus [simp]:
  "voice_out (a + b) = voice_out a + voice_out b" "voice_in (a + b) = voice_in a + voice_in b"
  "data_rx (a + b) = data_rx a + data_rx b" "data_tx (a + b) = data_tx a + data_tx b"
  "sms_out (a + b) = sms_out a + sms_out b" "sms_in (a + b) = sms_in a + sms_in b"
  "noans (a + b) = noans a + noans b" "busy (a + b) = busy a + busy b"
  "failed (a + b) = failed a + failed b" for a b :: SubDelta
  by (simp_all add: plus_SubDelta_ext_def)

lemma op_field_plus [simp]:
  "op_voice_out (a + b) = op_voice_out a + op_voice_out b"
  "op_voice_in (a + b) = op_voice_in a + op_voice_in b"
  "op_sms_out (a + b) = op_sms_out a + op_sms_out b"
  "op_sms_in (a + b) = op_sms_in a + op_sms_in b" for a b :: OpDelta
  by (simp_all add: plus_OpDelta_ext_def)

lemma link_field_plus [simp]:
  "dur (a + b) = dur a + dur b" "sms (a + b) = sms a + sms b" "cnt (a + b) = cnt a + cnt b"
  for a b :: LinkDelta
  by (simp_all add: plus_LinkDelta_ext_def)

lemma delta_field_zero [simp]:
  "voice_out (0::SubDelta) = 0" "voice_in (0::SubDelta) = 0" "data_rx (0::SubDelta) = 0"
  "data_tx (0::SubDelta) = 0" "sms_out (0::SubDelta) = 0" "sms_in (0::SubDelta) = 0"
  "noans (0::SubDelta) = 0" "busy (0::SubDelta) = 0" "failed (0::SubDelta) = 0"
  "op_voice_out (0::OpDelta) = 0" "op_voice_in (0::OpDelta) = 0" "op_sms_out (0::OpDelta) = 0"
  "op_sms_in (0::OpDelta) = 0" "dur (0::LinkDelta) = 0" "sms (0::LinkDelta) = 0"
  "cnt (0::LinkDelta) = 0"
  by (simp_all add: delta_monoid_defs)

text \<open>The maps hold one entry for each subscriber, operator and pair the batch touched.\<close>

lemma addLink_keys:
  "fst ` set (addLink ls a b d s c) =
     fst ` set ls \<union> (if b = 0 then {} else {\<lparr>owner = a, peer = b\<rparr>, \<lparr>owner = b, peer = a\<rparr>})"
  by (auto simp: addLink_def Let_def upd_default_keys)

lemma fold_record_keys:
  "fst ` set (subs (fold_record r out)) =
     fst ` set (subs out) \<union> (if counts r then {subscriberMSISDN r} else {})"
  "fst ` set (ops (fold_record r out)) =
     fst ` set (ops out) \<union> (if counts r \<and> mccmnc_of r \<noteq> 0 then {mccmnc_of r} else {})"
  "fst ` set (links (fold_record r out)) =
     fst ` set (links out) \<union> (if is_contact r then {fwd_key r, rev_key r} else {})"
  by (cases "usageType r"; simp add: fold_record_def Let_def on_sub_def on_op_def on_link_def
      upd_default_keys addLink_keys counts_def is_contact_def fwd_key_def rev_key_def)+

lemma fold_batch_keys:
  "fst ` set (subs (fold_batch b)) = {subscriberMSISDN r |r. r \<in> set b \<and> counts r}"
  "fst ` set (ops (fold_batch b)) = {mccmnc_of r |r. r \<in> set b \<and> counts r \<and> mccmnc_of r \<noteq> 0}"
  "fst ` set (links (fold_batch b)) = (\<Union>r \<in> {r \<in> set b. is_contact r}. {fwd_key r, rev_key r})"
  by (induction b rule: rev_induct)
    (auto simp: empty_delta_def fold_batch_snoc fold_record_keys)

lemma addLink_distinct: "distinct_keys ls \<Longrightarrow> distinct_keys (addLink ls a b d s c)"
  by (simp add: addLink_def Let_def upd_default_distinct)

definition delta_wf :: "Delta \<Rightarrow> bool" where
  "delta_wf d \<longleftrightarrow> distinct_keys (subs d) \<and> distinct_keys (ops d) \<and> distinct_keys (links d)"

lemma fold_record_wf: "delta_wf out \<Longrightarrow> delta_wf (fold_record r out)"
  by (cases "usageType r")
    (simp_all add: delta_wf_def fold_record_def Let_def on_sub_def on_op_def on_link_def
      upd_default_distinct addLink_distinct)

lemma fold_batch_wf: "delta_wf (fold_batch b)"
proof (induction b rule: rev_induct)
  case (snoc r b)
  then show ?case unfolding fold_batch_snoc by (rule fold_record_wf)
qed (simp add: delta_wf_def empty_delta_def map_simps)

lemma fwd_rev_swap:
  "fwd_key r = \<lparr>owner = a, peer = b\<rparr> \<longleftrightarrow> rev_key r = \<lparr>owner = b, peer = a\<rparr>"
  by (auto simp: fwd_key_def rev_key_def)

section \<open>Properties\<close>

text \<open>
  C3: every counter of a subscriber is the sum of what the batch's records carry for it: seconds
  of its outgoing and incoming calls, bytes of its data sessions, and one for each message and
  each unanswered, busy or failed call. Number 0, an absent subscriber, is counted nowhere.
\<close>

theorem fold_sub_fields:
  "sub_at (fold_batch b) 0 = 0 \<and>
   (k \<noteq> 0 \<longrightarrow>
     (let mine = (\<lambda>u. filter (\<lambda>r. subscriberMSISDN r = k \<and> usageType r = u) b);
          s = sub_at (fold_batch b) k
      in voice_out s = (\<Sum>r\<leftarrow>mine MOC. duration r) \<and> voice_in s = (\<Sum>r\<leftarrow>mine MTC. duration r)
       \<and> data_rx s = (\<Sum>r\<leftarrow>mine D. bytesReceived r) \<and> data_tx s = (\<Sum>r\<leftarrow>mine D. bytesTransmitted r)
       \<and> sms_out s = of_nat (length (mine SMS_MO)) \<and> sms_in s = of_nat (length (mine SMS_MT))
       \<and> noans s = of_nat (length (mine U)) \<and> busy s = of_nat (length (mine B))
       \<and> failed s = of_nat (length (mine X))))"
  unfolding Let_def sub_at_fold
  by (induction b rule: rev_induct)
    (auto simp: sub_contrib_def split: UsageType.split)

theorem fold_sub_fields_witness:
  "voice_out (sub_at (fold_batch
      [\<lparr>sequence = 1, subscriberImsi = 425020000000001, subscriberImei = [], usageType = MOC,
        subscriberMSISDN = 7, callTime = 0, duration = 60, bytesReceived = 0,
        bytesTransmitted = 0, secondPartyIMSI = 0, secondPartyMSISDN = 9\<rparr>]) 7) = 60"
  using conjunct2 [OF fold_sub_fields, of 7 "[\<lparr>sequence = 1, subscriberImsi = 425020000000001,
        subscriberImei = [], usageType = MOC, subscriberMSISDN = 7, callTime = 0, duration = 60,
        bytesReceived = 0, bytesTransmitted = 0, secondPartyIMSI = 0, secondPartyMSISDN = 9\<rparr>]"]
  by (simp add: Let_def)

text \<open>
  Every counter of an operator is the sum over the records whose IMSI, without its last ten
  digits, is that operator's code; the code 0 is kept nowhere.
\<close>

theorem fold_op_fields:
  "op_at (fold_batch b) 0 = 0 \<and>
   (k \<noteq> 0 \<longrightarrow>
     (let mine = (\<lambda>u. filter (\<lambda>r. counts r \<and> mccmnc_of r = k \<and> usageType r = u) b);
          p = op_at (fold_batch b) k
      in op_voice_out p = (\<Sum>r\<leftarrow>mine MOC. duration r) \<and> op_voice_in p = (\<Sum>r\<leftarrow>mine MTC. duration r)
       \<and> op_sms_out p = of_nat (length (mine SMS_MO))
       \<and> op_sms_in p = of_nat (length (mine SMS_MT))))"
  unfolding Let_def op_at_fold
  by (induction b rule: rev_induct)
    (auto simp: op_contrib_def split: UsageType.split)

theorem fold_op_fields_witness:
  "op_sms_out (op_at (fold_batch
      [\<lparr>sequence = 1, subscriberImsi = 425020000000001, subscriberImei = [], usageType = SMS_MO,
        subscriberMSISDN = 7, callTime = 0, duration = 0, bytesReceived = 0,
        bytesTransmitted = 0, secondPartyIMSI = 0, secondPartyMSISDN = 9\<rparr>]) 42502) = 1"
  using conjunct2 [OF fold_op_fields, of 42502 "[\<lparr>sequence = 1, subscriberImsi = 425020000000001,
        subscriberImei = [], usageType = SMS_MO, subscriberMSISDN = 7, callTime = 0, duration = 0,
        bytesReceived = 0, bytesTransmitted = 0, secondPartyIMSI = 0, secondPartyMSISDN = 9\<rparr>]"]
  by (simp add: Let_def counts_def mccmnc_of_def kMsinDivisor_def)

text \<open>
  C15: links are symmetric and hold contacts only: what a batch adds from one party to another is
  what it adds back, and an entry exists exactly for the two directions of a call or message
  between two named parties.
\<close>

theorem fold_link_symmetric:
  "link_at (fold_batch b) \<lparr>owner = x, peer = y\<rparr> = link_at (fold_batch b) \<lparr>owner = y, peer = x\<rparr> \<and>
   fst ` set (links (fold_batch b)) = (\<Union>r \<in> {r \<in> set b. is_contact r}. {fwd_key r, rev_key r})"
  by (simp add: link_at_fold fold_batch_keys(3) fwd_rev_swap add.commute)

text \<open>
  A batch may be cut anywhere. The fold of two batches one after the other is, entry by
  entry, the sum of their folds, so the counters do not depend on where the readers cut.
\<close>

theorem fold_batch_append:
  "sub_at (fold_batch (a @ b)) k = sub_at (fold_batch a) k + sub_at (fold_batch b) k \<and>
   op_at (fold_batch (a @ b)) j = op_at (fold_batch a) j + op_at (fold_batch b) j \<and>
   link_at (fold_batch (a @ b)) l = link_at (fold_batch a) l + link_at (fold_batch b) l"
  by (simp add: at_fold ac_simps)

text \<open>
  The fold touches no more than it must: its maps have distinct keys, and a subscriber or an
  operator has an entry exactly when a counted record of the batch names it.
\<close>

theorem fold_batch_domain:
  "delta_wf (fold_batch b) \<and>
   fst ` set (subs (fold_batch b)) = {subscriberMSISDN r |r. r \<in> set b \<and> counts r} \<and>
   fst ` set (ops (fold_batch b)) =
     {mccmnc_of r |r. r \<in> set b \<and> counts r \<and> mccmnc_of r \<noteq> 0}"
  by (simp add: fold_batch_wf fold_batch_keys)

end
