(* ===== verification/Store.thy ===== *)
theory Store
  imports Prelude
begin

text \<open>
  \<open>inc/store/istore.hpp\<close>: the interface every counter is written through. The virtual functions
  are the fields of a record over the store's state; each returns its result and the next state.
  What a store holds is described by the write commands it has completed, in order, and those it
  has queued: the locale \<open>counter_store\<close> states the promises of the interface in these terms, and
  \<open>crash_store\<close> adds what a restart of the process leaves. The key and field names of
  \<open>inc/constants.hpp\<close> and the way the commands of a run add up are here as well.
\<close>

section \<open>Commands\<close>

datatype cmd =
  MULTI
| EXEC
| HINCRBY (cmd_key: string) (cmd_field: string) u64
| ZINCRBY (cmd_key: string) u64 (cmd_field: string)
| HSET (cmd_key: string) (cmd_field: string) u64
| HGET (cmd_key: string) (cmd_field: string)

text \<open>The commands that change what is stored.\<close>

fun is_write :: "cmd \<Rightarrow> bool" where
  "is_write (HINCRBY k f v) = True"
| "is_write (ZINCRBY k v m) = True"
| "is_write (HSET k f v) = True"
| "is_write _ = False"

section \<open>Names\<close>

definition kSubPrefix :: string where "kSubPrefix = ''sub:''"
definition kOpPrefix :: string where "kOpPrefix = ''op:''"
definition kLinkPrefix :: string where "kLinkPrefix = ''link:''"
definition kVoiceBoard :: string where "kVoiceBoard = ''top:voice''"
definition kSmsBoard :: string where "kSmsBoard = ''top:sms''"
definition kDataBoard :: string where "kDataBoard = ''top:data''"
definition kFailBoard :: string where "kFailBoard = ''top:fail''"
definition kOpVoiceBoard :: string where "kOpVoiceBoard = ''top:op-voice''"
definition kOpSmsBoard :: string where "kOpSmsBoard = ''top:op-sms''"
definition kFieldVoiceOut :: string where "kFieldVoiceOut = ''voice_out''"
definition kFieldVoiceIn :: string where "kFieldVoiceIn = ''voice_in''"
definition kFieldDataRx :: string where "kFieldDataRx = ''data_rx''"
definition kFieldDataTx :: string where "kFieldDataTx = ''data_tx''"
definition kFieldSmsOut :: string where "kFieldSmsOut = ''sms_out''"
definition kFieldSmsIn :: string where "kFieldSmsIn = ''sms_in''"
definition kFieldNoans :: string where "kFieldNoans = ''noans''"
definition kFieldBusy :: string where "kFieldBusy = ''busy''"
definition kFieldFailed :: string where "kFieldFailed = ''failed''"
definition kFieldDurSuffix :: string where "kFieldDurSuffix = '':dur''"
definition kFieldSmsSuffix :: string where "kFieldSmsSuffix = '':sms''"
definition kFieldCntSuffix :: string where "kFieldCntSuffix = '':cnt''"
definition kTotalKey :: string where "kTotalKey = ''total:proc''"
definition kProgressKey :: string where "kProgressKey = ''prog:file''"

lemmas name_defs =
  kSubPrefix_def kOpPrefix_def kLinkPrefix_def kVoiceBoard_def kSmsBoard_def kDataBoard_def
  kFailBoard_def kOpVoiceBoard_def kOpSmsBoard_def kFieldVoiceOut_def kFieldVoiceIn_def
  kFieldDataRx_def kFieldDataTx_def kFieldSmsOut_def kFieldSmsIn_def kFieldNoans_def
  kFieldBusy_def kFieldFailed_def kFieldDurSuffix_def kFieldSmsSuffix_def kFieldCntSuffix_def
  kTotalKey_def kProgressKey_def

text \<open>The names of the totals in the store, after the usage types.\<close>

definition kFieldRecords :: string where "kFieldRecords = ''records''"
definition kFieldMocCnt :: string where "kFieldMocCnt = ''moc_cnt''"
definition kFieldMtcCnt :: string where "kFieldMtcCnt = ''mtc_cnt''"
definition kFieldSmsMoCnt :: string where "kFieldSmsMoCnt = ''sms_mo_cnt''"
definition kFieldSmsMtCnt :: string where "kFieldSmsMtCnt = ''sms_mt_cnt''"
definition kFieldDataCnt :: string where "kFieldDataCnt = ''data_cnt''"
definition kFieldNoansCnt :: string where "kFieldNoansCnt = ''noans_cnt''"
definition kFieldBusyCnt :: string where "kFieldBusyCnt = ''busy_cnt''"
definition kFieldFailedCnt :: string where "kFieldFailedCnt = ''failed_cnt''"
definition kFieldMocDur :: string where "kFieldMocDur = ''moc_dur''"
definition kFieldMtcDur :: string where "kFieldMtcDur = ''mtc_dur''"
definition kFieldDataDur :: string where "kFieldDataDur = ''data_dur''"

lemmas total_names =
  kFieldRecords_def kFieldMocCnt_def kFieldMtcCnt_def kFieldSmsMoCnt_def kFieldSmsMtCnt_def
  kFieldDataCnt_def kFieldNoansCnt_def kFieldBusyCnt_def kFieldFailedCnt_def kFieldMocDur_def kFieldMtcDur_def kFieldDataDur_def

section \<open>What a list of commands adds up to\<close>

text \<open>
  The amount a list of commands adds to one field of one hash and to one member of one board, and
  the progress it leaves for one source: the last one set, 0 for none.
\<close>

fun hsum :: "string \<Rightarrow> string \<Rightarrow> cmd list \<Rightarrow> nat" where
  "hsum k f [] = 0"
| "hsum k f (c # cs) =
     (case c of HINCRBY k' f' v \<Rightarrow> if k' = k \<and> f' = f then unat v else 0 | _ \<Rightarrow> 0) + hsum k f cs"

fun zsum :: "string \<Rightarrow> string \<Rightarrow> cmd list \<Rightarrow> nat" where
  "zsum b m [] = 0"
| "zsum b m (c # cs) =
     (case c of ZINCRBY b' v m' \<Rightarrow> if b' = b \<and> m' = m then unat v else 0 | _ \<Rightarrow> 0) + zsum b m cs"

definition progress :: "string \<Rightarrow> cmd list \<Rightarrow> u64" where
  "progress src cs = foldl (\<lambda>p c. case c of
       HSET k f v \<Rightarrow> if k = kProgressKey \<and> f = src then v else p | _ \<Rightarrow> p) 0 cs"

lemma hsum_append [simp]: "hsum k f (a @ b) = hsum k f a + hsum k f b"
  by (induction a) auto

lemma zsum_append [simp]: "zsum b m (x @ y) = zsum b m x + zsum b m y"
  by (induction x) auto

lemma progress_Nil [simp]: "progress src [] = 0"
  by (simp add: progress_def)

lemma progress_snoc [simp]:
  "progress src (cs @ [c]) = (case c of
       HSET k f v \<Rightarrow> if k = kProgressKey \<and> f = src then v else progress src cs
     | _ \<Rightarrow> progress src cs)"
  by (simp add: progress_def split: cmd.split)

text \<open>Commands that set no progress leave it as it is.\<close>

definition no_mark :: "cmd list \<Rightarrow> bool" where
  "no_mark cs \<longleftrightarrow> (\<forall>c \<in> set cs. case c of HSET k f v \<Rightarrow> False | _ \<Rightarrow> True)"

lemma progress_no_mark: "no_mark cs \<Longrightarrow> progress src (a @ cs) = progress src a"
proof (induction cs rule: rev_induct)
  case (snoc c cs)
  then have "progress src (a @ cs) = progress src a" by (simp add: no_mark_def)
  with snoc.prems show ?case
    using progress_snoc [of src "a @ cs" c] by (auto simp: no_mark_def split: cmd.splits)
qed simp

lemma no_mark_append [simp]: "no_mark (a @ b) \<longleftrightarrow> no_mark a \<and> no_mark b"
  by (auto simp: no_mark_def)

section \<open>The interface\<close>

record 'st IStore =
  increment :: "string \<Rightarrow> string \<Rightarrow> u64 \<Rightarrow> 'st \<Rightarrow> bool \<times> 'st"
  rank :: "string \<Rightarrow> string \<Rightarrow> u64 \<Rightarrow> 'st \<Rightarrow> bool \<times> 'st"
  flush :: "'st \<Rightarrow> bool \<times> 'st"
  resume_at :: "string \<Rightarrow> 'st \<Rightarrow> u64 \<times> 'st"
  mark :: "string \<Rightarrow> u64 \<Rightarrow> 'st \<Rightarrow> bool \<times> 'st"

text \<open>Sequences of calls, their results dropped.\<close>

datatype store_op =
  OpIncrement string string u64
| OpRank string string u64
| OpMark string u64
| OpFlush
| OpResume string

fun run_call :: "'st IStore \<Rightarrow> store_op \<Rightarrow> 'st \<Rightarrow> 'st" where
  "run_call vt (OpIncrement k f v) s = snd (increment vt k f v s)"
| "run_call vt (OpRank b m v) s = snd (rank vt b m v s)"
| "run_call vt (OpMark src q) s = snd (mark vt src q s)"
| "run_call vt OpFlush s = snd (flush vt s)"
| "run_call vt (OpResume src) s = snd (resume_at vt src s)"

definition run_calls :: "'st IStore \<Rightarrow> store_op list \<Rightarrow> 'st \<Rightarrow> 'st" where
  "run_calls vt calls s = foldl (\<lambda>s c. run_call vt c s) s calls"

lemma run_calls_simps [simp]:
  "run_calls vt [] s = s" "run_calls vt (c # cs) s = run_calls vt cs (run_call vt c s)"
  "run_calls vt (a @ b) s = run_calls vt b (run_calls vt a s)"
  by (simp_all add: run_calls_def)

text \<open>The write a call asks for, when it is one.\<close>

fun write_of :: "store_op \<Rightarrow> cmd option" where
  "write_of (OpIncrement k f v) = Some (HINCRBY k f v)"
| "write_of (OpRank b m v) = Some (ZINCRBY b v m)"
| "write_of (OpMark src q) = Some (HSET kProgressKey src q)"
| "write_of _ = None"

definition is_write_call :: "store_op \<Rightarrow> bool" where
  "is_write_call c \<longleftrightarrow> write_of c \<noteq> None"

text \<open>
  The contract of a working store: \<open>ok\<close> states are those in which it is reachable. A write is
  queued and answered with success, a flush completes everything queued in one step, and the
  progress of a source is read from what is complete.
\<close>

locale counter_store =
  fixes vt :: "'st IStore"
    and ok :: "'st \<Rightarrow> bool"
    and committed :: "'st \<Rightarrow> cmd list"
    and pending :: "'st \<Rightarrow> cmd list"
  assumes increment_ok: "ok s \<Longrightarrow> increment vt k f v s = (b, s') \<Longrightarrow>
      b \<and> ok s' \<and> committed s' = committed s \<and> pending s' = pending s @ [HINCRBY k f v]"
    and rank_ok: "ok s \<Longrightarrow> rank vt bd m v s = (b, s') \<Longrightarrow>
      b \<and> ok s' \<and> committed s' = committed s \<and> pending s' = pending s @ [ZINCRBY bd v m]"
    and mark_ok: "ok s \<Longrightarrow> mark vt src q s = (b, s') \<Longrightarrow>
      b \<and> ok s' \<and> committed s' = committed s \<and> pending s' = pending s @ [HSET kProgressKey src q]"
    and flush_ok: "ok s \<Longrightarrow> flush vt s = (b, s') \<Longrightarrow>
      b \<and> ok s' \<and> committed s' = committed s @ pending s \<and> pending s' = []"
    and resume_ok: "ok s \<Longrightarrow> resume_at vt src s = (p, s') \<Longrightarrow>
      ok s' \<and> committed s' = committed s @ pending s \<and> pending s' = []
      \<and> p = progress src (committed s @ pending s)"

context counter_store
begin

lemma run_writes:
  "ok s \<Longrightarrow> list_all is_write_call calls \<Longrightarrow>
     ok (run_calls vt calls s) \<and> committed (run_calls vt calls s) = committed s
     \<and> pending (run_calls vt calls s) = pending s @ map (the \<circ> write_of) calls"
proof (induction calls arbitrary: s)
  case (Cons c calls)
  have "ok (run_call vt c s) \<and> committed (run_call vt c s) = committed s
      \<and> pending (run_call vt c s) = pending s @ [the (write_of c)]"
    using Cons.prems
    by (cases c)
      (auto simp: is_write_call_def dest: increment_ok [OF _ prod.collapse [symmetric]] rank_ok [OF _ prod.collapse [symmetric]]
        mark_ok [OF _ prod.collapse [symmetric]])
  then show ?case using Cons.IH [of "run_call vt c s"] Cons.prems(2) by simp
qed simp

end

text \<open>A restart keeps what is complete and loses what was only queued.\<close>

locale crash_store = counter_store +
  fixes restart :: "'a \<Rightarrow> 'a"
  assumes restart_ok: "ok s \<Longrightarrow>
      ok (restart s) \<and> committed (restart s) = committed s \<and> pending (restart s) = []"

end
