(* ===== verification/TotalsMod.thy ===== *)
theory TotalsMod
  imports Cdr CsvParser Store
begin

text \<open>
  \<open>inc/aggregate/totals.hpp\<close> and \<open>src/aggregate/totals.cpp\<close>: the counters of one batch by usage
  type, their text, and the run's counters that every thread merges its batches into. Each
  atomic of \<open>RunTotals\<close> is a \<open>Ctr\<close>; a merge is the list of its \<open>fetch_add\<close>s, which the steps of
  other threads may come between. The lemmas show what is counted and that no interleaving
  loses a count.
\<close>

section \<open>One batch\<close>

record Totals =
  records :: u64
  moc_cnt :: u64
  mtc_cnt :: u64
  sms_mo_cnt :: u64
  sms_mt_cnt :: u64
  data_cnt :: u64
  noans_cnt :: u64
  busy_cnt :: u64
  failed_cnt :: u64
  moc_dur :: u64
  mtc_dur :: u64
  data_dur :: u64
  t_data_rx :: u64
  t_data_tx :: u64

definition zero_totals :: Totals where
  "zero_totals = \<lparr>records = 0, moc_cnt = 0, mtc_cnt = 0, sms_mo_cnt = 0, sms_mt_cnt = 0,
     data_cnt = 0, noans_cnt = 0, busy_cnt = 0, failed_cnt = 0, moc_dur = 0, mtc_dur = 0,
     data_dur = 0, t_data_rx = 0, t_data_tx = 0\<rparr>"

definition totals_add :: "CdrRecord \<Rightarrow> Totals \<Rightarrow> Totals" where
  "totals_add r t =
     (let t = t\<lparr>records := records t + 1\<rparr> in
      case usageType r of
        MOC \<Rightarrow> t\<lparr>moc_cnt := moc_cnt t + 1, moc_dur := moc_dur t + duration r\<rparr>
      | MTC \<Rightarrow> t\<lparr>mtc_cnt := mtc_cnt t + 1, mtc_dur := mtc_dur t + duration r\<rparr>
      | SMS_MO \<Rightarrow> t\<lparr>sms_mo_cnt := sms_mo_cnt t + 1\<rparr>
      | SMS_MT \<Rightarrow> t\<lparr>sms_mt_cnt := sms_mt_cnt t + 1\<rparr>
      | D \<Rightarrow> t\<lparr>data_cnt := data_cnt t + 1, data_dur := data_dur t + duration r,
              t_data_rx := t_data_rx t + bytesReceived r,
              t_data_tx := t_data_tx t + bytesTransmitted r\<rparr>
      | U \<Rightarrow> t\<lparr>noans_cnt := noans_cnt t + 1\<rparr>
      | B \<Rightarrow> t\<lparr>busy_cnt := busy_cnt t + 1\<rparr>
      | X \<Rightarrow> t\<lparr>failed_cnt := failed_cnt t + 1\<rparr>)"

definition totals_add_batch :: "CdrRecord list \<Rightarrow> Totals \<Rightarrow> Totals" where
  "totals_add_batch batch t = foldl (\<lambda>t r. totals_add r t) t batch"

definition kTotalsNameWidth :: nat where "kTotalsNameWidth = 12"

definition appendField :: "string \<Rightarrow> string \<Rightarrow> u64 \<Rightarrow> string" where
  "appendField out name v =
     out @ [CHR 0x0A, CHR 0x09] @ name @ replicate (kTotalsNameWidth - length name) (CHR '' '')
       @ dec64 v"

text \<open>The counters under the names they are kept with, in the order they are written.\<close>

definition totals_fields :: "Totals \<Rightarrow> (string \<times> u64) list" where
  "totals_fields t =
     [(kFieldRecords, records t), (kFieldMocCnt, moc_cnt t), (kFieldMtcCnt, mtc_cnt t),
      (kFieldSmsMoCnt, sms_mo_cnt t), (kFieldSmsMtCnt, sms_mt_cnt t), (kFieldDataCnt, data_cnt t),
      (kFieldNoansCnt, noans_cnt t), (kFieldBusyCnt, busy_cnt t), (kFieldFailedCnt, failed_cnt t),
      (kFieldMocDur, moc_dur t), (kFieldMtcDur, mtc_dur t), (kFieldDataDur, data_dur t),
      (kFieldDataRx, t_data_rx t), (kFieldDataTx, t_data_tx t)]"

lemma totals_fields_names:
  "totals_fields t =
     [(''records'', records t), (''moc_cnt'', moc_cnt t), (''mtc_cnt'', mtc_cnt t),
      (''sms_mo_cnt'', sms_mo_cnt t), (''sms_mt_cnt'', sms_mt_cnt t), (''data_cnt'', data_cnt t),
      (''noans_cnt'', noans_cnt t), (''busy_cnt'', busy_cnt t), (''failed_cnt'', failed_cnt t),
      (''moc_dur'', moc_dur t), (''mtc_dur'', mtc_dur t), (''data_dur'', data_dur t),
      (''data_rx'', t_data_rx t), (''data_tx'', t_data_tx t)]"
  by (simp add: totals_fields_def total_names name_defs)

definition totals_format :: "Totals \<Rightarrow> string" where
  "totals_format t = foldl (\<lambda>out (name, v). appendField out name v) [] (totals_fields t)"

section \<open>The run\<close>

datatype Ctr =
  M_records | M_mocCnt | M_mtcCnt | M_smsMoCnt | M_smsMtCnt | M_dataCnt | M_noansCnt | M_busyCnt
| M_failedCnt | M_mocDur | M_mtcDur | M_dataDur | M_dataRx | M_dataTx

type_synonym RunTotals = "Ctr \<Rightarrow> u64"

definition zero_run :: RunTotals where "zero_run = (\<lambda>_. 0)"

text \<open>\<open>counter.fetch_add(value)\<close>, one atomic step.\<close>

definition fetch_add :: "Ctr \<times> u64 \<Rightarrow> RunTotals \<Rightarrow> RunTotals" where
  "fetch_add = (\<lambda>(c, v) run. run(c := run c + v))"

text \<open>\<open>bump\<close> issues a \<open>fetch_add\<close> only for a non-zero value.\<close>

definition bump :: "Ctr \<Rightarrow> u64 \<Rightarrow> (Ctr \<times> u64) list" where
  "bump c v = (if v = 0 then [] else [(c, v)])"

definition merge_ops :: "Totals \<Rightarrow> (Ctr \<times> u64) list" where
  "merge_ops t =
     bump M_records (records t) @ bump M_mocCnt (moc_cnt t) @ bump M_mtcCnt (mtc_cnt t)
     @ bump M_smsMoCnt (sms_mo_cnt t) @ bump M_smsMtCnt (sms_mt_cnt t)
     @ bump M_dataCnt (data_cnt t) @ bump M_noansCnt (noans_cnt t) @ bump M_busyCnt (busy_cnt t)
     @ bump M_failedCnt (failed_cnt t) @ bump M_mocDur (moc_dur t) @ bump M_mtcDur (mtc_dur t)
     @ bump M_dataDur (data_dur t) @ bump M_dataRx (t_data_rx t) @ bump M_dataTx (t_data_tx t)"

definition merge :: "Totals \<Rightarrow> RunTotals \<Rightarrow> RunTotals" where
  "merge t run = foldl (\<lambda>run x. fetch_add x run) run (merge_ops t)"

definition snapshot :: "RunTotals \<Rightarrow> Totals" where
  "snapshot run = \<lparr>records = run M_records, moc_cnt = run M_mocCnt, mtc_cnt = run M_mtcCnt,
     sms_mo_cnt = run M_smsMoCnt, sms_mt_cnt = run M_smsMtCnt, data_cnt = run M_dataCnt,
     noans_cnt = run M_noansCnt, busy_cnt = run M_busyCnt, failed_cnt = run M_failedCnt,
     moc_dur = run M_mocDur, mtc_dur = run M_mtcDur, data_dur = run M_dataDur,
     t_data_rx = run M_dataRx, t_data_tx = run M_dataTx\<rparr>"

text \<open>
  Several threads at once: the \<open>fetch_add\<close>s each of them has left to issue, and the counters.
  A step is one thread issuing its next one.
\<close>

inductive merge_step ::
    "(Ctr \<times> u64) list list \<times> RunTotals \<Rightarrow> (Ctr \<times> u64) list list \<times> RunTotals \<Rightarrow> bool" where
  issue: "i < length ts \<Longrightarrow> ts ! i = x # xs \<Longrightarrow>
     merge_step (ts, run) (ts[i := xs], fetch_add x run)"

inductive_cases merge_stepE: "merge_step (ts, run) s'"

section \<open>What is counted\<close>

lemma totals_add_batch_snoc:
  "totals_add_batch (b @ [r]) t = totals_add r (totals_add_batch b t)"
  by (simp add: totals_add_batch_def)

lemma totals_add_batch_append:
  "totals_add_batch (a @ b) t = totals_add_batch b (totals_add_batch a t)"
  by (simp add: totals_add_batch_def)

abbreviation of_usage :: "UsageType \<Rightarrow> CdrRecord list \<Rightarrow> CdrRecord list" where
  "of_usage u b \<equiv> filter (\<lambda>r. usageType r = u) b"

lemma totals_batch_fields:
  "totals_add_batch b zero_totals =
     \<lparr>records = of_nat (length b), moc_cnt = of_nat (length (of_usage MOC b)),
      mtc_cnt = of_nat (length (of_usage MTC b)), sms_mo_cnt = of_nat (length (of_usage SMS_MO b)),
      sms_mt_cnt = of_nat (length (of_usage SMS_MT b)), data_cnt = of_nat (length (of_usage D b)),
      noans_cnt = of_nat (length (of_usage U b)), busy_cnt = of_nat (length (of_usage B b)),
      failed_cnt = of_nat (length (of_usage X b)), moc_dur = (\<Sum>r\<leftarrow>of_usage MOC b. duration r),
      mtc_dur = (\<Sum>r\<leftarrow>of_usage MTC b. duration r), data_dur = (\<Sum>r\<leftarrow>of_usage D b. duration r),
      t_data_rx = (\<Sum>r\<leftarrow>of_usage D b. bytesReceived r),
      t_data_tx = (\<Sum>r\<leftarrow>of_usage D b. bytesTransmitted r)\<rparr>"
proof (induction b rule: rev_induct)
  case Nil
  show ?case by (simp add: totals_add_batch_def zero_totals_def)
next
  case (snoc r b)
  then show ?case by (cases "usageType r") (simp_all add: totals_add_batch_snoc totals_add_def)
qed

lemma usage_partition:
  "length b = length (of_usage MOC b) + length (of_usage MTC b) + length (of_usage SMS_MO b)
     + length (of_usage SMS_MT b) + length (of_usage D b) + length (of_usage U b)
     + length (of_usage B b) + length (of_usage X b)"
proof (induction b)
  case (Cons r b)
  then show ?case by (cases "usageType r") simp_all
qed simp

section \<open>Merging\<close>

text \<open>What a list of \<open>fetch_add\<close>s adds to each counter.\<close>

definition ops_sum :: "(Ctr \<times> u64) list \<Rightarrow> Ctr \<Rightarrow> u64" where
  "ops_sum xs c = (\<Sum>x\<leftarrow>filter (\<lambda>x. fst x = c) xs. snd x)"

lemma ops_sum_simps [simp]:
  "ops_sum [] c = 0"
  "ops_sum (x # xs) c = (if fst x = c then snd x else 0) + ops_sum xs c"
  "ops_sum (xs @ ys) c = ops_sum xs c + ops_sum ys c"
  by (simp_all add: ops_sum_def)

lemma ops_sum_bump [simp]: "ops_sum (bump d v) c = (if d = c then v else 0)"
  by (simp add: bump_def)

lemma fetch_add_at: "fetch_add x run c = run c + (if fst x = c then snd x else 0)"
  by (cases x) (simp add: fetch_add_def)

lemma foldl_fetch_add: "foldl (\<lambda>run x. fetch_add x run) run xs c = run c + ops_sum xs c"
  by (induction xs arbitrary: run) (simp_all add: fetch_add_at add.assoc)

lemma snapshot_ops: "snapshot (ops_sum (merge_ops t)) = t"
  by (cases t) (simp add: snapshot_def merge_ops_def)

text \<open>What all threads have left to add is never lost: it moves from the lists to the counters.\<close>

definition left_sum :: "(Ctr \<times> u64) list list \<Rightarrow> Ctr \<Rightarrow> u64" where
  "left_sum ts c = (\<Sum>xs\<leftarrow>ts. ops_sum xs c)"

lemma left_sum_update:
  "i < length ts \<Longrightarrow> ts ! i = x # xs \<Longrightarrow>
     left_sum ts c = left_sum (ts[i := xs]) c + (if fst x = c then snd x else 0)"
proof (induction ts arbitrary: i)
  case (Cons t ts)
  then show ?case by (cases i) (auto simp: left_sum_def ac_simps)
qed simp

lemma merge_step_sum:
  "merge_step (ts, run) (ts', run') \<Longrightarrow> run' c + left_sum ts' c = run c + left_sum ts c"
  by (erule merge_stepE) (auto simp: fetch_add_at left_sum_update ac_simps)

lemma merge_steps_sum:
  "merge_step\<^sup>*\<^sup>* s s' \<Longrightarrow> snd s' c + left_sum (fst s') c = snd s c + left_sum (fst s) c"
proof (induction rule: rtranclp_induct)
  case (step s' s'')
  then show ?case using merge_step_sum [of "fst s'" "snd s'" "fst s''" "snd s''" c] by simp
qed simp

lemma left_sum_done: "(\<forall>xs \<in> set ts. xs = []) \<Longrightarrow> left_sum ts c = 0"
  by (induction ts) (simp_all add: left_sum_def)

text \<open>The threads' programs: each merges its batches one after the other.\<close>

definition merge_progs :: "Totals list list \<Rightarrow> (Ctr \<times> u64) list list" where
  "merge_progs tss = map (\<lambda>ts. concat (map merge_ops ts)) tss"

lemma ops_sum_concat: "ops_sum (concat (map merge_ops ts)) c = (\<Sum>t\<leftarrow>ts. ops_sum (merge_ops t) c)"
  by (induction ts) simp_all

lemma merge_at: "merge t run c = run c + ops_sum (merge_ops t) c"
  by (simp add: merge_def foldl_fetch_add)

lemma foldl_merge_at:
  "foldl (\<lambda>run t. merge t run) run ts c = run c + (\<Sum>t\<leftarrow>ts. ops_sum (merge_ops t) c)"
  by (induction ts arbitrary: run) (simp_all add: merge_at add.assoc)

text \<open>The counters of several batches merged are those of all their records in one.\<close>

lemma ops_sum_batches:
  "ops_sum (merge_ops (totals_add_batch (a @ b) zero_totals)) c =
     ops_sum (merge_ops (totals_add_batch a zero_totals)) c + ops_sum (merge_ops (totals_add_batch b zero_totals)) c"
  by (cases c) (simp_all add: totals_batch_fields merge_ops_def Let_def)

lemma merged_batches:
  "foldl (\<lambda>run b. merge (totals_add_batch b zero_totals) run) run bs = merge (totals_add_batch (concat bs) zero_totals) run"
proof (induction bs rule: rev_induct)
  case Nil
  show ?case by (rule ext) (simp add: merge_at totals_add_batch_def zero_totals_def merge_ops_def)
next
  case (snoc b bs)
  then show ?case by (intro ext) (simp add: merge_at ops_sum_batches add.assoc)
qed

lemma totals_permuted:
  assumes "mset a = mset b"
  shows "totals_add_batch a zero_totals = totals_add_batch b zero_totals"
proof -
  have m: "mset (of_usage u a) = mset (of_usage u b)" for u by (simp only: mset_filter assms)
  have "length (of_usage u a) = length (of_usage u b)" for u by (rule mset_eq_length [OF m])
  moreover have "(\<Sum>r\<leftarrow>of_usage u a. f r) = (\<Sum>r\<leftarrow>of_usage u b. f r)" for u and f :: "CdrRecord \<Rightarrow> u64"
    using arg_cong [OF m, where f = "\<lambda>m. sum_mset (image_mset f m)"] by (simp only: sum_mset_sum_list mset_map [symmetric])
  moreover have "length a = length b" by (rule mset_eq_length [OF assms])
  ultimately show ?thesis by (simp only: totals_batch_fields)
qed

lemma snapshot_fresh: "snapshot (merge t zero_run) = t"
proof -
  have "merge t zero_run = ops_sum (merge_ops t)" by (rule ext) (simp add: merge_at zero_run_def)
  then show ?thesis by (simp add: snapshot_ops)
qed

lemma left_sum_progs:
  "left_sum (merge_progs tss) c = (\<Sum>t\<leftarrow>concat tss. ops_sum (merge_ops t) c)"
  by (induction tss) (simp_all add: left_sum_def merge_progs_def ops_sum_concat)

text \<open>While any thread has a \<open>fetch_add\<close> left a step is possible, and every step uses one up.\<close>

definition ops_left :: "(Ctr \<times> u64) list list \<Rightarrow> nat" where
  "ops_left ts = sum_list (map length ts)"

lemma merge_step_progress:
  assumes "\<exists>xs \<in> set ts. xs \<noteq> []"
  shows "\<exists>s'. merge_step (ts, run) s'"
proof -
  from assms obtain i x xs where "i < length ts" "ts ! i = x # xs"
    by (metis in_set_conv_nth neq_Nil_conv)
  then show ?thesis by (blast intro: merge_step.issue)
qed

lemma ops_left_update:
  "i < length ts \<Longrightarrow> ts ! i = x # xs \<Longrightarrow> Suc (ops_left (ts[i := xs])) = ops_left ts"
proof (induction ts arbitrary: i)
  case (Cons t ts)
  then show ?case by (cases i) (auto simp: ops_left_def)
qed simp

lemma merge_step_decreases: "merge_step (ts, run) (ts', run') \<Longrightarrow> Suc (ops_left ts') = ops_left ts"
  by (erule merge_stepE) (simp add: ops_left_update)

section \<open>Properties\<close>

text \<open>
  Every record of a batch is counted once, under its usage type and in the number of
  records, whether or not it names a subscriber; the seconds and bytes are the sums over the
  records of their usage type.
\<close>

theorem totals_conservation:
  "let t = totals_add_batch b zero_totals in
     records t = of_nat (length b) \<and>
     records t = moc_cnt t + mtc_cnt t + sms_mo_cnt t + sms_mt_cnt t + data_cnt t
       + noans_cnt t + busy_cnt t + failed_cnt t \<and>
     moc_dur t = (\<Sum>r\<leftarrow>of_usage MOC b. duration r) \<and>
     mtc_dur t = (\<Sum>r\<leftarrow>of_usage MTC b. duration r) \<and>
     data_dur t = (\<Sum>r\<leftarrow>of_usage D b. duration r) \<and>
     t_data_rx t = (\<Sum>r\<leftarrow>of_usage D b. bytesReceived r) \<and>
     t_data_tx t = (\<Sum>r\<leftarrow>of_usage D b. bytesTransmitted r)"
proof -
  have "(of_nat (length b) :: u64) = of_nat (length (of_usage MOC b) + length (of_usage MTC b)
      + length (of_usage SMS_MO b) + length (of_usage SMS_MT b) + length (of_usage D b)
      + length (of_usage U b) + length (of_usage B b) + length (of_usage X b))"
    by (subst usage_partition [of b]) (rule refl)
  then show ?thesis by (simp add: totals_batch_fields Let_def)
qed

text \<open>
  C25: no interleaving of the reader threads loses a count. However the \<open>fetch_add\<close>s of any
  number of threads merging their batches interleave, once all are done the run's counters are
  those of merging every batch in sequence.
\<close>

theorem merges_commute:
  assumes "merge_step\<^sup>*\<^sup>* (merge_progs tss, run) (ts', run')" "\<forall>xs \<in> set ts'. xs = []"
  shows "run' = foldl (\<lambda>run t. merge t run) run (concat tss)"
proof
  fix c
  from merge_steps_sum [OF assms(1), of c] left_sum_done [OF assms(2), of c]
  show "run' c = foldl (\<lambda>run t. merge t run) run (concat tss) c"
    by (simp add: foldl_merge_at left_sum_progs)
qed

theorem merges_commute_witness:
  "\<exists>run'. merge_step\<^sup>*\<^sup>* (merge_progs [[zero_totals\<lparr>records := 2\<rparr>], [zero_totals\<lparr>records := 3\<rparr>]], zero_run)
       ([[], []], run') \<and> run' M_records = 5"
proof -
  let ?tss = "[[zero_totals\<lparr>records := 2\<rparr>], [zero_totals\<lparr>records := 3\<rparr>]]"
  let ?run = "fetch_add (M_records, 2) (fetch_add (M_records, 3) zero_run)"
  have p: "merge_progs ?tss = [[(M_records, 2)], [(M_records, 3)]]"
    by (simp add: merge_progs_def merge_ops_def bump_def zero_totals_def)
  have "merge_step (merge_progs ?tss, zero_run) ([[(M_records, 2)], []], fetch_add (M_records, 3) zero_run)"
    using merge_step.issue [of 1 "merge_progs ?tss"] by (simp add: p)
  moreover have "merge_step ([[(M_records, 2)], []], fetch_add (M_records, 3) zero_run) ([[], []], ?run)"
    using merge_step.issue [of 0 "[[(M_records, 2)], []]"] by simp
  ultimately have steps: "merge_step\<^sup>*\<^sup>* (merge_progs ?tss, zero_run) ([[], []], ?run)" by simp
  have "?run M_records = 5"
    unfolding merges_commute [OF steps, simplified]
    by (simp add: merge_at merge_ops_def zero_totals_def zero_run_def)
  with steps show ?thesis by blast
qed

text \<open>
  A batch that was merged can be read back: into fresh counters, the snapshot after one
  merge is the batch's counters, and in general a merge adds each of them.
\<close>

theorem snapshot_merge:
  "snapshot (merge t zero_run) = t \<and>
   (\<forall>c. merge t run c = run c + merge t zero_run c)"
  by (rule conjI, rule snapshot_fresh) (simp add: merge_at zero_run_def)

text \<open>
  The totals message has one line for each of the fourteen counters: a tab, the name, spaces
  up to the value's column, and the value in decimal, so every value starts in the same column.
\<close>

theorem totals_format_lines:
  "fields_of (CHR 0x0A) (totals_format t) = [] #
     map (\<lambda>(name, v). CHR 0x09 # name @ replicate (12 - length name) (CHR '' '') @ dec64 v)
       (totals_fields t) \<and>
   length (totals_fields t) = 14 \<and> (\<forall>(name, v) \<in> set (totals_fields t). length name < 12)"
proof -
  let ?line = "\<lambda>(name, v). CHR 0x09 # name @ replicate (12 - length name) (CHR '' '') @ dec64 v"
  have fmt: "foldl (\<lambda>out (name, v). appendField out name v) out fs
      = join (CHR 0x0A) (out # map ?line fs)" for out fs
    by (induction fs arbitrary: out rule: rev_induct)
      (auto simp: appendField_def kTotalsNameWidth_def join_snoc [of "_ # _", simplified] split: prod.splits)
  have nl: "CHR 0x0A \<notin> set (dec64 v)" for v
    using dec64_digits [of "CHR 0x0A" v] by (auto simp: is_digit_def)
  have "fields_of (CHR 0x0A) (totals_format t) = [] # map ?line (totals_fields t)"
    unfolding totals_format_def fmt
    by (rule fields_of_join) (auto simp: totals_fields_names nl)
  then show ?thesis by (simp add: totals_fields_names)
qed

end
