(* ===== verification/RedisStore.thy ===== *)
theory RedisStore
  imports Store
begin

text \<open>
  \<open>src/store/redis_conn.cpp\<close> and \<open>src/store/redis_store.cpp\<close>: the store over one thread's
  pipelined Redis connection. The thread-local variables are the record \<open>RS\<close>. What hiredis, the
  server and the clock do is not under \<open>src/src\<close>: it is the argument \<open>E\<close>, a record of answer
  functions over a world of its own, and any answer is allowed unless a lemma says otherwise.
  Two ghost components record what the code never reads: the commands appended to a connection,
  the number of replies taken from it, and the logs of the connections that were dropped.

  The lemmas show that whatever the environment answers every write sits inside a transaction
  and the replies read never get out of step with the commands; that over a reliable environment
  the store meets the contract \<open>counter_store\<close>; and how a lost connection splits a batch.
\<close>

section \<open>The connection\<close>

datatype reply =
  RString string | RArray "reply list" | RInteger int | RNil | RStatus string | RError string

record redisContext =
  err :: bool
  sent :: "cmd list"
  taken :: nat

text \<open>
  The environment. \<open>env_connect\<close> tells whether a connection was made without an error,
  \<open>env_append\<close> whether a command was queued, \<open>env_reply\<close> gives the reply read next (\<open>None\<close> for an
  error) from the logs of all connections, the current one last; \<open>env_now\<close> is the clock in
  milliseconds. hiredis marks the context broken whenever it reports an error.
\<close>

record 'w env =
  env_connect :: "'w \<Rightarrow> bool \<times> 'w"
  env_append :: "cmd \<Rightarrow> 'w \<Rightarrow> bool \<times> 'w"
  env_reply :: "cmd list list \<Rightarrow> nat \<Rightarrow> 'w \<Rightarrow> reply option \<times> 'w"
  env_now :: "'w \<Rightarrow> nat \<times> 'w"

record 'w RS =
  ctx :: "redisContext option"
  next_try :: nat
  delay_ms :: nat
  logged_down :: bool
  queued :: nat
  open_batch :: bool
  dead :: "cmd list list"
  world :: 'w

definition kRedisPipelineDepth :: nat where "kRedisPipelineDepth = 1024"
definition kRedisBackoffMinMs :: nat where "kRedisBackoffMinMs = 100"
definition kRedisBackoffMaxMs :: nat where "kRedisBackoffMaxMs = 5000"

text \<open>A thread's state before its first call.\<close>

definition new_thread :: "cmd list list \<Rightarrow> 'w \<Rightarrow> 'w RS" where
  "new_thread logs w = \<lparr>ctx = None, next_try = 0, delay_ms = 0, logged_down = False, queued = 0,
     open_batch = False, dead = logs, world = w\<rparr>"

definition conn_drop :: "'w RS \<Rightarrow> 'w RS" where
  "conn_drop s = (case ctx s of None \<Rightarrow> s | Some c \<Rightarrow> s\<lparr>ctx := None, dead := dead s @ [sent c]\<rparr>)"

text \<open>\<open>RedisConn::get\<close>: the result tells whether there is a context.\<close>

definition conn_get :: "'w env \<Rightarrow> 'w RS \<Rightarrow> bool \<times> 'w RS" where
  "conn_get E s =
     (if (case ctx s of None \<Rightarrow> False | Some c \<Rightarrow> \<not> err c) then (True, s)
      else
        let s = conn_drop s; (now, w) = env_now E (world s); s = s\<lparr>world := w\<rparr> in
        if now < next_try s then (False, s)
        else
          let (connected, w) = env_connect E (world s); s = s\<lparr>world := w\<rparr> in
          if \<not> connected then
            let delay = (if delay_ms s \<noteq> 0 then min (delay_ms s * 2) kRedisBackoffMaxMs
                         else kRedisBackoffMinMs);
                (now, w) = env_now E (world s)
            in (False, s\<lparr>world := w, delay_ms := delay, next_try := now + delay, logged_down := True\<rparr>)
          else
            (True, s\<lparr>ctx := Some \<lparr>err = False, sent = [], taken = 0\<rparr>, delay_ms := 0, next_try := 0,
                     logged_down := False\<rparr>))"

text \<open>\<open>redisAppendCommand\<close> and \<open>redisGetReply\<close> on the current context.\<close>

definition append_cmd :: "'w env \<Rightarrow> cmd \<Rightarrow> 'w RS \<Rightarrow> bool \<times> 'w RS" where
  "append_cmd E c s =
     (let (good, w) = env_append E c (world s); s = s\<lparr>world := w\<rparr> in
      if good then (True, s\<lparr>ctx := map_option (\<lambda>x. x\<lparr>sent := sent x @ [c]\<rparr>) (ctx s)\<rparr>)
      else (False, s\<lparr>ctx := map_option (\<lambda>x. x\<lparr>err := True\<rparr>) (ctx s)\<rparr>))"

definition all_logs :: "'w RS \<Rightarrow> cmd list list" where
  "all_logs s = dead s @ (case ctx s of None \<Rightarrow> [] | Some c \<Rightarrow> [sent c])"

definition replies_taken :: "'w RS \<Rightarrow> nat" where
  "replies_taken s = (case ctx s of None \<Rightarrow> 0 | Some c \<Rightarrow> taken c)"

definition get_reply :: "'w env \<Rightarrow> 'w RS \<Rightarrow> reply option \<times> 'w RS" where
  "get_reply E s =
     (let (r, w) = env_reply E (all_logs s) (replies_taken s) (world s); s = s\<lparr>world := w\<rparr> in
      case r of
        None \<Rightarrow> (None, s\<lparr>ctx := map_option (\<lambda>x. x\<lparr>err := True\<rparr>) (ctx s)\<rparr>)
      | Some a \<Rightarrow> (Some a, s\<lparr>ctx := map_option (\<lambda>x. x\<lparr>taken := taken x + 1\<rparr>) (ctx s)\<rparr>))"

section \<open>The store\<close>

text \<open>\<open>RedisStore::batch\<close>: a context with a transaction open on it.\<close>

definition batch_ctx :: "'w env \<Rightarrow> 'w RS \<Rightarrow> bool \<times> 'w RS" where
  "batch_ctx E s =
     (let s = (if (case ctx s of None \<Rightarrow> False | Some c \<Rightarrow> err c)
               then (conn_drop s)\<lparr>queued := 0, open_batch := False\<rparr> else s);
          (have, s) = conn_get E s
      in if \<not> have then (False, s)
         else if open_batch s then (True, s)
         else
           let (good, s) = append_cmd E MULTI s in
           if \<not> good then (False, s)
           else (True, s\<lparr>open_batch := True, queued := queued s + 1\<rparr>))"

text \<open>The loop of \<open>drain\<close> over the queued replies: it stops at the first one that cannot be read.\<close>

fun drain_loop :: "'w env \<Rightarrow> nat \<Rightarrow> bool \<Rightarrow> 'w RS \<Rightarrow> bool \<times> 'w RS" where
  "drain_loop E 0 good s = (good, s)"
| "drain_loop E (Suc n) good s =
     (case get_reply E s of
        (None, s) \<Rightarrow> (False, s\<lparr>open_batch := False\<rparr>)
      | (Some (RError e), s) \<Rightarrow> drain_loop E n False s
      | (Some _, s) \<Rightarrow> drain_loop E n good s)"

definition broken :: "'w RS \<Rightarrow> bool" where
  "broken s = (case ctx s of None \<Rightarrow> True | Some c \<Rightarrow> err c)"

definition drain :: "'w env \<Rightarrow> 'w RS \<Rightarrow> bool \<times> 'w RS" where
  "drain E s =
     (if queued s = 0 then (True, s)
      else if broken s then (False, s\<lparr>queued := 0, open_batch := False\<rparr>)
      else let (good, s) = drain_loop E (queued s) True s in (good, s\<lparr>queued := 0\<rparr>))"

text \<open>The common part of \<open>increment\<close>, \<open>rank\<close> and \<open>mark\<close>: append to the open batch.\<close>

definition queue_cmd :: "'w env \<Rightarrow> cmd \<Rightarrow> 'w RS \<Rightarrow> bool \<times> 'w RS" where
  "queue_cmd E c s =
     (let (have, s) = batch_ctx E s in
      if \<not> have then (False, s)
      else
        let (good, s) = append_cmd E c s in
        if \<not> good then (False, s) else (True, s\<lparr>queued := queued s + 1\<rparr>))"

definition redis_increment :: "'w env \<Rightarrow> string \<Rightarrow> string \<Rightarrow> u64 \<Rightarrow> 'w RS \<Rightarrow> bool \<times> 'w RS" where
  "redis_increment E key field v s =
     (let (good, s) = queue_cmd E (HINCRBY key field v) s in
      if \<not> good then (False, s)
      else if queued s < kRedisPipelineDepth then (True, s) else drain E s)"

definition redis_rank :: "'w env \<Rightarrow> string \<Rightarrow> string \<Rightarrow> u64 \<Rightarrow> 'w RS \<Rightarrow> bool \<times> 'w RS" where
  "redis_rank E board member v s =
     (let (good, s) = queue_cmd E (ZINCRBY board v member) s in
      if \<not> good then (False, s)
      else if queued s < kRedisPipelineDepth then (True, s) else drain E s)"

definition redis_mark :: "'w env \<Rightarrow> string \<Rightarrow> u64 \<Rightarrow> 'w RS \<Rightarrow> bool \<times> 'w RS" where
  "redis_mark E source seq s = queue_cmd E (HSET kProgressKey source seq) s"

definition redis_flush :: "'w env \<Rightarrow> 'w RS \<Rightarrow> bool \<times> 'w RS" where
  "redis_flush E s =
     (if \<not> open_batch s then drain E s
      else if broken s then (False, s\<lparr>queued := 0, open_batch := False\<rparr>)
      else
        let (good, s) = append_cmd E EXEC s; s = s\<lparr>open_batch := False\<rparr> in
        if \<not> good then (False, s\<lparr>queued := 0\<rparr>)
        else drain E (s\<lparr>queued := queued s + 1\<rparr>))"

text \<open>\<open>redisCommand\<close> appends and reads one reply; the value of a string reply is its digits.\<close>

definition redis_resume_at :: "'w env \<Rightarrow> string \<Rightarrow> 'w RS \<Rightarrow> u64 \<times> 'w RS" where
  "redis_resume_at E source s =
     (let (flushed, s) = redis_flush E s; (have, s) = conn_get E s in
      if \<not> have then (0, s)
      else
        let (good, s) = append_cmd E (HGET kProgressKey source) s;
            (r, s) = (if good then get_reply E s else (None, s)) in
        case r of
          None \<Rightarrow> (0, conn_drop s)
        | Some (RString str) \<Rightarrow> (case from_chars_u64 str of (Inr v, _) \<Rightarrow> v | (Inl _, _) \<Rightarrow> 0, s)
        | Some _ \<Rightarrow> (0, s))"

definition redis_vt :: "'w env \<Rightarrow> 'w RS IStore" where
  "redis_vt E = \<lparr>increment = redis_increment E, rank = redis_rank E, flush = redis_flush E,
     resume_at = redis_resume_at E, mark = redis_mark E\<rparr>"

section \<open>Transactions on a connection\<close>

text \<open>
  The shape of what is sent on one connection: \<open>Some True\<close> inside a transaction, \<open>Some False\<close>
  outside, \<open>None\<close> once a command stood where it may not.
\<close>

fun frame_step :: "bool option \<Rightarrow> cmd \<Rightarrow> bool option" where
  "frame_step (Some False) MULTI = Some True"
| "frame_step (Some False) (HGET k f) = Some False"
| "frame_step (Some True) EXEC = Some False"
| "frame_step (Some True) c = (if is_write c then Some True else None)"
| "frame_step _ _ = None"

definition frame :: "cmd list \<Rightarrow> bool option" where
  "frame log = foldl frame_step (Some False) log"

definition framed :: "cmd list \<Rightarrow> bool" where
  "framed log \<longleftrightarrow> frame log \<noteq> None"

lemma frame_Nil [simp]: "frame [] = Some False"
  by (simp add: frame_def)

lemma frame_snoc [simp]: "frame (log @ [c]) = frame_step (frame log) c"
  by (simp add: frame_def)

lemma frame_step_write [simp]: "is_write c \<Longrightarrow> frame_step (Some True) c = Some True"
  by (cases c) auto

text \<open>
  The state of a thread's connection: either usable, with as many replies outstanding as
  commands queued, or absent or broken. Logs stay framed in every case.
\<close>

definition logs_framed :: "'w RS \<Rightarrow> bool" where
  "logs_framed s \<longleftrightarrow> (\<forall>l \<in> set (all_logs s). framed l)"

definition usable :: "nat \<Rightarrow> bool \<Rightarrow> 'w RS \<Rightarrow> bool" where
  "usable q ob s \<longleftrightarrow> logs_framed s \<and> (\<exists>c. ctx s = Some c \<and> \<not> err c \<and> frame (sent c) = Some ob
     \<and> taken c + q = length (sent c))"

definition conn_inv :: "'w RS \<Rightarrow> bool" where
  "conn_inv s \<longleftrightarrow> logs_framed s
     \<and> (\<not> broken s \<longrightarrow> usable (queued s) (open_batch s) s)
     \<and> (ctx s = None \<longrightarrow> queued s = 0 \<and> \<not> open_batch s)"

lemma usable_not_broken: "usable q ob s \<Longrightarrow> \<not> broken s"
  by (auto simp: usable_def broken_def)

lemma not_broken_ctx: "\<not> broken s \<longleftrightarrow> (\<exists>c. ctx s = Some c \<and> \<not> err c)"
  by (auto simp: broken_def split: option.splits)

lemma conn_inv_cases:
  assumes "conn_inv s"
  obtains (up) "usable (queued s) (open_batch s) s"
    | (down) "broken s" "logs_framed s"
  using assms by (auto simp: conn_inv_def)

lemma conn_inv_usable: "usable (queued s) (open_batch s) s \<Longrightarrow> conn_inv s"
  by (auto simp: conn_inv_def usable_def)

lemma conn_inv_broken:
  "broken s \<Longrightarrow> logs_framed s \<Longrightarrow> (ctx s = None \<Longrightarrow> queued s = 0 \<and> \<not> open_batch s) \<Longrightarrow> conn_inv s"
  by (auto simp: conn_inv_def)

lemma conn_drop_simps [simp]:
  "ctx (conn_drop s) = None" "queued (conn_drop s) = queued s"
  "open_batch (conn_drop s) = open_batch s" "next_try (conn_drop s) = next_try s"
  "delay_ms (conn_drop s) = delay_ms s" "world (conn_drop s) = world s"
  "all_logs (conn_drop s) = all_logs s" "dead (conn_drop s) = all_logs s"
  by (auto simp: conn_drop_def all_logs_def split: option.splits)

lemma all_logs_upd [simp]:
  "all_logs (s\<lparr>queued := q\<rparr>) = all_logs s" "all_logs (s\<lparr>open_batch := ob\<rparr>) = all_logs s"
  "all_logs (s\<lparr>world := w\<rparr>) = all_logs s"
  by (simp_all add: all_logs_def)

lemma logs_framed_upd [simp]:
  "logs_framed (s\<lparr>queued := q\<rparr>) = logs_framed s"
  "logs_framed (s\<lparr>open_batch := ob\<rparr>) = logs_framed s"
  "logs_framed (s\<lparr>world := w\<rparr>) = logs_framed s"
  "logs_framed (conn_drop s) = logs_framed s"
  by (simp_all add: logs_framed_def)

lemma usable_upd [simp]:
  "usable q ob (s\<lparr>queued := x\<rparr>) = usable q ob s"
  "usable q ob (s\<lparr>open_batch := y\<rparr>) = usable q ob s"
  by (simp_all add: usable_def)

lemma broken_upd [simp]:
  "broken (s\<lparr>queued := x\<rparr>) = broken s" "broken (s\<lparr>open_batch := y\<rparr>) = broken s"
  by (simp_all add: broken_def)

lemma conn_get_cases:
  assumes "conn_get E s = (have, s')"
  obtains (kept) "have" "s' = s" "\<not> broken s"
    | (opened) "have" "broken s" "ctx s' = Some \<lparr>err = False, sent = [], taken = 0\<rparr>"
        "dead s' = all_logs s" "queued s' = queued s" "open_batch s' = open_batch s"
        "next_try s' = 0"
    | (refused) "\<not> have" "broken s" "ctx s' = None" "dead s' = all_logs s"
        "queued s' = queued s" "open_batch s' = open_batch s"
proof (cases "broken s")
  case False
  then show thesis using assms kept
    by (auto simp: conn_get_def broken_def split: option.splits if_splits)
next
  case True
  then have "\<not> (case ctx s of None \<Rightarrow> False | Some c \<Rightarrow> \<not> err c)"
    by (auto simp: broken_def split: option.splits)
  with True assms opened refused show thesis
    by (auto simp: conn_get_def Let_def split: if_splits prod.splits)
qed

lemma conn_get_inv:
  assumes "conn_inv s" "broken s \<Longrightarrow> queued s = 0 \<and> \<not> open_batch s" "conn_get E s = (have, s')"
  shows "conn_inv s' \<and> (have \<longrightarrow> \<not> broken s')"
  using assms(3)
proof (cases rule: conn_get_cases)
  case opened
  then have "usable (queued s') (open_batch s') s'" using assms(1,2)
    by (auto simp: usable_def logs_framed_def all_logs_def [of s'] conn_inv_def framed_def)
  then show ?thesis by (auto intro: conn_inv_usable dest: usable_not_broken)
next
  case refused
  then show ?thesis using assms(1,2)
    by (auto simp: conn_inv_def logs_framed_def all_logs_def [of s'] broken_def)
qed (use assms(1) in simp)

lemma append_cmd_cases:
  assumes "usable q ob s" "frame_step (Some ob) c = Some ob'" "append_cmd E c s = (good, s')"
  shows "queued s' = queued s \<and> open_batch s' = open_batch s \<and> next_try s' = next_try s
    \<and> dead s' = dead s \<and> ctx s' \<noteq> None
    \<and> (if good then usable (Suc q) ob' s' else broken s' \<and> logs_framed s')"
proof -
  obtain w where w: "env_append E c (world s) = (good, w)"
    using assms(3) by (auto simp: append_cmd_def Let_def split: prod.splits if_splits)
  from assms(1) obtain x where x: "ctx s = Some x" "\<not> err x" "frame (sent x) = Some ob"
      "taken x + q = length (sent x)" "\<forall>l \<in> set (dead s). framed l"
    by (auto simp: usable_def logs_framed_def all_logs_def)
  show ?thesis
  proof (cases good)
    case True
    then have "s' = s\<lparr>world := w, ctx := Some (x\<lparr>sent := sent x @ [c]\<rparr>)\<rparr>"
      using assms(3) w x(1) by (simp add: append_cmd_def)
    then show ?thesis using True x assms(2)
      by (auto simp: usable_def logs_framed_def all_logs_def framed_def)
  next
    case False
    then have "s' = s\<lparr>world := w, ctx := Some (x\<lparr>err := True\<rparr>)\<rparr>"
      using assms(3) w x(1) by (simp add: append_cmd_def)
    then show ?thesis using False x
      by (auto simp: broken_def logs_framed_def all_logs_def framed_def)
  qed
qed

lemma get_reply_cases:
  assumes "usable (Suc q) ob s" "get_reply E s = (r, s')"
  shows "queued s' = queued s \<and> open_batch s' = open_batch s \<and> next_try s' = next_try s
    \<and> all_logs s' = all_logs s \<and> ctx s' \<noteq> None
    \<and> (if r = None then broken s' \<and> logs_framed s' else usable q ob s')"
proof -
  obtain w where w: "env_reply E (all_logs s) (replies_taken s) (world s) = (r, w)"
    using assms(2) by (auto simp: get_reply_def Let_def split: prod.splits option.splits)
  from assms(1) obtain x where x: "ctx s = Some x" "\<not> err x" "frame (sent x) = Some ob"
      "taken x + Suc q = length (sent x)" "logs_framed s"
    by (auto simp: usable_def)
  show ?thesis
  proof (cases r)
    case None
    then have "s' = s\<lparr>world := w, ctx := Some (x\<lparr>err := True\<rparr>)\<rparr>"
      using assms(2) w x(1) by (simp add: get_reply_def)
    then show ?thesis using None x by (auto simp: broken_def logs_framed_def all_logs_def)
  next
    case (Some a)
    then have "s' = s\<lparr>world := w, ctx := Some (x\<lparr>taken := taken x + 1\<rparr>)\<rparr>"
      using assms(2) w x(1) by (simp add: get_reply_def)
    then show ?thesis using Some x by (auto simp: usable_def logs_framed_def all_logs_def)
  qed
qed

text \<open>Reading all outstanding replies leaves none, or a broken connection without a batch.\<close>

lemma drain_loop_inv:
  "usable n ob s \<Longrightarrow> drain_loop E n good s = (g, s') \<Longrightarrow>
     all_logs s' = all_logs s \<and> next_try s' = next_try s \<and> ctx s' \<noteq> None \<and>
     (if broken s' then \<not> g \<and> \<not> open_batch s' \<and> logs_framed s'
      else usable 0 ob s' \<and> open_batch s' = open_batch s)"
proof (induction n arbitrary: good s)
  case 0
  then show ?case using usable_not_broken [OF 0(1)] by (auto simp: usable_def)
next
  case (Suc n)
  obtain r t where r: "get_reply E s = (r, t)" by (cases "get_reply E s")
  note t = get_reply_cases [OF Suc.prems(1) r]
  show ?case
  proof (cases r)
    case None
    then show ?thesis using Suc.prems(2) r t by (auto simp: all_logs_def)
  next
    case (Some a)
    then have u: "usable n ob t" using t by simp
    obtain h where "drain_loop E n h t = (g, s')"
      using Suc.prems(2) r Some by (cases a) auto
    from Suc.IH [OF u this] t show ?thesis by simp
  qed
qed

lemma drain_inv:
  assumes "conn_inv s" "drain E s = (g, s')"
  shows "conn_inv s' \<and> queued s' = 0 \<and> all_logs s' = all_logs s
    \<and> (open_batch s' = open_batch s \<or> (broken s' \<and> \<not> open_batch s'))"
  using assms(1)
proof (cases rule: conn_inv_cases)
  case up
  show ?thesis
  proof (cases "queued s = 0")
    case False
    obtain t where "drain_loop E (queued s) True s = (g, t)" "s' = t\<lparr>queued := 0\<rparr>"
      using assms(2) False usable_not_broken [OF up] by (auto simp: drain_def split: prod.splits)
    with drain_loop_inv [OF up this(1)] show ?thesis
      by (cases "broken t") (simp_all add: conn_inv_usable conn_inv_broken)
  qed (use assms in \<open>simp add: drain_def\<close>)
next
  case down
  then show ?thesis using assms
    by (cases "queued s = 0") (auto simp: drain_def intro: conn_inv_broken)
qed

lemma batch_ctx_inv:
  assumes "conn_inv s" "batch_ctx E s = (have, s')"
  shows "conn_inv s' \<and> (have \<longrightarrow> \<not> broken s' \<and> open_batch s')"
proof -
  define t where "t = (if (case ctx s of None \<Rightarrow> False | Some c \<Rightarrow> err c)
               then (conn_drop s)\<lparr>queued := 0, open_batch := False\<rparr> else s)"
  have t: "conn_inv t" "broken t \<Longrightarrow> queued t = 0 \<and> \<not> open_batch t"
    using assms(1) by (auto simp: t_def conn_inv_def broken_def split: option.splits)
  obtain h u where u: "conn_get E t = (h, u)" by (cases "conn_get E t")
  note ui = conn_get_inv [OF t u]
  show ?thesis
  proof (cases "h \<and> \<not> open_batch u")
    case True
    then have usable: "usable (queued u) False u" using ui by (auto simp: conn_inv_def)
    obtain g v where v: "append_cmd E MULTI u = (g, v)" by (cases "append_cmd E MULTI u")
    have s': "have = g" "s' = (if g then v\<lparr>open_batch := True, queued := queued v + 1\<rparr> else v)"
      using assms(2) True u v by (auto simp: batch_ctx_def t_def [symmetric] Let_def split: if_splits)
    note vi = append_cmd_cases [OF usable _ v, of True, simplified]
    show ?thesis
    proof (cases g)
      case g: True
      then have "usable (queued s') (open_batch s') s'" using vi True by (simp add: s')
      then show ?thesis using g by (simp add: conn_inv_usable usable_not_broken s')
    next
      case False
      then show ?thesis using vi by (auto simp: s' intro: conn_inv_broken)
    qed
  next
    case False
    then have "have = h" "s' = u"
      using assms(2) u by (auto simp: batch_ctx_def t_def [symmetric] Let_def split: if_splits)
    with ui False show ?thesis by auto
  qed
qed

lemma queue_cmd_inv:
  assumes "conn_inv s" "is_write c" "queue_cmd E c s = (g, s')"
  shows "conn_inv s'"
proof -
  obtain h t where t: "batch_ctx E s = (h, t)" by (cases "batch_ctx E s")
  note ti = batch_ctx_inv [OF assms(1) t]
  show ?thesis
  proof (cases h)
    case True
    then have usable: "usable (queued t) True t" using ti by (auto simp: conn_inv_def)
    obtain g' v where v: "append_cmd E c t = (g', v)" by (cases "append_cmd E c t")
    have s': "s' = (if g' then v\<lparr>queued := queued v + 1\<rparr> else v)"
      using assms(3) True t v by (auto simp: queue_cmd_def split: if_splits)
    note vi = append_cmd_cases [OF usable frame_step_write [OF assms(2)] v]
    show ?thesis using vi ti True
      by (cases g') (auto simp: s' intro: conn_inv_usable conn_inv_broken)
  next
    case False
    then show ?thesis using assms(3) t ti by (simp add: queue_cmd_def)
  qed
qed

lemma redis_flush_inv:
  assumes "conn_inv s" "redis_flush E s = (g, s')"
  shows "conn_inv s' \<and> queued s' = 0 \<and> \<not> open_batch s'"
proof (cases "open_batch s \<and> \<not> broken s")
  case True
  then have usable: "usable (queued s) True s" using assms(1) by (auto simp: conn_inv_def)
  obtain g' v where v: "append_cmd E EXEC s = (g', v)" by (cases "append_cmd E EXEC s")
  note vi = append_cmd_cases [OF usable _ v, of False]
  show ?thesis
  proof (cases g')
    case True
    let ?v = "v\<lparr>open_batch := False, queued := queued v + 1\<rparr>"
    have "drain E ?v = (g, s')"
      using assms(2) \<open>open_batch s \<and> \<not> broken s\<close> v True by (simp add: redis_flush_def)
    moreover have "conn_inv ?v" using vi True by (intro conn_inv_usable) simp
    ultimately show ?thesis using drain_inv [of ?v E g s'] by simp
  next
    case False
    then have "s' = v\<lparr>open_batch := False, queued := 0\<rparr>"
      using assms(2) \<open>open_batch s \<and> \<not> broken s\<close> v by (simp add: redis_flush_def)
    then show ?thesis using vi False by (simp add: conn_inv_broken)
  qed
next
  case False
  show ?thesis
  proof (cases "open_batch s")
    case True
    then have "s' = s\<lparr>queued := 0, open_batch := False\<rparr>"
      using False assms(2) by (simp add: redis_flush_def)
    then show ?thesis using assms(1) True False by (simp add: conn_inv_def)
  next
    case False
    then show ?thesis using assms(2) drain_inv [OF assms(1), of E g s']
      by (auto simp: redis_flush_def)
  qed
qed

lemma redis_resume_inv:
  assumes "conn_inv s" "redis_resume_at E source s = (p, s')"
  shows "conn_inv s'"
proof -
  obtain f t where t: "redis_flush E s = (f, t)" by (cases "redis_flush E s")
  note ti = redis_flush_inv [OF assms(1) t]
  obtain h u where u: "conn_get E t = (h, u)" by (cases "conn_get E t")
  have ui: "conn_inv u \<and> (h \<longrightarrow> \<not> broken u)" using conn_get_inv [OF _ _ u] ti by blast
  have q: "queued u = 0 \<and> \<not> open_batch u" using u ti by (cases rule: conn_get_cases) auto
  show ?thesis
  proof (cases h)
    case False
    then show ?thesis using assms(2) t u ui by (simp add: redis_resume_at_def)
  next
    case True
    then have usable: "usable 0 False u" using ui q by (auto simp: conn_inv_def)
    obtain g v where v: "append_cmd E (HGET kProgressKey source) u = (g, v)"
      by (cases "append_cmd E (HGET kProgressKey source) u")
    note vi = append_cmd_cases [OF usable _ v, of False]
    have dropped: "logs_framed x \<Longrightarrow> queued x = 0 \<Longrightarrow> \<not> open_batch x \<Longrightarrow> conn_inv (conn_drop x)" for x :: "'a RS"
      by (auto simp: conn_inv_def broken_def)
    show ?thesis
    proof (cases g)
      case False
      then show ?thesis using assms(2) t u v vi q True dropped [of v]
        by (simp add: redis_resume_at_def)
    next
      case g: True
      then have usable': "usable (Suc 0) False v" using vi by simp
      obtain r x where x: "get_reply E v = (r, x)" by (cases "get_reply E v")
      note xi = get_reply_cases [OF usable' x]
      have s': "s' = (if r = None then conn_drop x else x)"
        using assms(2) t u v x g True
        by (auto simp: redis_resume_at_def split: option.splits reply.splits)
      show ?thesis using xi vi q dropped [of x]
        by (cases r) (simp_all add: s' conn_inv_usable)
    qed
  qed
qed

lemma redis_increment_inv: "conn_inv s \<Longrightarrow> redis_increment E k f v s = (g, s') \<Longrightarrow> conn_inv s'"
  by (auto simp: redis_increment_def split: prod.splits if_splits
      dest: queue_cmd_inv [rotated 2] drain_inv [rotated])

lemma redis_rank_inv: "conn_inv s \<Longrightarrow> redis_rank E b m v s = (g, s') \<Longrightarrow> conn_inv s'"
  by (auto simp: redis_rank_def split: prod.splits if_splits
      dest: queue_cmd_inv [rotated 2] drain_inv [rotated])

lemma redis_mark_inv: "conn_inv s \<Longrightarrow> redis_mark E src q s = (g, s') \<Longrightarrow> conn_inv s'"
  by (auto simp: redis_mark_def dest: queue_cmd_inv [rotated 2])

section \<open>What the server holds\<close>

text \<open>
  What a server has applied and what it holds in an open transaction after the commands of one
  connection, as Redis documents \<open>MULTI\<close> and \<open>EXEC\<close>: commands of a transaction take effect at
  its \<open>EXEC\<close>, all of them, and a connection that ends before it loses them.
\<close>

fun srv_step :: "cmd list \<times> cmd list option \<Rightarrow> cmd \<Rightarrow> cmd list \<times> cmd list option" where
  "srv_step (done, tx) MULTI = (done, Some [])"
| "srv_step (done, Some p) EXEC = (done @ p, None)"
| "srv_step (done, None) EXEC = (done, None)"
| "srv_step (done, tx) (HGET k f) = (done, tx)"
| "srv_step (done, Some p) c = (done, Some (p @ [c]))"
| "srv_step (done, None) c = (done @ [c], None)"

definition srv :: "cmd list \<Rightarrow> cmd list \<times> cmd list option" where
  "srv log = foldl srv_step ([], None) log"

definition committed_of :: "cmd list \<Rightarrow> cmd list" where
  "committed_of log = fst (srv log)"

definition pending_of :: "cmd list \<Rightarrow> cmd list" where
  "pending_of log = (case snd (srv log) of None \<Rightarrow> [] | Some p \<Rightarrow> p)"

definition committed_logs :: "cmd list list \<Rightarrow> cmd list" where
  "committed_logs ls = concat (map committed_of ls)"

definition rs_committed :: "'w RS \<Rightarrow> cmd list" where
  "rs_committed s = committed_logs (all_logs s)"

definition rs_pending :: "'w RS \<Rightarrow> cmd list" where
  "rs_pending s = (if ctx s = None then [] else pending_of (last (all_logs s)))"

lemma srv_Nil [simp]: "srv [] = ([], None)"
  by (simp add: srv_def)

lemma srv_snoc [simp]: "srv (log @ [c]) = srv_step (srv log) c"
  by (simp add: srv_def)

lemma committed_logs_append [simp]:
  "committed_logs (a @ b) = committed_logs a @ committed_logs b"
  "committed_logs [l] = committed_of l" "committed_logs [] = []"
  by (simp_all add: committed_logs_def)

lemma frame_srv: "frame log = Some ob \<Longrightarrow> (snd (srv log) \<noteq> None) = ob"
proof (induction log arbitrary: ob rule: rev_induct)
  case (snoc c log)
  obtain b where b: "frame log = Some b" using snoc.prems by (cases "frame log") auto
  obtain d t where dt: "srv log = (d, t)" by (cases "srv log")
  from snoc.IH [OF b] snoc.prems b dt show ?case
    by (cases c; cases b; cases t) auto
qed simp

lemma srv_write:
  assumes "frame log = Some True" "is_write c"
  shows "committed_of (log @ [c]) = committed_of log \<and> pending_of (log @ [c]) = pending_of log @ [c]"
proof -
  obtain d p where "srv log = (d, Some p)" using frame_srv [OF assms(1)] by (cases "srv log") auto
  then show ?thesis using assms(2) by (cases c) (simp_all add: committed_of_def pending_of_def)
qed

lemma srv_multi:
  assumes "frame log = Some False"
  shows "committed_of (log @ [MULTI]) = committed_of log \<and> pending_of (log @ [MULTI]) = []
    \<and> pending_of log = []"
  using frame_srv [OF assms] by (cases "srv log") (simp add: committed_of_def pending_of_def)

lemma srv_exec:
  assumes "frame log = Some True"
  shows "committed_of (log @ [EXEC]) = committed_of log @ pending_of log \<and> pending_of (log @ [EXEC]) = []"
proof -
  obtain d p where "srv log = (d, Some p)" using frame_srv [OF assms] by (cases "srv log") auto
  then show ?thesis by (simp add: committed_of_def pending_of_def)
qed

lemma srv_hget:
  "frame log = Some False \<Longrightarrow>
     committed_of (log @ [HGET k f]) = committed_of log \<and> pending_of (log @ [HGET k f]) = []"
  using frame_srv [of log False] by (cases "srv log") (simp add: committed_of_def pending_of_def)

lemma usable_logs: "usable q ob s \<Longrightarrow> all_logs s = dead s @ [sent (the (ctx s))]
    \<and> frame (sent (the (ctx s))) = Some ob"
  by (auto simp: usable_def all_logs_def)

lemma append_cmd_sent:
  "ctx s = Some x \<Longrightarrow> append_cmd E c s = (True, s') \<Longrightarrow>
     dead s' = dead s \<and> (\<exists>y. ctx s' = Some y \<and> sent y = sent x @ [c])"
  by (auto simp: append_cmd_def Let_def split: prod.splits if_splits)

lemma committed_append:
  assumes "usable q ob s" "append_cmd E c s = (True, s')"
  shows "rs_committed s' = committed_logs (dead s) @ committed_of (sent (the (ctx s)) @ [c])"
    and "rs_pending s' = pending_of (sent (the (ctx s)) @ [c])"
proof -
  obtain x where x: "ctx s = Some x" using assms(1) by (auto simp: usable_def)
  from append_cmd_sent [OF x assms(2)] x
  show "rs_committed s' = committed_logs (dead s) @ committed_of (sent (the (ctx s)) @ [c])"
    and "rs_pending s' = pending_of (sent (the (ctx s)) @ [c])"
    by (auto simp: rs_committed_def rs_pending_def all_logs_def)
qed

lemma usable_committed:
  "usable q ob s \<Longrightarrow> rs_committed s = committed_logs (dead s) @ committed_of (sent (the (ctx s)))"
  "usable q ob s \<Longrightarrow> rs_pending s = pending_of (sent (the (ctx s)))"
  by (auto simp: usable_def rs_committed_def rs_pending_def all_logs_def)

lemma rs_upd [simp]:
  "rs_committed (s\<lparr>queued := q\<rparr>) = rs_committed s" "rs_committed (s\<lparr>open_batch := ob\<rparr>) = rs_committed s"
  "rs_pending (s\<lparr>queued := q\<rparr>) = rs_pending s" "rs_pending (s\<lparr>open_batch := ob\<rparr>) = rs_pending s"
  by (simp_all add: rs_committed_def rs_pending_def)

section \<open>A reliable environment\<close>

definition reads :: "reply option \<Rightarrow> u64 \<Rightarrow> bool" where
  "reads r p \<longleftrightarrow> r = Some (RString (dec64 p)) \<or> (r = Some RNil \<and> p = 0)"

text \<open>
  A reply without an error, at the top or inside an array; and what the reply to an \<open>EXEC\<close> says that the
  server has applied of the commands of the transaction: those with a reply of their own that is no
  error.
\<close>

fun accepted :: "reply \<Rightarrow> bool" where
  "accepted (RError e) = False"
| "accepted (RArray rs) = list_all accepted rs"
| "accepted _ = True"

definition applied_by :: "reply option \<Rightarrow> cmd list \<Rightarrow> cmd list" where
  "applied_by r cs = (case r of
     Some (RArray rs) \<Rightarrow> map fst (filter (\<lambda>(c, a). accepted a) (zip cs rs)) | _ \<Rightarrow> [])"

lemma applied_all:
  assumes "accepted (RArray rs)" "length rs = length cs"
  shows "applied_by (Some (RArray rs)) cs = cs"
proof -
  have "filter (\<lambda>(c, a). accepted a) (zip cs rs) = zip cs rs"
    using assms(1) by (intro filter_True) (auto simp: list_all_iff dest: set_zip_rightD)
  then show ?thesis using assms(2) by (simp add: applied_by_def)
qed

text \<open>
  The server that the theorems on the store need: it can be reached and takes every command, no reply
  is an error, not even one inside the reply to an \<open>EXEC\<close>, which has one reply for each command of
  the transaction, and the progress is read back as it was set.
\<close>

locale reliable_redis =
  fixes E :: "'w env"
  assumes connect_ok: "fst (env_connect E w)"
    and append_ok: "fst (env_append E c w)"
    and reply_ok: "\<exists>r. fst (env_reply E logs n w) = Some r \<and> accepted r"
    and exec_ok: "n < length l \<Longrightarrow> l ! n = EXEC \<Longrightarrow>
      \<exists>rs. fst (env_reply E (ds @ [l]) n w) = Some (RArray rs) \<and> length rs = length (pending_of (take n l))"
    and hget_ok: "n < length l \<Longrightarrow> l ! n = HGET kProgressKey src \<Longrightarrow>
      reads (fst (env_reply E (ds @ [l]) n w)) (progress src (committed_logs ds @ committed_of (take n l)))"

definition rs_ok :: "'w RS \<Rightarrow> bool" where
  "rs_ok s \<longleftrightarrow> conn_inv s \<and> next_try s = 0 \<and> (\<forall>c. ctx s = Some c \<longrightarrow> \<not> err c)"

lemma rs_ok_cases:
  assumes "rs_ok s"
  obtains (up) "usable (queued s) (open_batch s) s" "next_try s = 0"
    | (fresh) "ctx s = None" "queued s = 0" "\<not> open_batch s" "logs_framed s" "next_try s = 0"
proof (cases "ctx s")
  case None
  with assms fresh show thesis by (auto simp: rs_ok_def conn_inv_def)
next
  case (Some c)
  with assms have "\<not> broken s" by (auto simp: rs_ok_def broken_def)
  with assms up show thesis by (auto simp: rs_ok_def conn_inv_def)
qed

lemma rs_ok_usable: "usable (queued s) (open_batch s) s \<Longrightarrow> next_try s = 0 \<Longrightarrow> rs_ok s"
  by (auto simp: rs_ok_def conn_inv_usable usable_def)

context reliable_redis
begin

text \<open>What was sent inside a transaction is what the server has applied of it, by its own account.\<close>

lemma exec_applies:
  assumes "n < length l" "l ! n = EXEC"
  shows "applied_by (fst (env_reply E (ds @ [l]) n w)) (pending_of (take n l)) = pending_of (take n l)"
proof -
  obtain rs where "fst (env_reply E (ds @ [l]) n w) = Some (RArray rs)" "length rs = length (pending_of (take n l))"
    using exec_ok [OF assms] by blast
  then show ?thesis using applied_all [of rs] reply_ok [of "ds @ [l]" n w] by auto
qed

lemma append_good:
  assumes "append_cmd E c s = (g, s')"
  shows "g"
  using assms append_ok [of c "world s"]
  by (auto simp: append_cmd_def Let_def split: prod.splits if_splits)

lemma get_good:
  assumes "next_try s = 0" "broken s" "conn_get E s = (h, s')"
  shows "h"
proof -
  have "\<not> (case ctx s of None \<Rightarrow> False | Some c \<Rightarrow> \<not> err c)"
    using assms(2) by (auto simp: broken_def split: option.splits)
  then show ?thesis using assms(1,3)
    by (auto simp: conn_get_def Let_def split: if_splits prod.splits)
      (metis connect_ok fst_conv)+
qed

lemma connected:
  assumes "rs_ok s" "conn_get E s = (h, s')"
  shows "h \<and> usable (queued s) (open_batch s) s' \<and> queued s' = queued s \<and> open_batch s' = open_batch s
    \<and> next_try s' = 0 \<and> rs_committed s' = rs_committed s \<and> rs_pending s' = rs_pending s"
  using assms(1)
proof (cases rule: rs_ok_cases)
  case up
  then have "s' = s \<and> h" using assms(2) usable_not_broken [OF up(1)]
    by (cases rule: conn_get_cases [OF assms(2)]) auto
  with up show ?thesis by simp
next
  case fresh
  then have "broken s" by (simp add: broken_def)
  with get_good fresh assms(2) have h by blast
  from assms(2) show ?thesis
  proof (cases rule: conn_get_cases)
    case opened
    then show ?thesis using fresh
      by (auto simp: usable_def logs_framed_def all_logs_def [of s'] framed_def rs_committed_def
          rs_pending_def committed_of_def pending_of_def)
  qed (use \<open>h\<close> \<open>broken s\<close> in auto)
qed

lemma batch_good:
  assumes "rs_ok s" "batch_ctx E s = (h, s')"
  shows "h \<and> usable (queued s') True s' \<and> open_batch s' \<and> next_try s' = 0
    \<and> rs_committed s' = rs_committed s \<and> rs_pending s' = rs_pending s"
proof -
  have "\<not> (case ctx s of None \<Rightarrow> False | Some c \<Rightarrow> err c)"
    using assms(1) by (auto simp: rs_ok_def split: option.splits)
  note b = assms(2) [unfolded batch_ctx_def if_not_P [OF this] Let_def]
  obtain g t where t: "conn_get E s = (g, t)" by (cases "conn_get E s")
  note c = connected [OF assms(1) t]
  show ?thesis
  proof (cases "open_batch t")
    case True
    with b t have "h" "s' = t" using c by simp_all
    moreover have "open_batch s" using c True by simp
    ultimately show ?thesis using c by (simp add: eqTrueI [of "open_batch s"])
  next
    case False
    then have u: "usable (queued s) False t" using c by simp
    obtain g' v where v: "append_cmd E MULTI t = (g', v)" by (cases "append_cmd E MULTI t")
    from append_good [OF v] v have v': "append_cmd E MULTI t = (True, v)" by simp
    have s': "h" "s' = v\<lparr>open_batch := True, queued := queued v + 1\<rparr>"
      using b t c False v' by simp_all
    from append_cmd_cases [OF u _ v', of True] committed_append [OF u v'] srv_multi [of "sent (the (ctx t))"]
      usable_logs [OF u] usable_committed [OF u] c
    show ?thesis by (simp add: s')
  qed
qed

lemma drain_loop_good:
  "usable n ob s \<Longrightarrow> drain_loop E n good s = (g, s') \<Longrightarrow> g = good \<and> \<not> broken s'"
proof (induction n arbitrary: s)
  case 0
  then show ?case using usable_not_broken by auto
next
  case (Suc n)
  obtain r t where r: "get_reply E s = (r, t)" by (cases "get_reply E s")
  obtain a where a: "r = Some a" "accepted a"
    using r reply_ok [of "all_logs s" "replies_taken s" "world s"]
    by (auto simp: get_reply_def Let_def split: prod.splits option.splits)
  then have "usable n ob t" using get_reply_cases [OF Suc.prems(1) r] by simp
  moreover have "drain_loop E n good t = (g, s')"
    using Suc.prems(2) r a by (cases a) auto
  ultimately show ?case by (rule Suc.IH)
qed

lemma drain_good:
  assumes "usable (queued s) (open_batch s) s" "next_try s = 0" "drain E s = (g, s')"
  shows "g \<and> rs_ok s' \<and> open_batch s' = open_batch s
    \<and> rs_committed s' = rs_committed s \<and> rs_pending s' = rs_pending s"
proof (cases "queued s = 0")
  case True
  with assms show ?thesis by (simp add: drain_def rs_ok_usable)
next
  case False
  obtain t where t: "drain_loop E (queued s) True s = (g, t)" "s' = t\<lparr>queued := 0\<rparr>"
    using assms(3) False usable_not_broken [OF assms(1)] by (auto simp: drain_def split: prod.splits)
  from drain_loop_good [OF assms(1) t(1)] drain_loop_inv [OF assms(1) t(1)] assms
  show ?thesis
    by (auto simp: t(2) rs_committed_def rs_pending_def usable_def intro!: rs_ok_usable)
qed

lemma queue_good:
  assumes "rs_ok s" "is_write c" "queue_cmd E c s = (g, s')"
  shows "g \<and> usable (queued s') (open_batch s') s' \<and> next_try s' = 0
    \<and> rs_committed s' = rs_committed s \<and> rs_pending s' = rs_pending s @ [c]"
proof -
  obtain h t where t: "batch_ctx E s = (h, t)" by (cases "batch_ctx E s")
  note b = batch_good [OF assms(1) t]
  then have u: "usable (queued t) True t" by simp
  obtain g' v where v: "append_cmd E c t = (g', v)" by (cases "append_cmd E c t")
  from append_good [OF v] v have v': "append_cmd E c t = (True, v)" by simp
  have s': "g" "s' = v\<lparr>queued := queued v + 1\<rparr>" using assms(3) t b v' by (simp_all add: queue_cmd_def)
  from append_cmd_cases [OF u frame_step_write [OF assms(2)] v'] committed_append [OF u v']
    usable_logs [OF u] srv_write [OF _ assms(2)] usable_committed [OF u] b
  show ?thesis by (simp add: s')
qed

lemma increment_good:
  assumes "rs_ok s" "redis_increment E k f v s = (g, s')"
  shows "g \<and> rs_ok s' \<and> rs_committed s' = rs_committed s \<and> rs_pending s' = rs_pending s @ [HINCRBY k f v]"
proof -
  obtain h t where t: "queue_cmd E (HINCRBY k f v) s = (h, t)" by (cases "queue_cmd E (HINCRBY k f v) s")
  note q = queue_good [OF assms(1) _ t, simplified]
  show ?thesis using assms(2) t q drain_good [of t g s']
    by (auto simp: redis_increment_def rs_ok_usable split: if_splits)
qed

lemma rank_good:
  assumes "rs_ok s" "redis_rank E bd m v s = (g, s')"
  shows "g \<and> rs_ok s' \<and> rs_committed s' = rs_committed s \<and> rs_pending s' = rs_pending s @ [ZINCRBY bd v m]"
proof -
  obtain h t where t: "queue_cmd E (ZINCRBY bd v m) s = (h, t)" by (cases "queue_cmd E (ZINCRBY bd v m) s")
  note q = queue_good [OF assms(1) _ t, simplified]
  show ?thesis using assms(2) t q drain_good [of t g s']
    by (auto simp: redis_rank_def rs_ok_usable split: if_splits)
qed

lemma mark_good:
  assumes "rs_ok s" "redis_mark E src q s = (g, s')"
  shows "g \<and> rs_ok s' \<and> rs_committed s' = rs_committed s
    \<and> rs_pending s' = rs_pending s @ [HSET kProgressKey src q]"
  using queue_good [OF assms(1) _ assms(2) [unfolded redis_mark_def]] by (simp add: rs_ok_usable)

lemma flush_good:
  assumes "rs_ok s" "redis_flush E s = (g, s')"
  shows "g \<and> rs_ok s' \<and> \<not> open_batch s' \<and> rs_committed s' = rs_committed s @ rs_pending s
    \<and> rs_pending s' = []"
  using assms(1)
proof (cases rule: rs_ok_cases)
  case fresh
  then show ?thesis using assms by (auto simp: redis_flush_def drain_def rs_pending_def)
next
  case up
  show ?thesis
  proof (cases "open_batch s")
    case False
    then have "rs_pending s = []"
      using usable_committed [OF up(1)] usable_logs [OF up(1)] srv_multi by simp
    moreover have "drain E s = (g, s')" using assms(2) False by (simp add: redis_flush_def)
    ultimately show ?thesis using drain_good [OF up] False by simp
  next
    case True
    then have u: "usable (queued s) True s" using up by simp
    obtain g' v where v: "append_cmd E EXEC s = (g', v)" by (cases "append_cmd E EXEC s")
    from append_good [OF v] v have v': "append_cmd E EXEC s = (True, v)" by simp
    let ?v = "v\<lparr>open_batch := False, queued := queued v + 1\<rparr>"
    have d: "drain E ?v = (g, s')"
      using assms(2) True usable_not_broken [OF u] v' by (simp add: redis_flush_def)
    have "usable (queued ?v) (open_batch ?v) ?v" "next_try ?v = 0"
      using append_cmd_cases [OF u _ v', of False] up by simp_all
    from drain_good [OF this d] committed_append [OF u v'] usable_logs [OF u] srv_exec
      usable_committed [OF u]
    show ?thesis by simp
  qed
qed

lemma resume_good:
  assumes "rs_ok s" "redis_resume_at E src s = (p, s')"
  shows "rs_ok s' \<and> rs_committed s' = rs_committed s @ rs_pending s \<and> rs_pending s' = []
    \<and> p = progress src (rs_committed s @ rs_pending s) \<and> queued s' = 0 \<and> \<not> open_batch s'"
proof -
  obtain f t where t: "redis_flush E s = (f, t)" by (cases "redis_flush E s")
  note fl = flush_good [OF assms(1) t]
  have q0: "queued t = 0" using redis_flush_inv [OF _ t] assms(1) by (simp add: rs_ok_def)
  obtain h u where u: "conn_get E t = (h, u)" by (cases "conn_get E t")
  note c = connected [OF _ u]
  have us: "usable 0 False u" using c fl q0 by auto
  let ?c = "HGET kProgressKey src"
  obtain g v where v: "append_cmd E ?c u = (g, v)" by (cases "append_cmd E ?c u")
  from append_good [OF v] v have v': "append_cmd E ?c u = (True, v)" by simp
  note vi = append_cmd_cases [OF us _ v', of False, simplified]
  then have uv: "usable (Suc 0) False v" by simp
  obtain x y where x: "ctx u = Some x" "\<not> err x" "frame (sent x) = Some False" "taken x = length (sent x)"
      and y: "ctx v = Some y" "sent y = sent x @ [?c]"
    using us append_cmd_sent [OF _ v'] by (auto simp: usable_def)
  have tk: "taken y = length (sent x)" using uv y by (auto simp: usable_def)
  obtain r z where z: "get_reply E v = (r, z)" by (cases "get_reply E v")
  have "r = fst (env_reply E (dead v @ [sent x @ [?c]]) (length (sent x)) (world v))"
    using z y tk by (auto simp: get_reply_def all_logs_def replies_taken_def Let_def split: prod.splits option.splits)
  then have "reads r (progress src (committed_logs (dead v) @ committed_of (sent x)))"
    using hget_ok [of "length (sent x)" "sent x @ [?c]" src "dead v" "world v"] by simp
  moreover have "committed_logs (dead v) @ committed_of (sent x) = rs_committed s @ rs_pending s"
    using usable_committed(1) [OF us] x(1) vi c fl by simp
  ultimately have rd: "reads r (progress src (rs_committed s @ rs_pending s))" by simp
  then have zi: "usable 0 False z \<and> all_logs z = all_logs v \<and> queued z = 0 \<and> \<not> open_batch z \<and> next_try z = 0"
    using get_reply_cases [OF uv z] vi c fl q0 by (auto simp: reads_def)
  have "rs_committed z = rs_committed s @ rs_pending s" "rs_pending z = []"
    using committed_append [OF us v'] x srv_hget [OF x(3)] usable_committed [OF us] c fl zi uv
    by (auto simp: rs_committed_def rs_pending_def usable_def)
  moreover have "s' = z" "p = progress src (rs_committed s @ rs_pending s)"
    using assms(2) t u c fl v' z rd
    by (auto simp: redis_resume_at_def reads_def num_simps)
  ultimately show ?thesis using zi by (auto intro: rs_ok_usable)
qed

end

text \<open>Over a reliable environment the store keeps the contract of the interface.\<close>

definition redis_restart :: "'w RS \<Rightarrow> 'w RS" where
  "redis_restart s = new_thread (all_logs s) (world s)"

lemma new_thread_simps [simp]:
  "ctx (new_thread ls w) = None" "queued (new_thread ls w) = 0" "open_batch (new_thread ls w) = False"
  "next_try (new_thread ls w) = 0" "dead (new_thread ls w) = ls" "all_logs (new_thread ls w) = ls"
  "delay_ms (new_thread ls w) = 0" "world (new_thread ls w) = w" "rs_pending (new_thread ls w) = []"
  "rs_committed (new_thread ls w) = committed_logs ls" "broken (new_thread ls w)"
  by (simp_all add: new_thread_def all_logs_def rs_pending_def rs_committed_def broken_def)

lemma new_thread_inv: "\<forall>l \<in> set ls. framed l \<Longrightarrow> conn_inv (new_thread ls w)"
  by (simp add: conn_inv_def logs_framed_def)

lemma restart_good:
  "rs_ok s \<Longrightarrow> rs_ok (redis_restart s) \<and> rs_committed (redis_restart s) = rs_committed s
     \<and> rs_pending (redis_restart s) = []"
  unfolding rs_ok_def redis_restart_def
  using new_thread_inv [of "all_logs s" "world s"]
  by (auto simp: conn_inv_def logs_framed_def rs_committed_def)

sublocale reliable_redis \<subseteq> counter_store "redis_vt E" rs_ok rs_committed rs_pending
  apply unfold_locales
      apply (simp only: redis_vt_def IStore.simps, erule (1) increment_good)
     apply (simp only: redis_vt_def IStore.simps, erule (1) rank_good)
    apply (simp only: redis_vt_def IStore.simps, erule (1) mark_good)
   apply (simp only: redis_vt_def IStore.simps, drule (1) flush_good, simp)
  apply (simp only: redis_vt_def IStore.simps, drule (1) resume_good, simp)
  done

sublocale reliable_redis \<subseteq> crash_store "redis_vt E" rs_ok rs_committed rs_pending redis_restart
  by unfold_locales (use restart_good in blast)

context reliable_redis
begin

lemma contract: "crash_store (redis_vt E) rs_ok rs_committed rs_pending redis_restart"
  by unfold_locales

end

text \<open>A server that answers every command as Redis documents it, over a connection that holds.\<close>

definition perfect_reply :: "cmd list list \<Rightarrow> nat \<Rightarrow> reply" where
  "perfect_reply logs n =
     (let l = last logs in
      if n < length l then
        (case l ! n of
           MULTI \<Rightarrow> RStatus ''OK''
         | EXEC \<Rightarrow> RArray (map (\<lambda>_. RInteger 1) (pending_of (take n l)))
         | HGET k f \<Rightarrow>
             (let p = progress f (committed_logs (butlast logs) @ committed_of (take n l)) in
              if k \<noteq> kProgressKey \<or> p = 0 then RNil else RString (dec64 p))
         | _ \<Rightarrow> RStatus ''QUEUED'')
      else RNil)"

definition perfect_env :: "unit env" where
  "perfect_env = \<lparr>env_connect = (\<lambda>w. (True, w)), env_append = (\<lambda>c w. (True, w)),
     env_reply = (\<lambda>logs n w. (Some (perfect_reply logs n), w)), env_now = (\<lambda>w. (0, w))\<rparr>"

lemma perfect_reply_ok: "accepted (perfect_reply logs n)"
  by (simp add: perfect_reply_def Let_def list_all_iff split: cmd.split)

interpretation live: reliable_redis perfect_env
proof unfold_locales
  fix logs n w
  show "\<exists>r. fst (env_reply perfect_env logs n w) = Some r \<and> accepted r"
    by (simp add: perfect_env_def perfect_reply_ok)
qed (auto simp: perfect_env_def reads_def perfect_reply_def Let_def)

text \<open>
  An environment that differs from the perfect one in the reply to \<open>EXEC\<close>: the array it carries
  holds one reply per command, which Redis sets to an error for a command that failed.
\<close>

definition exec_env :: "reply list \<Rightarrow> unit env" where
  "exec_env rs = \<lparr>env_connect = (\<lambda>w. (True, w)), env_append = (\<lambda>c w. (True, w)),
     env_reply = (\<lambda>logs n w.
       (Some (if n < length (last logs) \<and> last logs ! n = EXEC then RArray rs
              else perfect_reply logs n), w)),
     env_now = (\<lambda>w. (0, w))\<rparr>"

lemma refusing_unreliable: "\<not> reliable_redis (exec_env [RError e])"
proof
  assume "reliable_redis (exec_env [RError e])"
  from reliable_redis.reply_ok [OF this, of "[[EXEC]]" 0 "()"] show False by (simp add: exec_env_def)
qed

section \<open>Sequences of calls\<close>

lemma run_call_inv: "conn_inv s \<Longrightarrow> conn_inv (run_call (redis_vt E) c s)"
proof (cases c)
  case (OpIncrement k f v)
  then show "conn_inv s \<Longrightarrow> ?thesis" using redis_increment_inv [of s E k f v] by (simp add: redis_vt_def prod_eq_iff)
next
  case (OpRank b m v)
  then show "conn_inv s \<Longrightarrow> ?thesis" using redis_rank_inv [of s E b m v] by (simp add: redis_vt_def prod_eq_iff)
next
  case (OpMark src q)
  then show "conn_inv s \<Longrightarrow> ?thesis" using redis_mark_inv [of s E src q] by (simp add: redis_vt_def prod_eq_iff)
next
  case OpFlush
  then show "conn_inv s \<Longrightarrow> ?thesis" using redis_flush_inv [of s E] by (simp add: redis_vt_def prod_eq_iff)
next
  case (OpResume src)
  then show "conn_inv s \<Longrightarrow> ?thesis" using redis_resume_inv [of s E src] by (simp add: redis_vt_def prod_eq_iff)
qed

lemma run_calls_inv: "conn_inv s \<Longrightarrow> conn_inv (run_calls (redis_vt E) ops s)"
  unfolding run_calls_def by (induction ops arbitrary: s) (simp_all add: run_call_inv)

text \<open>
  C36: Whatever calls a thread makes and whatever the server, the network and the clock answer,
  on every connection it ever opened the commands it sent form transactions: every write lies
  between a MULTI and its EXEC, and no transaction is opened inside another. On the current
  connection, unless it broke, the counter \<open>queued\<close> is exactly the number of replies still to be
  read and \<open>open_batch\<close> tells exactly whether the last transaction is open; without a connection
  nothing is queued.
\<close>

theorem redis_framing:
  "let s = run_calls (redis_vt E) ops (new_thread [] w) in
     list_all framed (all_logs s)
     \<and> (case ctx s of
           None \<Rightarrow> queued s = 0 \<and> \<not> open_batch s
         | Some c \<Rightarrow> err c \<or> (taken c + queued s = length (sent c) \<and> frame (sent c) = Some (open_batch s)))"
proof -
  have "conn_inv (run_calls (redis_vt E) ops (new_thread [] w))"
    by (intro run_calls_inv new_thread_inv) simp
  then show ?thesis
    unfolding Let_def conn_inv_def logs_framed_def usable_def broken_def list_all_iff
    by (auto split: option.splits)
qed

text \<open>
  C8: Over a connection that holds and a server that answers every command as documented and refuses
  none, not even one inside a transaction, the store meets the contract of \<open>IStore\<close>: increments, ranks
  and marks are queued, a flush completes all of them at once and reports success, \<open>resume_at\<close> reads the
  progress completed last, and a restart keeps what is complete and drops what is only queued. What the
  store counts as completed is what the server has applied, by its reply to the \<open>EXEC\<close>; a server that
  refuses an increment inside it is not among those meant.
\<close>

theorem redis_meets_contract:
  assumes "reliable_redis E"
  shows "crash_store (redis_vt E) rs_ok rs_committed rs_pending redis_restart
    \<and> (\<forall>ds l n w. n < length l \<and> l ! n = EXEC \<longrightarrow>
         applied_by (fst (env_reply E (ds @ [l]) n w)) (pending_of (take n l)) = pending_of (take n l))
    \<and> \<not> reliable_redis (exec_env [RError e])"
  using reliable_redis.contract [OF assms] reliable_redis.exec_applies [OF assms] refusing_unreliable by blast

theorem redis_meets_contract_witness:
  "crash_store (redis_vt perfect_env) rs_ok rs_committed rs_pending redis_restart
    \<and> applied_by (fst (env_reply perfect_env [[MULTI, HINCRBY ''k'' ''f'' 1, EXEC]] 2 ())) [HINCRBY ''k'' ''f'' 1]
      = [HINCRBY ''k'' ''f'' 1]"
  using redis_meets_contract [OF live.reliable_redis_axioms] by (simp add: applied_by_def perfect_env_def
      perfect_reply_def Let_def pending_of_def srv_def numeral_eq_Suc)

definition backoff :: "nat \<Rightarrow> nat" where
  "backoff k = (if k = 0 then 0 else min (100 * 2 ^ (k - 1)) 5000)"

definition calls :: "'w env \<Rightarrow> nat \<Rightarrow> 'w RS \<Rightarrow> 'w RS" where
  "calls E n s = ((\<lambda>s. snd (conn_get E s)) ^^ n) s"

lemma backoff_Suc:
  "backoff (Suc k) = (if backoff k \<noteq> 0 then min (backoff k * 2) kRedisBackoffMaxMs else kRedisBackoffMinMs)"
  by (cases k) (auto simp: backoff_def kRedisBackoffMaxMs_def kRedisBackoffMinMs_def min_def)

lemma refused_step:
  assumes "\<forall>w. \<not> fst (env_connect E w)" "ctx s = None" "delay_ms s = backoff k" "conn_get E s = (h, s')"
  shows "\<not> h \<and> ctx s' = None \<and> (delay_ms s' = backoff k \<or> delay_ms s' = backoff (Suc k))"
proof -
  obtain now w where now: "env_now E (world s) = (now, w)" by (cases "env_now E (world s)")
  obtain w' where c: "env_connect E w = (False, w')"
    using assms(1) by (metis eq_fst_iff)
  obtain now' w'' where n': "env_now E w' = (now', w'')" by (cases "env_now E w'")
  show ?thesis using assms(2-4) now c n'
    by (auto simp: conn_get_def conn_drop_def backoff_Suc Let_def split: if_splits)
qed

text \<open>
  While no connection can be made, the wait before the next attempt is 100 ms after the first
  failure and doubles with each further one up to 5 seconds: after any number of calls it is the
  value of this sequence at the number of attempts made so far, and no thread ever holds a context.
\<close>

theorem backoff_bounds:
  assumes "\<forall>w. \<not> fst (env_connect E w)"
  shows "\<exists>k \<le> n. delay_ms (calls E n (new_thread ls w)) = backoff k
    \<and> ctx (calls E n (new_thread ls w)) = None \<and> backoff k \<le> 5000"
proof (induction n)
  case 0
  show ?case by (simp add: calls_def backoff_def)
next
  case (Suc n)
  let ?s = "calls E n (new_thread ls w)"
  from Suc obtain k where k: "k \<le> n" "delay_ms ?s = backoff k" "ctx ?s = None" by blast
  obtain h t where t: "conn_get E ?s = (h, t)" by (cases "conn_get E ?s")
  have "calls E (Suc n) (new_thread ls w) = t" using t by (simp add: calls_def)
  moreover have "backoff j \<le> 5000" for j by (simp add: backoff_def)
  ultimately show ?case using refused_step [OF assms k(3,2) t] k(1)
    by (metis le_SucI not_less_eq_eq)
qed

text \<open>A server nobody can reach, with a clock that is read once per call.\<close>

definition unreachable_env :: "nat env" where
  "unreachable_env = \<lparr>env_connect = (\<lambda>w. (False, w)), env_append = (\<lambda>c w. (False, w)),
     env_reply = (\<lambda>logs n w. (None, w)), env_now = (\<lambda>w. (w, w + 3000))\<rparr>"

theorem backoff_bounds_witness:
  "\<exists>k \<le> 9. delay_ms (calls unreachable_env 9 (new_thread [] 7)) = backoff k
    \<and> ctx (calls unreachable_env 9 (new_thread [] 7)) = None \<and> backoff k \<le> 5000"
  by (rule backoff_bounds) (simp add: unreachable_env_def)

section \<open>Where the contract is not kept\<close>

text \<open>
  A flush looks at the replies one level deep only. When the server runs the transaction and
  an increment in it fails (the key holds another type, or the counter would overflow), the error
  stands inside the array that answers the EXEC, and the flush reports success all the same.
\<close>

theorem flush_ignores_nested_errors:
  "fst (redis_flush (exec_env rs) (snd (redis_increment (exec_env rs) k f v (new_thread [] ()))))"
  by (simp add: exec_env_def redis_flush_def redis_increment_def queue_cmd_def batch_ctx_def
      conn_get_def append_cmd_def drain_def broken_def get_reply_def all_logs_def perfect_reply_def
      new_thread_def conn_drop_def kRedisPipelineDepth_def replies_taken_def numeral_eq_Suc)

text \<open>An environment whose third command cannot be appended, and which is perfect otherwise.\<close>

definition flaky_env :: "nat env" where
  "flaky_env = \<lparr>env_connect = (\<lambda>w. (True, w)), env_append = (\<lambda>c w. (w \<noteq> 2, Suc w)),
     env_reply = (\<lambda>logs n w. (Some (perfect_reply logs n), w)), env_now = (\<lambda>w. (0, w))\<rparr>"

text \<open>
  A connection that breaks in the middle of a batch splits it. The write that finds it broken
  opens a new connection and a new transaction, so the increments before the break are lost while
  the ones after it and the progress mark commit, and the flush that commits them succeeds.
\<close>

theorem broken_connection_splits_batch:
  "let s = run_calls (redis_vt flaky_env) [OpIncrement ''k'' ''a'' 1, OpIncrement ''k'' ''b'' 2,
             OpIncrement ''k'' ''c'' 3, OpMark ''f'' 4] (new_thread [] 0);
       (flushed, s') = redis_flush flaky_env s in
     flushed \<and> rs_committed s' = [HINCRBY ''k'' ''c'' 3, HSET kProgressKey ''f'' 4]"
  by (simp add: flaky_env_def redis_vt_def run_calls_def redis_flush_def redis_increment_def redis_mark_def
      queue_cmd_def batch_ctx_def conn_get_def append_cmd_def drain_def broken_def get_reply_def
      all_logs_def perfect_reply_def new_thread_def conn_drop_def kRedisPipelineDepth_def
      rs_committed_def committed_logs_def committed_of_def srv_def replies_taken_def
      numeral_eq_Suc)

end
