(* ===== verification/Writers.thy ===== *)
theory Writers
  imports Aggregator TotalsMod Store
begin

text \<open>
  \<open>src/aggregate/aggregate_writer.cpp\<close> and \<open>src/aggregate/rank_writer.cpp\<close>: a folded batch
  written through an \<open>IStore\<close>. Every \<open>add\<close> of the code is one entry of a list, in the code's
  order, and \<open>write_adds\<close> issues them one after the other whether or not one fails. The lemmas
  inside \<open>counter_store\<close> tell which commands a working store holds afterwards; those outside say
  what the commands add up to, key by key, whatever order the hash maps are walked in.
\<close>

section \<open>The counters\<close>

text \<open>
  \<open>std::to_chars\<close> into a buffer of 20 characters: \<open>None\<close> stands for the error it would report if the
  number did not fit.
\<close>

definition to_chars :: "nat \<Rightarrow> u64 \<Rightarrow> string option" where
  "to_chars room value = (if length (dec64 value) \<le> room then Some (dec64 value) else None)"

definition append_number :: "string \<Rightarrow> u64 \<Rightarrow> string" where
  "append_number out value = (case to_chars 20 value of Some digits \<Rightarrow> out @ digits | None \<Rightarrow> out)"

text \<open>Every 64-bit number has at most 20 digits.\<close>

lemma to_chars_fits [simp]: "to_chars 20 v = Some (dec64 v)"
proof -
  have "unat v < 2 ^ 64" using unsigned_less [of v] by simp
  then have "unat v < 10 ^ 20" by simp
  then show ?thesis using length_dec_of [of "unat v" 20] by (simp add: to_chars_def dec64_def)
qed

lemma append_number_digits [simp]: "append_number out v = out @ dec64 v"
  by (simp add: append_number_def)

lemma dec64_ucast [simp]: "dec64 (ucast (k :: u32)) = dec_of (unat k)"
proof -
  have "unat k < 2 ^ 32" using unsigned_less [of k] by simp
  then show ?thesis by (simp add: dec64_def unsigned_ucast_eq take_bit_nat_eq_self)
qed

definition sub_key :: "u64 \<Rightarrow> string" where "sub_key k = append_number kSubPrefix k"
definition op_key :: "u32 \<Rightarrow> string" where "op_key k = append_number kOpPrefix (ucast k)"
definition link_key :: "u64 \<Rightarrow> string" where "link_key k = append_number kLinkPrefix k"

definition sub_adds :: "u64 \<times> SubDelta \<Rightarrow> (string \<times> string \<times> u64) list" where
  "sub_adds = (\<lambda>(msisdn, sub). let key = sub_key msisdn in
     [(key, kFieldVoiceOut, voice_out sub), (key, kFieldVoiceIn, voice_in sub),
      (key, kFieldDataRx, data_rx sub), (key, kFieldDataTx, data_tx sub),
      (key, kFieldSmsOut, sms_out sub), (key, kFieldSmsIn, sms_in sub),
      (key, kFieldNoans, noans sub), (key, kFieldBusy, busy sub), (key, kFieldFailed, failed sub)])"

definition op_adds :: "u32 \<times> OpDelta \<Rightarrow> (string \<times> string \<times> u64) list" where
  "op_adds = (\<lambda>(mccmnc, op). let key = op_key mccmnc in
     [(key, kFieldVoiceOut, op_voice_out op), (key, kFieldVoiceIn, op_voice_in op),
      (key, kFieldSmsOut, op_sms_out op), (key, kFieldSmsIn, op_sms_in op)])"

definition link_adds :: "LinkKey \<times> LinkDelta \<Rightarrow> (string \<times> string \<times> u64) list" where
  "link_adds = (\<lambda>(link, edge). let key = link_key (owner link); field = append_number [] (peer link) in
     [(key, field @ kFieldDurSuffix, dur edge), (key, field @ kFieldSmsSuffix, sms edge),
      (key, field @ kFieldCntSuffix, cnt edge)])"

definition delta_adds :: "Delta \<Rightarrow> (string \<times> string \<times> u64) list" where
  "delta_adds d = concat (map sub_adds (subs d)) @ concat (map op_adds (ops d))
     @ concat (map link_adds (links d))"

definition totals_adds :: "Totals \<Rightarrow> (string \<times> string \<times> u64) list" where
  "totals_adds t = map (\<lambda>(f, v). (kTotalKey, f, v)) (totals_fields t)"

text \<open>\<open>AggregateWriter::add\<close>: no command for a zero.\<close>

definition add_counter :: "'st IStore \<Rightarrow> string \<Rightarrow> string \<Rightarrow> u64 \<Rightarrow> 'st \<Rightarrow> bool \<times> 'st" where
  "add_counter vt key field v s = (if v = 0 then (True, s) else increment vt key field v s)"

text \<open>The statements \<open>ok = add(..) && ok\<close> one after the other.\<close>

fun write_adds ::
    "'st IStore \<Rightarrow> (string \<times> string \<times> u64) list \<Rightarrow> bool \<Rightarrow> 'st \<Rightarrow> bool \<times> 'st" where
  "write_adds vt [] good s = (good, s)"
| "write_adds vt ((key, field, v) # xs) good s =
     (let (r, s) = add_counter vt key field v s in write_adds vt xs (r \<and> good) s)"

definition write_delta :: "'st IStore \<Rightarrow> Delta \<Rightarrow> 'st \<Rightarrow> bool \<times> 'st" where
  "write_delta vt d s =
     (let (good, s) = write_adds vt (delta_adds d) True s; (flushed, s) = flush vt s
      in (flushed \<and> good, s))"

definition write_totals :: "'st IStore \<Rightarrow> Totals \<Rightarrow> 'st \<Rightarrow> bool \<times> 'st" where
  "write_totals vt t s = write_adds vt (totals_adds t) True s"

section \<open>The boards\<close>

definition rank_append_number :: "string \<Rightarrow> u64 \<Rightarrow> string" where
  "rank_append_number out value = (case to_chars 20 value of Some digits \<Rightarrow> out @ digits | None \<Rightarrow> out)"

lemma rank_append_number_digits [simp]: "rank_append_number out v = out @ dec64 v"
  by (simp add: rank_append_number_def)

definition sub_ranks :: "u64 \<times> SubDelta \<Rightarrow> (string \<times> string \<times> u64) list" where
  "sub_ranks = (\<lambda>(msisdn, sub). let member = rank_append_number [] msisdn in
     [(kVoiceBoard, member, voice_out sub + voice_in sub),
      (kSmsBoard, member, sms_out sub + sms_in sub),
      (kDataBoard, member, data_rx sub + data_tx sub),
      (kFailBoard, member, noans sub + busy sub + failed sub)])"

definition op_ranks :: "u32 \<times> OpDelta \<Rightarrow> (string \<times> string \<times> u64) list" where
  "op_ranks = (\<lambda>(mccmnc, op). let member = rank_append_number [] (ucast mccmnc) in
     [(kOpVoiceBoard, member, op_voice_out op + op_voice_in op),
      (kOpSmsBoard, member, op_sms_out op + op_sms_in op)])"

definition delta_ranks :: "Delta \<Rightarrow> (string \<times> string \<times> u64) list" where
  "delta_ranks d = concat (map sub_ranks (subs d)) @ concat (map op_ranks (ops d))"

definition add_score :: "'st IStore \<Rightarrow> string \<Rightarrow> string \<Rightarrow> u64 \<Rightarrow> 'st \<Rightarrow> bool \<times> 'st" where
  "add_score vt board member v s = (if v = 0 then (True, s) else rank vt board member v s)"

fun write_scores ::
    "'st IStore \<Rightarrow> (string \<times> string \<times> u64) list \<Rightarrow> bool \<Rightarrow> 'st \<Rightarrow> bool \<times> 'st" where
  "write_scores vt [] good s = (good, s)"
| "write_scores vt ((board, member, v) # xs) good s =
     (let (r, s) = add_score vt board member v s in write_scores vt xs (r \<and> good) s)"

definition write_ranks :: "'st IStore \<Rightarrow> Delta \<Rightarrow> 'st \<Rightarrow> bool \<times> 'st" where
  "write_ranks vt d s = write_scores vt (delta_ranks d) True s"

section \<open>The commands\<close>

definition incr_cmds :: "(string \<times> string \<times> u64) list \<Rightarrow> cmd list" where
  "incr_cmds xs = map (\<lambda>(k, f, v). HINCRBY k f v) (filter (\<lambda>(k, f, v). v \<noteq> 0) xs)"

definition rank_cmds :: "(string \<times> string \<times> u64) list \<Rightarrow> cmd list" where
  "rank_cmds xs = map (\<lambda>(b, m, v). ZINCRBY b v m) (filter (\<lambda>(b, m, v). v \<noteq> 0) xs)"

lemma cmds_simps [simp]:
  "incr_cmds [] = []" "rank_cmds [] = []"
  "incr_cmds ((k, f, v) # xs) = (if v = 0 then [] else [HINCRBY k f v]) @ incr_cmds xs"
  "rank_cmds ((k, f, v) # xs) = (if v = 0 then [] else [ZINCRBY k v f]) @ rank_cmds xs"
  "incr_cmds (xs @ ys) = incr_cmds xs @ incr_cmds ys"
  "rank_cmds (xs @ ys) = rank_cmds xs @ rank_cmds ys"
  by (simp_all add: incr_cmds_def rank_cmds_def)

lemma no_mark_cmds [simp]: "no_mark (incr_cmds xs)" "no_mark (rank_cmds xs)"
  by (auto simp: no_mark_def incr_cmds_def rank_cmds_def)

context counter_store
begin

lemma write_adds_ok:
  "ok s \<Longrightarrow> write_adds vt xs good s = (b, s') \<Longrightarrow>
     b = good \<and> ok s' \<and> committed s' = committed s \<and> pending s' = pending s @ incr_cmds xs"
proof (induction xs arbitrary: good s)
  case (Cons x xs)
  obtain k f v where x: "x = (k, f, v)" by (cases x)
  obtain r t where t: "add_counter vt k f v s = (r, t)" by (cases "add_counter vt k f v s")
  have "r \<and> ok t \<and> committed t = committed s
      \<and> pending t = pending s @ (if v = 0 then [] else [HINCRBY k f v])"
    using t Cons.prems(1) increment_ok [of s k f v r t] by (cases "v = 0") (simp_all add: add_counter_def)
  moreover from this have "ok t" "write_adds vt xs good t = (b, s')" using Cons.prems(2) t x by simp_all
  ultimately show ?case using Cons.IH [of t good] x by simp
qed simp

lemma write_scores_ok:
  "ok s \<Longrightarrow> write_scores vt xs good s = (b, s') \<Longrightarrow>
     b = good \<and> ok s' \<and> committed s' = committed s \<and> pending s' = pending s @ rank_cmds xs"
proof (induction xs arbitrary: good s)
  case (Cons x xs)
  obtain k f v where x: "x = (k, f, v)" by (cases x)
  obtain r t where t: "add_score vt k f v s = (r, t)" by (cases "add_score vt k f v s")
  have "r \<and> ok t \<and> committed t = committed s
      \<and> pending t = pending s @ (if v = 0 then [] else [ZINCRBY k v f])"
    using t Cons.prems(1) rank_ok [of s k f v r t] by (cases "v = 0") (simp_all add: add_score_def)
  moreover from this have "ok t" "write_scores vt xs good t = (b, s')" using Cons.prems(2) t x by simp_all
  ultimately show ?case using Cons.IH [of t good] x by simp
qed simp

lemma write_delta_ok:
  assumes "ok s" "write_delta vt d s = (b, s')"
  shows "b \<and> ok s' \<and> committed s' = committed s @ pending s @ incr_cmds (delta_adds d) \<and> pending s' = []"
proof -
  obtain g t where t: "write_adds vt (delta_adds d) True s = (g, t)"
    by (cases "write_adds vt (delta_adds d) True s")
  obtain f u where u: "flush vt t = (f, u)" by (cases "flush vt t")
  from write_adds_ok [OF assms(1) t] flush_ok [OF _ u] assms(2) t u show ?thesis
    by (simp add: write_delta_def)
qed

lemmas write_totals_ok = write_adds_ok [of _ "totals_adds t" True for t, folded write_totals_def]

lemmas write_ranks_ok = write_scores_ok [of _ "delta_ranks d" True for d, folded write_ranks_def]

end

section \<open>What the commands add up to\<close>

lemma hsum_rank_cmds [simp]: "hsum k f (rank_cmds xs) = 0"
  by (induction xs) auto

lemma zsum_incr_cmds [simp]: "zsum b m (incr_cmds xs) = 0"
  by (induction xs) auto

lemma hsum_single [simp]:
  "hsum k f (if v = 0 then [] else [HINCRBY k' f' v]) = (if k' = k \<and> f' = f then unat v else 0)"
  "zsum k f (if v = 0 then [] else [ZINCRBY k' v f']) = (if k' = k \<and> f' = f then unat v else 0)"
  by auto

lemma hsum_other_keys: "(k, f) \<notin> (\<lambda>(k, f, v). (k, f)) ` set xs \<Longrightarrow> hsum k f (incr_cmds xs) = 0"
  by (induction xs) auto

lemma zsum_other_keys: "(k, f) \<notin> (\<lambda>(k, f, v). (k, f)) ` set xs \<Longrightarrow> zsum k f (rank_cmds xs) = 0"
  by (induction xs) auto

text \<open>Over a map, only the entry of the key asked for counts.\<close>

lemma sum_over_map:
  fixes g :: "'k \<times> 'v \<Rightarrow> nat"
  assumes "distinct_keys m" "\<And>k' v. k' \<noteq> k \<Longrightarrow> g (k', v) = 0" "g (k, d) = 0"
  shows "sum_list (map g m) = g (k, at_default d m k)"
  using assms(1)
proof (induction m)
  case (Cons p m)
  obtain j v where p: "p = (j, v)" by (cases p)
  from Cons.prems have m: "distinct_keys m" "j \<notin> fst ` set m" by (auto simp: distinct_keys_def p)
  show ?case
  proof (cases "j = k")
    case True
    then have "at_default d m k = d" using m(2)
      by (auto simp: at_default_def map_of_eq_None_iff [THEN iffD2] split: option.splits dest: map_of_SomeD)
    then show ?thesis using True Cons.IH [OF m(1)] assms(3) by (simp add: p at_default_def)
  next
    case False
    then show ?thesis using Cons.IH [OF m(1)] assms(2) by (simp add: p at_default_def)
  qed
qed (simp add: assms(3) at_default_def)

lemma hsum_concat: "hsum k f (incr_cmds (concat (map e m))) = (\<Sum>x\<leftarrow>m. hsum k f (incr_cmds (e x)))"
  by (induction m) simp_all

lemma zsum_concat: "zsum k f (rank_cmds (concat (map e m))) = (\<Sum>x\<leftarrow>m. zsum k f (rank_cmds (e x)))"
  by (induction m) simp_all


lemma sum_list_zero: "(\<And>x. x \<in> set m \<Longrightarrow> g x = (0::nat)) \<Longrightarrow> (\<Sum>x\<leftarrow>m. g x) = 0"
  by (induction m) auto

text \<open>Different keys have different names.\<close>

lemma key_neqs [simp]:
  "sub_key k \<noteq> op_key j" "op_key j \<noteq> sub_key k" "sub_key k \<noteq> link_key l" "link_key l \<noteq> sub_key k"
  "op_key j \<noteq> link_key l" "link_key l \<noteq> op_key j" "sub_key k \<noteq> kTotalKey" "kTotalKey \<noteq> sub_key k"
  "op_key j \<noteq> kTotalKey" "kTotalKey \<noteq> op_key j" "link_key l \<noteq> kTotalKey" "kTotalKey \<noteq> link_key l"
  by (simp_all add: sub_key_def op_key_def link_key_def name_defs)

lemma key_inj [simp]:
  "sub_key k = sub_key k' \<longleftrightarrow> k = k'" "op_key j = op_key j' \<longleftrightarrow> j = j'"
  "link_key k = link_key k' \<longleftrightarrow> k = k'"
  by (simp_all add: sub_key_def op_key_def link_key_def unsigned_word_eqI) (metis word_unat_eq_iff)

lemma field_inj [simp]:
  "dec64 p @ kFieldDurSuffix = dec64 q @ kFieldDurSuffix \<longleftrightarrow> p = q"
  "dec64 p @ kFieldSmsSuffix = dec64 q @ kFieldSmsSuffix \<longleftrightarrow> p = q"
  "dec64 p @ kFieldCntSuffix = dec64 q @ kFieldCntSuffix \<longleftrightarrow> p = q"
  "dec64 p @ kFieldDurSuffix \<noteq> dec64 q @ kFieldSmsSuffix" "dec64 p @ kFieldSmsSuffix \<noteq> dec64 q @ kFieldDurSuffix"
  "dec64 p @ kFieldDurSuffix \<noteq> dec64 q @ kFieldCntSuffix" "dec64 p @ kFieldCntSuffix \<noteq> dec64 q @ kFieldDurSuffix"
  "dec64 p @ kFieldSmsSuffix \<noteq> dec64 q @ kFieldCntSuffix" "dec64 p @ kFieldCntSuffix \<noteq> dec64 q @ kFieldSmsSuffix"
  by (simp_all add: kFieldDurSuffix_def kFieldSmsSuffix_def kFieldCntSuffix_def)

text \<open>The fields of a hash and the counter each of them keeps.\<close>

definition sub_fields :: "(string \<times> (SubDelta \<Rightarrow> u64)) list" where
  "sub_fields = [(kFieldVoiceOut, voice_out), (kFieldVoiceIn, voice_in), (kFieldDataRx, data_rx),
     (kFieldDataTx, data_tx), (kFieldSmsOut, sms_out), (kFieldSmsIn, sms_in), (kFieldNoans, noans),
     (kFieldBusy, busy), (kFieldFailed, failed)]"

definition op_fields :: "(string \<times> (OpDelta \<Rightarrow> u64)) list" where
  "op_fields = [(kFieldVoiceOut, op_voice_out), (kFieldVoiceIn, op_voice_in),
     (kFieldSmsOut, op_sms_out), (kFieldSmsIn, op_sms_in)]"

definition link_fields :: "(string \<times> (LinkDelta \<Rightarrow> u64)) list" where
  "link_fields = [(kFieldDurSuffix, dur), (kFieldSmsSuffix, sms), (kFieldCntSuffix, cnt)]"

lemma adds_fields:
  "sub_adds (k, x) = map (\<lambda>(f, g). (sub_key k, f, g x)) sub_fields"
  "op_adds (j, y) = map (\<lambda>(f, g). (op_key j, f, g y)) op_fields"
  "link_adds (l, z) = map (\<lambda>(f, g). (link_key (owner l), dec64 (peer l) @ f, g z)) link_fields"
  by (simp_all add: sub_adds_def op_adds_def link_adds_def sub_fields_def op_fields_def
      link_fields_def Let_def)

lemma fields_distinct:
  "distinct (map fst sub_fields)" "distinct (map fst op_fields)" "distinct (map fst link_fields)"
  by (simp_all add: sub_fields_def op_fields_def link_fields_def name_defs)

lemma hsum_fields:
  "distinct (map fst fs) \<Longrightarrow> (f, g) \<in> set fs \<Longrightarrow>
     hsum k (p @ f) (incr_cmds (map (\<lambda>(f, g). (k', p @ f, g v)) fs)) = (if k' = k then unat (g v) else 0)"
proof (induction fs)
  case (Cons x fs)
  obtain f' g' where x: "x = (f', g')" by (cases x)
  show ?case
  proof (cases "f' = f")
    case True
    with Cons.prems x have "g' = g" "(k, p @ f) \<notin> (\<lambda>(k, f, v). (k, f)) ` set (map (\<lambda>(f, g). (k', p @ f, g v)) fs)"
      by (auto simp: rev_image_eqI)
    then show ?thesis using hsum_other_keys x True by simp
  next
    case False
    then show ?thesis using Cons x by auto
  qed
qed simp

lemma sub_entry:
  "(f, g) \<in> set sub_fields \<Longrightarrow>
     hsum (sub_key k) f (incr_cmds (sub_adds (j, v))) = (if j = k then unat (g v) else 0)"
  using hsum_fields [OF fields_distinct(1), where p = "[]"] by (simp add: adds_fields)

lemma op_entry:
  "(f, g) \<in> set op_fields \<Longrightarrow>
     hsum (op_key k) f (incr_cmds (op_adds (j, v))) = (if j = k then unat (g v) else 0)"
  using hsum_fields [OF fields_distinct(2), where p = "[]"] by (simp add: adds_fields)

lemma link_entry:
  assumes "(f, g) \<in> set link_fields"
  shows "hsum (link_key (owner k)) (dec64 (peer k) @ f) (incr_cmds (link_adds (j, v)))
    = (if j = k then unat (g v) else 0)"
proof (cases "peer j = peer k")
  case True
  then show ?thesis using hsum_fields [OF fields_distinct(3) assms, of _ "dec64 (peer k)"]
    by (cases j; cases k) (simp add: adds_fields)
next
  case False
  then have "hsum (link_key (owner k)) (dec64 (peer k) @ f) (incr_cmds (link_adds (j, v))) = 0"
    using assms by (intro hsum_other_keys) (auto simp: adds_fields link_fields_def)
  then show ?thesis using False by auto
qed

lemma hsum_no_key: "list_all (\<lambda>y. fst y \<noteq> k) xs \<Longrightarrow> hsum k f (incr_cmds xs) = 0"
  by (induction xs) auto

lemma entry_keys:
  "list_all (\<lambda>y. fst y = sub_key (fst x)) (sub_adds x)"
  "list_all (\<lambda>y. fst y = op_key (fst z)) (op_adds z)"
  "list_all (\<lambda>y. fst y = link_key (owner (fst e))) (link_adds e)"
  by (simp_all add: sub_adds_def op_adds_def link_adds_def Let_def split: prod.split)

lemma entry_keys_neq:
  "list_all (\<lambda>y. fst y = j) xs \<Longrightarrow> j \<noteq> k \<Longrightarrow> hsum k f (incr_cmds xs) = 0"
  by (rule hsum_no_key) (auto simp: list_all_iff)

lemmas other_entry =
  entry_keys_neq [OF entry_keys(1) key_neqs(1)]
  entry_keys_neq [OF entry_keys(1) key_neqs(3)] entry_keys_neq [OF entry_keys(1) key_neqs(7)]
  entry_keys_neq [OF entry_keys(2) key_neqs(2)] entry_keys_neq [OF entry_keys(2) key_neqs(5)]
  entry_keys_neq [OF entry_keys(2) key_neqs(9)] entry_keys_neq [OF entry_keys(3) key_neqs(4)]
  entry_keys_neq [OF entry_keys(3) key_neqs(6)] entry_keys_neq [OF entry_keys(3) key_neqs(11)]

lemma field_zero:
  "(f, g) \<in> set sub_fields \<Longrightarrow> g 0 = 0" "(f, h) \<in> set op_fields \<Longrightarrow> h 0 = 0"
  "(f, i) \<in> set link_fields \<Longrightarrow> i 0 = 0"
  by (auto simp: sub_fields_def op_fields_def link_fields_def)

lemma delta_hsum:
  assumes "delta_wf d"
  shows "(f, g) \<in> set sub_fields \<Longrightarrow>
      hsum (sub_key k) f (incr_cmds (delta_adds d)) = unat (g (sub_at d k))"
    and "(f, h) \<in> set op_fields \<Longrightarrow>
      hsum (op_key j) f (incr_cmds (delta_adds d)) = unat (h (op_at d j))"
    and "(f, i) \<in> set link_fields \<Longrightarrow>
      hsum (link_key (owner l)) (dec64 (peer l) @ f) (incr_cmds (delta_adds d)) = unat (i (link_at d l))"
proof -
  assume "(f, g) \<in> set sub_fields"
  then show "hsum (sub_key k) f (incr_cmds (delta_adds d)) = unat (g (sub_at d k))"
    using sum_over_map [of "subs d" k "\<lambda>x. hsum (sub_key k) f (incr_cmds (sub_adds x))" 0] assms
    by (simp add: delta_adds_def hsum_concat other_entry delta_wf_def sub_entry field_zero)
next
  assume "(f, h) \<in> set op_fields"
  then show "hsum (op_key j) f (incr_cmds (delta_adds d)) = unat (h (op_at d j))"
    using sum_over_map [of "ops d" j "\<lambda>x. hsum (op_key j) f (incr_cmds (op_adds x))" 0] assms
    by (simp add: delta_adds_def hsum_concat other_entry delta_wf_def op_entry field_zero)
next
  assume "(f, i) \<in> set link_fields"
  then show "hsum (link_key (owner l)) (dec64 (peer l) @ f) (incr_cmds (delta_adds d)) = unat (i (link_at d l))"
    using sum_over_map [of "links d" l
        "\<lambda>x. hsum (link_key (owner l)) (dec64 (peer l) @ f) (incr_cmds (link_adds x))" 0] assms
    by (simp add: delta_adds_def hsum_concat other_entry delta_wf_def link_entry field_zero)
qed

lemma totals_delta_hsum: "hsum kTotalKey f (incr_cmds (delta_adds d)) = 0"
  by (simp add: delta_adds_def hsum_concat other_entry)

lemma totals_keys: "list_all (\<lambda>y. fst y = kTotalKey) (totals_adds t)"
  by (simp add: totals_adds_def totals_fields_names)

lemmas delta_totals_hsum =
  entry_keys_neq [OF totals_keys key_neqs(8)] entry_keys_neq [OF totals_keys key_neqs(10)]
  entry_keys_neq [OF totals_keys key_neqs(12)]

lemma totals_names_distinct: "distinct (map fst (totals_fields t))"
  by (simp add: totals_fields_names)

lemma totals_hsum:
  "(f, v) \<in> set (totals_fields t) \<Longrightarrow> hsum kTotalKey f (incr_cmds (totals_adds t)) = unat v"
proof -
  let ?fs = "map (\<lambda>(f, v). (f, \<lambda>_::unit. v)) (totals_fields t)"
  have eq: "totals_adds t = map (\<lambda>(f, g). (kTotalKey, [] @ f, g ())) ?fs"
    by (auto simp: totals_adds_def)
  have "map fst ?fs = map fst (totals_fields t)" by (simp add: case_prod_beta comp_def)
  then have "distinct (map fst ?fs)" by (simp only: totals_names_distinct)
  moreover assume "(f, v) \<in> set (totals_fields t)"
  then have "(f, \<lambda>_. v) \<in> set ?fs" by force
  ultimately show ?thesis
    using hsum_fields [of ?fs f "\<lambda>_. v" kTotalKey "[]" kTotalKey "()"] by (simp only: eq append_Nil if_True simp_thms)
qed

text \<open>The boards.\<close>

definition sub_boards :: "(string \<times> (SubDelta \<Rightarrow> u64)) list" where
  "sub_boards = [(kVoiceBoard, \<lambda>s. voice_out s + voice_in s), (kSmsBoard, \<lambda>s. sms_out s + sms_in s),
     (kDataBoard, \<lambda>s. data_rx s + data_tx s), (kFailBoard, \<lambda>s. noans s + busy s + failed s)]"

definition op_boards :: "(string \<times> (OpDelta \<Rightarrow> u64)) list" where
  "op_boards = [(kOpVoiceBoard, \<lambda>p. op_voice_out p + op_voice_in p),
     (kOpSmsBoard, \<lambda>p. op_sms_out p + op_sms_in p)]"

lemma unat32_eq [simp]: "unat (a::u32) = unat b \<longleftrightarrow> a = b"
  by (metis word_unat_eq_iff)

lemma ranks_boards:
  "sub_ranks (k, x) = map (\<lambda>(b, g). (b, dec64 k, g x)) sub_boards"
  "op_ranks (j, y) = map (\<lambda>(b, g). (b, dec_of (unat j), g y)) op_boards"
  by (simp_all add: sub_ranks_def op_ranks_def sub_boards_def op_boards_def Let_def)

lemma boards_distinct: "distinct (map fst sub_boards @ map fst op_boards)"
  by (simp add: sub_boards_def op_boards_def name_defs)

lemma zsum_no_board: "b \<notin> fst ` set xs \<Longrightarrow> zsum b m (rank_cmds xs) = 0"
  by (induction xs) auto

lemma zsum_boards:
  "distinct (map fst bs) \<Longrightarrow> (b, g) \<in> set bs \<Longrightarrow>
     zsum b m (rank_cmds (map (\<lambda>(b, g). (b, m', g v)) bs)) = (if m' = m then unat (g v) else 0)"
proof (induction bs)
  case (Cons x bs)
  obtain b' g' where x: "x = (b', g')" by (cases x)
  show ?case
  proof (cases "b' = b")
    case True
    with Cons.prems x have "g' = g" "b \<notin> fst ` set (map (\<lambda>(b, g). (b, m', g v)) bs)"
      by (auto simp: rev_image_eqI)
    then show ?thesis using zsum_no_board x True by simp
  next
    case False
    then show ?thesis using Cons x by auto
  qed
qed simp

lemma board_entry:
  "(f, g) \<in> set sub_boards \<Longrightarrow>
     zsum f (dec64 k) (rank_cmds (sub_ranks (j, v))) = (if j = k then unat (g v) else 0)"
  "(f, h) \<in> set op_boards \<Longrightarrow>
     zsum f (dec_of (unat l)) (rank_cmds (op_ranks (i, w))) = (if i = l then unat (h w) else 0)"
  using boards_distinct by (simp_all add: ranks_boards zsum_boards)

lemma rank_keys:
  "fst ` set (sub_ranks x) = fst ` set sub_boards" "fst ` set (op_ranks y) = fst ` set op_boards"
  by (cases x, simp add: sub_ranks_def sub_boards_def Let_def)
    (cases y, simp add: op_ranks_def op_boards_def Let_def)

lemma other_board:
  assumes "(f, g) \<in> set sub_boards" "(f', h) \<in> set op_boards"
  shows "zsum f m (rank_cmds (op_ranks y)) = 0" "zsum f' m (rank_cmds (sub_ranks x)) = 0"
proof -
  have "fst ` set sub_boards \<inter> fst ` set op_boards = {}" using boards_distinct by simp
  then have "f \<notin> fst ` set op_boards" "f' \<notin> fst ` set sub_boards"
    using assms [THEN imageI, of fst] by auto
  then show "zsum f m (rank_cmds (op_ranks y)) = 0" "zsum f' m (rank_cmds (sub_ranks x)) = 0"
    by (simp_all add: zsum_no_board rank_keys)
qed

lemma boards_ne: "(kOpVoiceBoard, \<lambda>p. op_voice_out p + op_voice_in p) \<in> set op_boards"
  "(kVoiceBoard, \<lambda>s. voice_out s + voice_in s) \<in> set sub_boards"
  by (simp_all add: sub_boards_def op_boards_def)

lemma board_zero: "(f, g) \<in> set sub_boards \<Longrightarrow> g 0 = 0" "(f, h) \<in> set op_boards \<Longrightarrow> h 0 = 0"
  by (auto simp: sub_boards_def op_boards_def)

lemma delta_zsum:
  assumes "delta_wf d"
  shows "(f, g) \<in> set sub_boards \<Longrightarrow>
      zsum f (dec64 k) (rank_cmds (delta_ranks d)) = unat (g (sub_at d k))"
    and "(f, h) \<in> set op_boards \<Longrightarrow>
      zsum f (dec_of (unat l)) (rank_cmds (delta_ranks d)) = unat (h (op_at d l))"
proof -
  assume "(f, g) \<in> set sub_boards"
  with other_board(1) [OF this boards_ne(1)] show "zsum f (dec64 k) (rank_cmds (delta_ranks d)) = unat (g (sub_at d k))"
    using sum_over_map [of "subs d" k "\<lambda>x. zsum f (dec64 k) (rank_cmds (sub_ranks x))" 0] assms
    by (simp add: delta_ranks_def zsum_concat board_entry delta_wf_def board_zero)
next
  assume "(f, h) \<in> set op_boards"
  with other_board(2) [OF boards_ne(2) this] show "zsum f (dec_of (unat l)) (rank_cmds (delta_ranks d)) = unat (h (op_at d l))"
    using sum_over_map [of "ops d" l "\<lambda>x. zsum f (dec_of (unat l)) (rank_cmds (op_ranks x))" 0] assms
    by (simp add: delta_ranks_def zsum_concat board_entry delta_wf_def board_zero)
qed

end
