(* ===== verification/Sink.thy ===== *)
theory Sink
  imports Cdr
begin

text \<open>
  \<open>inc/sink/isink.hpp\<close>: the interface the readers hand their batches to. The virtual functions are
  the fields of a record over the sink's state. \<open>progress_sink\<close> states what a reader relies on: a
  batch that was consumed is in the sink's history, and the resume point of a source is the
  highest sequence of the last batch consumed from it. \<open>crash_sink\<close> adds what a process that dies
  in the middle of \<open>consume\<close> leaves behind: all of the batch or none of it.
\<close>

record 's ISink =
  sk_consume :: "CdrRecord list \<Rightarrow> string \<Rightarrow> 's \<Rightarrow> 's"
  sk_resume_at :: "string \<Rightarrow> 's \<Rightarrow> u64 \<times> 's"

text \<open>The highest sequence of a batch, 0 for an empty one.\<close>

definition highest_of :: "CdrRecord list \<Rightarrow> u64" where
  "highest_of batch = foldl (\<lambda>highest r. max highest (sequence r)) 0 batch"

type_synonym history = "(string \<times> CdrRecord list) list"

definition applied :: "(string \<Rightarrow> u64) \<Rightarrow> string \<Rightarrow> history \<Rightarrow> u64" where
  "applied base source h = foldl (\<lambda>p (src, b).
     if src = source \<and> highest_of b \<noteq> 0 then highest_of b else p) (base source) h"

lemma applied_Nil [simp]: "applied base source [] = base source"
  by (simp add: applied_def)

lemma applied_snoc [simp]:
  "applied base source (h @ [(src, b)]) =
     (if src = source \<and> highest_of b \<noteq> 0 then highest_of b else applied base source h)"
  by (simp add: applied_def)

lemma highest_of_snoc: "highest_of (b @ [r]) = max (highest_of b) (sequence r)"
  by (simp add: highest_of_def)

lemma highest_of_Nil [simp]: "highest_of [] = 0"
  by (simp add: highest_of_def)

lemma highest_of_iff: "highest_of b \<le> x \<longleftrightarrow> (\<forall>r \<in> set b. sequence r \<le> x)"
  by (induction b rule: rev_induct) (auto simp: highest_of_snoc)

lemma highest_of_ge: "r \<in> set b \<Longrightarrow> sequence r \<le> highest_of b"
  using highest_of_iff [of b "highest_of b"] by simp

text \<open>In a batch of rising sequences the highest is the last.\<close>

definition rising :: "CdrRecord list \<Rightarrow> bool" where
  "rising rs \<longleftrightarrow> sorted_wrt (<) (0 # map sequence rs)"

lemma highest_of_rising:
  assumes "sorted_wrt (<) (map sequence b)" "b \<noteq> []"
  shows "highest_of b = sequence (last b)"
proof -
  obtain a r where b: "b = a @ [r]" using assms(2) by (metis append_butlast_last_id)
  have "sequence x \<le> sequence r" if "x \<in> set a" for x
    using assms(1) that by (auto simp: b sorted_wrt_append)
  then have "highest_of a \<le> sequence r" by (simp add: highest_of_iff)
  then show ?thesis by (simp add: b highest_of_snoc)
qed

locale progress_sink =
  fixes sk :: "'s ISink"
    and rel :: "history \<Rightarrow> 's \<Rightarrow> bool"
    and base :: "string \<Rightarrow> u64"
  assumes consume_law: "rel h s \<Longrightarrow> src \<noteq> [] \<Longrightarrow> rel (h @ [(src, b)]) (sk_consume sk b src s)"
    and resume_law: "rel h s \<Longrightarrow> sk_resume_at sk src s = (p, s') \<Longrightarrow> rel h s' \<and> p = applied base src h"

text \<open>\<open>torn n b src\<close> is a \<open>consume\<close> that dies after \<open>n\<close> of its calls; \<open>boot\<close> is the next start.\<close>

locale crash_sink = progress_sink +
  fixes torn :: "nat \<Rightarrow> CdrRecord list \<Rightarrow> string \<Rightarrow> 'a \<Rightarrow> 'a"
    and boot :: "'a \<Rightarrow> 'a"
  assumes boot_law: "rel h s \<Longrightarrow> rel h (boot s)"
    and cut_law: "rel h s \<Longrightarrow> src \<noteq> [] \<Longrightarrow>
      rel h (boot (torn n b src s)) \<or> rel (h @ [(src, b)]) (boot (torn n b src s))"

end
