(* ===== verification/AggregateSink.thy ===== *)
theory AggregateSink
  imports Writers RedisStore Sink
begin

text \<open>
  \<open>src/sink/aggregate_sink.cpp\<close>: what one batch does to the store and to the run's counters.
  The store is the argument \<open>vt\<close>. Over a store that keeps the contract of \<open>IStore\<close> the batch
  lands as one unit, and each stored counter moves by what the records of the batch carry.
\<close>

section \<open>The operations\<close>

text \<open>The constructor refuses a null store with an exception.\<close>

definition make_sink :: "'st IStore option \<Rightarrow> string + 'st IStore" where
  "make_sink store = (case store of
     None \<Rightarrow> Inl ''AggregateSink: store must not be null'' | Some vt \<Rightarrow> Inr vt)"

text \<open>\<open>consume\<close>; the results of the writes are dropped, as in the code.\<close>

definition consume ::
    "'st IStore \<Rightarrow> CdrRecord list \<Rightarrow> string \<Rightarrow> RunTotals \<times> 'st \<Rightarrow> RunTotals \<times> 'st" where
  "consume vt batch source = (\<lambda>(run, s).
     let delta = fold_batch batch;
         batchTotals = totals_add_batch batch zero_totals;
         run = merge batchTotals run;
         highest = highest_of batch;
         s = snd (write_totals vt batchTotals s);
         s = (if source \<noteq> [] \<and> highest \<noteq> 0 then snd (mark vt source highest s) else s);
         s = snd (write_ranks vt delta s);
         s = snd (write_delta vt delta s)
     in (run, s))"

definition sink_resume_at :: "'st IStore \<Rightarrow> string \<Rightarrow> RunTotals \<times> 'st \<Rightarrow> u64 \<times> RunTotals \<times> 'st" where
  "sink_resume_at vt source = (\<lambda>(run, s). let (p, s) = resume_at vt source s in (p, run, s))"

definition sink_snapshot :: "RunTotals \<times> 'st \<Rightarrow> Totals" where
  "sink_snapshot x = snapshot (fst x)"

section \<open>What a batch writes\<close>

text \<open>The commands of one batch, in the order they are issued.\<close>

definition mark_cmds :: "string \<Rightarrow> CdrRecord list \<Rightarrow> cmd list" where
  "mark_cmds source batch =
     (if source \<noteq> [] \<and> highest_of batch \<noteq> 0 then [HSET kProgressKey source (highest_of batch)] else [])"

definition consume_cmds :: "string \<Rightarrow> CdrRecord list \<Rightarrow> cmd list" where
  "consume_cmds source batch =
     incr_cmds (totals_adds (totals_add_batch batch zero_totals)) @ mark_cmds source batch
     @ rank_cmds (delta_ranks (fold_batch batch)) @ incr_cmds (delta_adds (fold_batch batch))"

context counter_store
begin

lemma consume_ok:
  assumes "ok s" "consume vt batch source (run, s) = (run', s')"
  shows "ok s' \<and> committed s' = committed s @ pending s @ consume_cmds source batch \<and> pending s' = []
    \<and> run' = merge (totals_add_batch batch zero_totals) run"
proof -
  let ?t = "totals_add_batch batch zero_totals" and ?d = "fold_batch batch"
  obtain b1 s1 where 1: "write_totals vt ?t s = (b1, s1)" by (cases "write_totals vt ?t s")
  note w1 = write_totals_ok [OF assms(1) 1]
  define s2 where "s2 = (if source \<noteq> [] \<and> highest_of batch \<noteq> 0
      then snd (mark vt source (highest_of batch) s1) else s1)"
  obtain b m where m: "mark vt source (highest_of batch) s1 = (b, m)"
    by (cases "mark vt source (highest_of batch) s1")
  have w2: "ok s2 \<and> committed s2 = committed s1 \<and> pending s2 = pending s1 @ mark_cmds source batch"
    using mark_ok [OF _ m] w1 m by (simp add: s2_def mark_cmds_def)
  obtain b3 s3 where 3: "write_ranks vt ?d s2 = (b3, s3)" by (cases "write_ranks vt ?d s2")
  note w3 = write_ranks_ok [OF _ 3]
  obtain b4 s4 where 4: "write_delta vt ?d s3 = (b4, s4)" by (cases "write_delta vt ?d s3")
  note w4 = write_delta_ok [OF _ 4]
  have "consume vt batch source (run, s)
      = (merge ?t run, snd (write_delta vt ?d (snd (write_ranks vt ?d s2))))"
    by (simp add: consume_def Let_def s2_def 1)
  then have "run' = merge ?t run" "s' = s4" using assms(2) 3 4 by simp_all
  then show ?thesis using w1 w2 w3 w4 by (simp add: consume_cmds_def)
qed

lemma sink_resume_ok:
  "ok s \<Longrightarrow> sink_resume_at vt source (run, s) = (p, run', s') \<Longrightarrow>
     ok s' \<and> committed s' = committed s @ pending s \<and> pending s' = []
     \<and> p = progress source (committed s @ pending s) \<and> run' = run"
  using resume_ok [of s source p s'] by (auto simp: sink_resume_at_def split: prod.splits)

end

section \<open>What the commands add up to\<close>

lemma hsum_mark [simp]: "hsum k f (mark_cmds source batch) = 0" "zsum k f (mark_cmds source batch) = 0"
  by (simp_all add: mark_cmds_def)

lemma consume_hsum:
  "(f, g) \<in> set sub_fields \<Longrightarrow>
     hsum (sub_key k) f (consume_cmds src batch) = unat (g (sub_at (fold_batch batch) k))"
  "(f, h) \<in> set op_fields \<Longrightarrow>
     hsum (op_key j) f (consume_cmds src batch) = unat (h (op_at (fold_batch batch) j))"
  "(f, i) \<in> set link_fields \<Longrightarrow>
     hsum (link_key (owner l)) (dec64 (peer l) @ f) (consume_cmds src batch)
       = unat (i (link_at (fold_batch batch) l))"
  "(f, v) \<in> set (totals_fields (totals_add_batch batch zero_totals)) \<Longrightarrow>
     hsum kTotalKey f (consume_cmds src batch) = unat v"
  "(f, g) \<in> set sub_boards \<Longrightarrow>
     zsum f (dec64 k) (consume_cmds src batch) = unat (g (sub_at (fold_batch batch) k))"
  "(f, h) \<in> set op_boards \<Longrightarrow>
     zsum f (dec_of (unat j)) (consume_cmds src batch) = unat (h (op_at (fold_batch batch) j))"
  by (simp_all add: consume_cmds_def delta_hsum delta_zsum totals_hsum totals_delta_hsum
      delta_totals_hsum fold_batch_wf)

lemma progress_consume:
  "source \<noteq> [] \<Longrightarrow>
     progress source (cs @ consume_cmds source b)
       = (if highest_of b = 0 then progress source cs else highest_of b)"
  "source' \<noteq> source \<Longrightarrow> progress source' (cs @ consume_cmds source b) = progress source' cs"
proof -
  let ?a = "cs @ incr_cmds (totals_adds (totals_add_batch b zero_totals))"
  have a: "progress x (cs @ consume_cmds source b) = progress x (?a @ mark_cmds source b)" for x
    using progress_no_mark [of "rank_cmds (delta_ranks (fold_batch b)) @ incr_cmds (delta_adds (fold_batch b))"
        x "?a @ mark_cmds source b"]
    by (simp add: consume_cmds_def)
  have p: "progress x ?a = progress x cs" for x by (rule progress_no_mark) simp
  have b: "progress x (?a @ mark_cmds source b) =
      (if source \<noteq> [] \<and> highest_of b \<noteq> 0 \<and> source = x then highest_of b else progress x cs)" for x
    using progress_snoc [of x ?a "HSET kProgressKey source (highest_of b)"] p [of x]
    by (cases "source = x") (auto simp: mark_cmds_def)
  show "source \<noteq> [] \<Longrightarrow> progress source (cs @ consume_cmds source b)
      = (if highest_of b = 0 then progress source cs else highest_of b)"
    unfolding a b by simp
  show "source' \<noteq> source \<Longrightarrow> progress source' (cs @ consume_cmds source b) = progress source' cs"
    unfolding a b by simp
qed


section \<open>The sink over a working store\<close>

definition aggregate_sink :: "'st IStore \<Rightarrow> (RunTotals \<times> 'st) ISink" where
  "aggregate_sink vt = \<lparr>sk_consume = consume vt, sk_resume_at = sink_resume_at vt\<rparr>"

text \<open>The store calls of one \<open>consume\<close>, one after the other.\<close>

definition incr_calls :: "(string \<times> string \<times> u64) list \<Rightarrow> store_op list" where
  "incr_calls xs = map (\<lambda>(k, f, v). OpIncrement k f v) (filter (\<lambda>(k, f, v). v \<noteq> 0) xs)"

definition rank_calls :: "(string \<times> string \<times> u64) list \<Rightarrow> store_op list" where
  "rank_calls xs = map (\<lambda>(b, m, v). OpRank b m v) (filter (\<lambda>(b, m, v). v \<noteq> 0) xs)"

definition mark_calls :: "string \<Rightarrow> CdrRecord list \<Rightarrow> store_op list" where
  "mark_calls source batch =
     (if source \<noteq> [] \<and> highest_of batch \<noteq> 0 then [OpMark source (highest_of batch)] else [])"

definition consume_writes :: "string \<Rightarrow> CdrRecord list \<Rightarrow> store_op list" where
  "consume_writes source batch =
     incr_calls (totals_adds (totals_add_batch batch zero_totals)) @ mark_calls source batch
     @ rank_calls (delta_ranks (fold_batch batch)) @ incr_calls (delta_adds (fold_batch batch))"

definition consume_calls :: "string \<Rightarrow> CdrRecord list \<Rightarrow> store_op list" where
  "consume_calls source batch = consume_writes source batch @ [OpFlush]"

lemma write_adds_calls: "snd (write_adds vt xs good s) = run_calls vt (incr_calls xs) s"
  by (induction vt xs good s rule: write_adds.induct)
    (auto simp: incr_calls_def add_counter_def split: prod.split)

lemma write_scores_calls: "snd (write_scores vt xs good s) = run_calls vt (rank_calls xs) s"
  by (induction vt xs good s rule: write_scores.induct)
    (auto simp: rank_calls_def add_score_def split: prod.split)

text \<open>\<open>consume\<close> is exactly these calls.\<close>

lemma consume_is_calls: "snd (consume vt batch source (run, s)) = run_calls vt (consume_calls source batch) s"
proof -
  have "snd (write_delta vt d t) = run_call vt OpFlush (run_calls vt (incr_calls (delta_adds d)) t)" for d t
    using write_adds_calls [of vt "delta_adds d" True t]
    by (auto simp: write_delta_def split: prod.split)
  then show ?thesis
    by (simp add: consume_def Let_def consume_calls_def consume_writes_def mark_calls_def write_totals_def
        write_ranks_def write_adds_calls write_scores_calls)
qed

lemma write_of_calls:
  "list_all is_write_call (incr_calls xs)" "map (the \<circ> write_of) (incr_calls xs) = incr_cmds xs"
  "list_all is_write_call (rank_calls xs)" "map (the \<circ> write_of) (rank_calls xs) = rank_cmds xs"
  "list_all is_write_call (mark_calls src b)" "map (the \<circ> write_of) (mark_calls src b) = mark_cmds src b"
  by (auto simp: incr_calls_def rank_calls_def mark_calls_def mark_cmds_def incr_cmds_def rank_cmds_def
      list_all_iff is_write_call_def)

lemma consume_writes_ok:
  "list_all is_write_call (consume_writes src b)"
  "map (the \<circ> write_of) (consume_writes src b) = consume_cmds src b"
  by (simp_all add: consume_writes_def consume_cmds_def write_of_calls)

text \<open>A store that only writes down the calls it gets, whatever it answers to them.\<close>

definition recorder :: "(store_op list \<Rightarrow> bool) \<Rightarrow> store_op list IStore" where
  "recorder ans = \<lparr>increment = (\<lambda>k f v t. (ans t, t @ [OpIncrement k f v])), rank = (\<lambda>b m v t. (ans t, t @ [OpRank b m v])),
     flush = (\<lambda>t. (ans t, t @ [OpFlush])), resume_at = (\<lambda>src t. (0, t @ [OpResume src])),
     mark = (\<lambda>src q t. (ans t, t @ [OpMark src q]))\<rparr>"

lemma recorder_run [simp]: "run_calls (recorder ans) cs t = t @ cs"
proof (induction cs arbitrary: t)
  case (Cons c cs)
  then show ?case by (cases c) (simp_all add: recorder_def)
qed simp

text \<open>A process that dies in \<open>consume\<close>, and the next one: its run counters start again at 0.\<close>

definition agg_cut ::
    "'st IStore \<Rightarrow> nat \<Rightarrow> CdrRecord list \<Rightarrow> string \<Rightarrow> RunTotals \<times> 'st \<Rightarrow> RunTotals \<times> 'st" where
  "agg_cut vt n batch source = (\<lambda>(run, s).
     (merge (totals_add_batch batch zero_totals) run, run_calls vt (take n (consume_calls source batch)) s))"

definition agg_boot :: "('st \<Rightarrow> 'st) \<Rightarrow> RunTotals \<times> 'st \<Rightarrow> RunTotals \<times> 'st" where
  "agg_boot restart = (\<lambda>(run, s). (zero_run, restart s))"

definition history_cmds :: "history \<Rightarrow> cmd list" where
  "history_cmds h = concat (map (\<lambda>(src, b). consume_cmds src b) h)"

definition agg_rel :: "('st \<Rightarrow> bool) \<Rightarrow> ('st \<Rightarrow> cmd list) \<Rightarrow> ('st \<Rightarrow> cmd list) \<Rightarrow> cmd list
    \<Rightarrow> history \<Rightarrow> RunTotals \<times> 'st \<Rightarrow> bool" where
  "agg_rel good committed pending c0 h = (\<lambda>(run, s).
     good s \<and> pending s = [] \<and> committed s = c0 @ history_cmds h \<and> list_all (\<lambda>(src, b). src \<noteq> []) h)"

lemma history_cmds_simps [simp]:
  "history_cmds [] = []" "history_cmds (h @ [(src, b)]) = history_cmds h @ consume_cmds src b"
  by (simp_all add: history_cmds_def)

lemma consume_cmds_progress:
  "progress x (cs @ consume_cmds src b) =
     (if src \<noteq> [] \<and> src = x \<and> highest_of b \<noteq> 0 then highest_of b else progress x cs)"
proof (cases "src = x")
  case True
  show ?thesis
  proof (cases "src = []")
    case False
    then show ?thesis using True progress_consume(1) [of src cs b] by simp
  next
    case empty: True
    have "no_mark (consume_cmds src b)" by (simp add: consume_cmds_def mark_cmds_def empty)
    then show ?thesis using empty by (simp add: progress_no_mark)
  qed
next
  case False
  then show ?thesis using progress_consume(2) [of x src cs b] by simp
qed

lemma history_progress:
  "list_all (\<lambda>(src, b). src \<noteq> []) h \<Longrightarrow>
     progress x (c0 @ history_cmds h) = applied (\<lambda>src. progress src c0) x h"
proof (induction h rule: rev_induct)
  case (snoc e h)
  obtain src b where e: "e = (src, b)" by (cases e)
  have "progress x (c0 @ history_cmds h) = applied (\<lambda>src. progress src c0) x h" "src \<noteq> []"
    using snoc e by simp_all
  then show ?case using consume_cmds_progress [of x "c0 @ history_cmds h" src b] by (simp add: e)
qed simp

context crash_store
begin

lemma agg_consume:
  assumes "agg_rel ok committed pending c0 h x" "src \<noteq> []"
  shows "agg_rel ok committed pending c0 (h @ [(src, b)]) (sk_consume (aggregate_sink vt) b src x)"
proof -
  obtain run s where x: "x = (run, s)" by (cases x)
  obtain run' s' where c: "consume vt b src (run, s) = (run', s')" by (cases "consume vt b src (run, s)")
  from consume_ok [OF _ c] assms x show ?thesis
    by (simp add: agg_rel_def aggregate_sink_def c)
qed

lemma agg_resume:
  assumes "agg_rel ok committed pending c0 h x" "sk_resume_at (aggregate_sink vt) src x = (p, x')"
  shows "agg_rel ok committed pending c0 h x' \<and> p = applied (\<lambda>src. progress src c0) src h"
proof -
  obtain run s where x: "x = (run, s)" by (cases x)
  obtain run' s' where x': "x' = (run', s')" by (cases x')
  have "sink_resume_at vt src (run, s) = (p, run', s')"
    using assms(2) by (simp add: aggregate_sink_def x x')
  from sink_resume_ok [OF _ this] assms(1) history_progress [of h src c0] show ?thesis
    by (simp add: agg_rel_def x x')
qed

lemma agg_boot_rel: "agg_rel ok committed pending c0 h x \<Longrightarrow> agg_rel ok committed pending c0 h (agg_boot restart x)"
  using restart_ok by (auto simp: agg_rel_def agg_boot_def split: prod.splits)

lemma agg_cut_rel:
  assumes "agg_rel ok committed pending c0 h x" "src \<noteq> []"
  shows "agg_rel ok committed pending c0 h (agg_boot restart (agg_cut vt n b src x))
    \<or> agg_rel ok committed pending c0 (h @ [(src, b)]) (agg_boot restart (agg_cut vt n b src x))"
proof -
  obtain run s where x: "x = (run, s)" by (cases x)
  let ?ws = "consume_writes src b"
  show ?thesis
  proof (cases "n \<le> length ?ws")
    case True
    then have t: "take n (consume_calls src b) = take n ?ws" by (simp add: consume_calls_def)
    have "list_all is_write_call (take n ?ws)"
      using consume_writes_ok(1) [of src b] by (auto simp: list_all_iff dest: in_set_takeD)
    from run_writes [OF _ this, of s] assms x restart_ok
    show ?thesis by (simp add: agg_rel_def agg_cut_def agg_boot_def t)
  next
    case False
    then have "take n (consume_calls src b) = consume_calls src b" by (simp add: consume_calls_def)
    then have "agg_boot restart (agg_cut vt n b src x) = agg_boot restart (consume vt b src x)"
      by (cases "consume vt b src (run, s)")
        (use consume_is_calls [of vt b src run s] in \<open>simp add: agg_boot_def agg_cut_def x\<close>)
    then show ?thesis using agg_consume [OF assms, of b] agg_boot_rel
      by (simp add: aggregate_sink_def)
  qed
qed

end

sublocale crash_store \<subseteq> sink: crash_sink "aggregate_sink vt" "agg_rel ok committed pending c0"
    "\<lambda>src. progress src c0" "agg_cut vt" "agg_boot restart" for c0
  apply unfold_locales
     apply (erule (1) agg_consume)
    apply (erule (1) agg_resume)
   apply (erule agg_boot_rel)
  apply (erule (1) agg_cut_rel)
  done

context crash_store
begin

lemma aggregate_contract:
  "crash_sink (aggregate_sink vt) (agg_rel ok committed pending c0) (\<lambda>src. progress src c0)
     (agg_cut vt) (agg_boot restart)"
  by unfold_locales

end

section \<open>Properties\<close>

text \<open>
  C16: Over a store that keeps its contract a batch lands as one unit: when \<open>consume\<close> returns,
  everything it wrote is complete, in the order totals, progress mark, boards, counters; nothing is left
  pending, and the run's counters grew by the batch's totals. It makes one flush, after the last of its
  writes: the calls it makes of any store, whatever that answers, are these writes and then one flush.
\<close>

theorem consume_lands_whole:
  assumes "counter_store vt good committed pending" "good s" "pending s = []"
  shows "(let (run', s') = consume vt batch source (run, s) in
      committed s' = committed s @ consume_cmds source batch \<and> pending s' = [] \<and> good s'
      \<and> snapshot run' = snapshot (merge (totals_add_batch batch zero_totals) run))
    \<and> (\<exists>ws. list_all is_write_call ws \<and> map (the \<circ> write_of) ws = consume_cmds source batch
      \<and> (\<forall>ans. snd (consume (recorder ans) batch source (run, [])) = ws @ [OpFlush]))"
proof
  show "let (run', s') = consume vt batch source (run, s) in
      committed s' = committed s @ consume_cmds source batch \<and> pending s' = [] \<and> good s'
      \<and> snapshot run' = snapshot (merge (totals_add_batch batch zero_totals) run)"
    using counter_store.consume_ok [OF assms(1,2), of batch source run] assms(3)
    by (cases "consume vt batch source (run, s)") simp
  show "\<exists>ws. list_all is_write_call ws \<and> map (the \<circ> write_of) ws = consume_cmds source batch
      \<and> (\<forall>ans. snd (consume (recorder ans) batch source (run, [])) = ws @ [OpFlush])"
    using consume_writes_ok [of source batch]
    by (intro exI [of _ "consume_writes source batch"]) (simp add: consume_is_calls consume_calls_def del: run_calls_simps(3))
qed

definition call_record :: "u64 \<Rightarrow> CdrRecord" where
  "call_record n = \<lparr>sequence = n, subscriberImsi = 425020000000001, subscriberImei = [],
     usageType = MOC, subscriberMSISDN = 7, callTime = 0, duration = 60, bytesReceived = 0,
     bytesTransmitted = 0, secondPartyIMSI = 0, secondPartyMSISDN = 9\<rparr>"

theorem consume_lands_whole_witness:
  "(let (run', s') = consume (redis_vt perfect_env) [call_record 5] ''f'' (zero_run, new_thread [] ()) in
      rs_committed s' = [] @ consume_cmds ''f'' [call_record 5] \<and> rs_pending s' = [] \<and> rs_ok s'
      \<and> snapshot run' = snapshot (merge (totals_add_batch [call_record 5] zero_totals) zero_run))
    \<and> (\<exists>ws. list_all is_write_call ws \<and> map (the \<circ> write_of) ws = consume_cmds ''f'' [call_record 5]
      \<and> (\<forall>ans. snd (consume (recorder ans) [call_record 5] ''f'' (zero_run, [])) = ws @ [OpFlush]))"
  using consume_lands_whole [OF live.counter_store_axioms, of "new_thread [] ()" "[call_record 5]" "''f''" zero_run]
  by (simp add: rs_ok_def new_thread_inv committed_logs_def)

text \<open>
  C28: What \<open>consume\<close> adds to a store that keeps its contract: each field of each subscriber's,
  operator's and link's hash grows by the counter the fold computed for it, each field of the totals hash by
  the batch's total, and each member of a board by the sum the board ranks it by; the progress of
  the source is the highest sequence of the batch, where it names a source and has one, and that of
  any other source stays.
\<close>

theorem consume_stored_counters:
  assumes "counter_store vt good committed pending" "good s" "pending s = []"
  shows "let d = fold_batch batch; before = committed s; after = committed (snd (consume vt batch source (run, s))) in
    list_all (\<lambda>(f, g). hsum (sub_key k) f after = hsum (sub_key k) f before + unat (g (sub_at d k))) sub_fields
    \<and> list_all (\<lambda>(f, g). hsum (op_key j) f after = hsum (op_key j) f before + unat (g (op_at d j))) op_fields
    \<and> list_all (\<lambda>(f, g). hsum (link_key (owner l)) (dec64 (peer l) @ f) after
          = hsum (link_key (owner l)) (dec64 (peer l) @ f) before + unat (g (link_at d l))) link_fields
    \<and> list_all (\<lambda>(f, v). hsum kTotalKey f after = hsum kTotalKey f before + unat v)
        (totals_fields (totals_add_batch batch zero_totals))
    \<and> list_all (\<lambda>(f, g). zsum f (dec64 k) after = zsum f (dec64 k) before + unat (g (sub_at d k))) sub_boards
    \<and> list_all (\<lambda>(f, g). zsum f (dec_of (unat j)) after = zsum f (dec_of (unat j)) before + unat (g (op_at d j))) op_boards
    \<and> progress src after = (if source \<noteq> [] \<and> source = src \<and> highest_of batch \<noteq> 0 then highest_of batch
          else progress src before)"
proof -
  have "committed (snd (consume vt batch source (run, s))) = committed s @ consume_cmds source batch"
    using counter_store.consume_ok [OF assms(1,2), of batch source run] assms(3)
    by (cases "consume vt batch source (run, s)") simp
  then show ?thesis unfolding Let_def list_all_iff by (auto simp: consume_hsum consume_cmds_progress)
qed

theorem consume_stored_counters_witness:
  "hsum (sub_key 7) kFieldVoiceOut (rs_committed (snd (consume (redis_vt perfect_env) [call_record 5] ''f'' (zero_run, new_thread [] ()))))
      = unat (voice_out (sub_at (fold_batch [call_record 5]) 7))
    \<and> progress ''f'' (rs_committed (snd (consume (redis_vt perfect_env) [call_record 5] ''f'' (zero_run, new_thread [] ())))) = 5"
  using consume_stored_counters [OF live.counter_store_axioms, of "new_thread [] ()" "[call_record 5]" "''f''" zero_run 7
      0 "\<lparr>owner = 7, peer = 9\<rparr>" "''f''"]
  by (simp add: Let_def rs_ok_def new_thread_inv committed_logs_def sub_fields_def highest_of_def call_record_def)

text \<open>
  A hash map is walked in an order the language leaves open. Two deltas with the same entries
  in different orders write commands that add the same amount to every field of every hash and to
  every member of every board.
\<close>

theorem writers_order_independent:
  assumes "mset (subs d) = mset (subs d')" "mset (ops d) = mset (ops d')"
    "mset (links d) = mset (links d')"
  shows "hsum key field (incr_cmds (delta_adds d)) = hsum key field (incr_cmds (delta_adds d'))
    \<and> zsum board member (rank_cmds (delta_ranks d)) = zsum board member (rank_cmds (delta_ranks d'))"
  unfolding delta_adds_def delta_ranks_def
  by (simp add: hsum_concat zsum_concat sum_mset_sum_list [symmetric] assms mset_map [symmetric] del: mset_map)
    (simp add: assms)

theorem writers_order_independent_witness:
  "hsum ''sub:7'' ''voice_out'' (incr_cmds (delta_adds \<lparr>subs = [(7, 0\<lparr>voice_out := 5\<rparr>), (9, 0)], ops = [], links = []\<rparr>))
     = hsum ''sub:7'' ''voice_out'' (incr_cmds (delta_adds \<lparr>subs = [(9, 0), (7, 0\<lparr>voice_out := 5\<rparr>)], ops = [], links = []\<rparr>))
   \<and> zsum ''top:voice'' ''7'' (rank_cmds (delta_ranks \<lparr>subs = [(7, 0\<lparr>voice_out := 5\<rparr>), (9, 0)], ops = [], links = []\<rparr>))
     = zsum ''top:voice'' ''7'' (rank_cmds (delta_ranks \<lparr>subs = [(9, 0), (7, 0\<lparr>voice_out := 5\<rparr>)], ops = [], links = []\<rparr>))"
  by (rule writers_order_independent) simp_all

text \<open>
  The flaky environment of \<open>RedisStore\<close> from the moment it has recovered: a thread with an open
  batch behind one lost connection.
\<close>

definition recovered :: "cmd list \<Rightarrow> cmd list \<Rightarrow> nat \<Rightarrow> nat RS" where
  "recovered lost l n = \<lparr>ctx = Some \<lparr>err = False, sent = l, taken = 0\<rparr>, next_try = 0, delay_ms = 0,
     logged_down = False, queued = length l, open_batch = True, dead = [lost], world = n\<rparr>"

lemmas redis_op_defs = redis_increment_def redis_rank_def redis_mark_def redis_flush_def
  queue_cmd_def batch_ctx_def conn_get_def append_cmd_def drain_def broken_def conn_drop_def
  get_reply_def all_logs_def replies_taken_def

lemma recovered_queue:
  "2 < n \<Longrightarrow> queue_cmd flaky_env c (recovered lost l n) = (True, recovered lost (l @ [c]) (Suc n))"
  by (simp add: recovered_def flaky_env_def redis_op_defs)

lemma recovered_write:
  assumes "2 < n" "Suc (length l) < kRedisPipelineDepth"
  shows "redis_increment flaky_env k f v (recovered lost l n)
      = (True, recovered lost (l @ [HINCRBY k f v]) (Suc n))"
    and "redis_rank flaky_env k f v (recovered lost l n)
      = (True, recovered lost (l @ [ZINCRBY k v f]) (Suc n))"
    and "redis_mark flaky_env f v (recovered lost l n)
      = (True, recovered lost (l @ [HSET kProgressKey f v]) (Suc n))"
proof -
  have "queued (recovered lost (l @ [c]) m) = Suc (length l)" for c m
    by (simp add: recovered_def)
  with assms show "redis_increment flaky_env k f v (recovered lost l n)
      = (True, recovered lost (l @ [HINCRBY k f v]) (Suc n))"
    and "redis_rank flaky_env k f v (recovered lost l n)
      = (True, recovered lost (l @ [ZINCRBY k v f]) (Suc n))"
    and "redis_mark flaky_env f v (recovered lost l n)
      = (True, recovered lost (l @ [HSET kProgressKey f v]) (Suc n))"
    by (simp_all add: redis_increment_def redis_rank_def redis_mark_def recovered_queue)
qed

lemma recovered_adds:
  "2 < n \<Longrightarrow> length l + length xs < kRedisPipelineDepth \<Longrightarrow>
     \<exists>m > 2. write_adds (redis_vt flaky_env) xs good (recovered lost l n)
       = (good, recovered lost (l @ incr_cmds xs) m)"
proof (induction xs arbitrary: l n good)
  case (Cons x xs)
  obtain k f v where x: "x = (k, f, v)" by (cases x)
  show ?case
  proof (cases "v = 0")
    case True
    then show ?thesis using Cons.IH [of n l] Cons.prems by (simp add: x add_counter_def)
  next
    case False
    then show ?thesis using Cons.IH [of "Suc n" "l @ [HINCRBY k f v]"] Cons.prems
      by (simp add: x add_counter_def redis_vt_def recovered_write)
  qed
qed auto

lemma recovered_scores:
  "2 < n \<Longrightarrow> length l + length xs < kRedisPipelineDepth \<Longrightarrow>
     \<exists>m > 2. write_scores (redis_vt flaky_env) xs good (recovered lost l n)
       = (good, recovered lost (l @ rank_cmds xs) m)"
proof (induction xs arbitrary: l n good)
  case (Cons x xs)
  obtain k f v where x: "x = (k, f, v)" by (cases x)
  show ?case
  proof (cases "v = 0")
    case True
    then show ?thesis using Cons.IH [of n l] Cons.prems by (simp add: x add_score_def)
  next
    case False
    then show ?thesis using Cons.IH [of "Suc n" "l @ [ZINCRBY k v f]"] Cons.prems
      by (simp add: x add_score_def redis_vt_def recovered_write)
  qed
qed auto

lemma drain_loop_logs: "drain_loop E n good s = (g, s') \<Longrightarrow> ctx s \<noteq> None \<Longrightarrow> all_logs s' = all_logs s"
proof (induction n arbitrary: good s)
  case (Suc n)
  obtain r t where r: "get_reply E s = (r, t)" by (cases "get_reply E s")
  have t: "all_logs t = all_logs s \<and> ctx t \<noteq> None"
    using r Suc.prems(2)
    by (auto simp: get_reply_def all_logs_def Let_def split: prod.splits option.splits)
  show ?case
  proof (cases r)
    case None
    then show ?thesis using Suc.prems(1) r t by (auto simp: all_logs_def)
  next
    case (Some a)
    then obtain h where "drain_loop E n h t = (g, s')"
      using Suc.prems(1) r by (cases a) auto
    from Suc.IH [OF this] t show ?thesis by simp
  qed
qed simp

lemma recovered_flush:
  assumes "2 < n"
  shows "rs_committed (snd (redis_flush flaky_env (recovered lost l n)))
    = committed_of lost @ committed_of (l @ [EXEC])"
proof -
  let ?s = "(recovered lost (l @ [EXEC]) (Suc n))\<lparr>open_batch := False\<rparr>"
  have "redis_flush flaky_env (recovered lost l n) = drain flaky_env ?s"
    using assms by (simp add: recovered_def flaky_env_def redis_flush_def broken_def append_cmd_def)
  moreover have "drain flaky_env ?s =
      (let (good, s) = drain_loop flaky_env (Suc (length l)) True ?s in (good, s\<lparr>queued := 0\<rparr>))"
    by (simp add: drain_def broken_def recovered_def del: drain_loop.simps)
  moreover obtain g t where t: "drain_loop flaky_env (Suc (length l)) True ?s = (g, t)"
    by (cases "drain_loop flaky_env (Suc (length l)) True ?s")
  moreover have "all_logs t = [lost, l @ [EXEC]]"
    using drain_loop_logs [OF t] by (simp add: recovered_def all_logs_def)
  ultimately show ?thesis by (simp add: rs_committed_def committed_logs_def)
qed

lemma length_rank_cmds: "length (rank_cmds xs) \<le> length xs"
  by (simp add: rank_cmds_def)

lemma cmds_write: "list_all is_write (rank_cmds xs)" "list_all is_write (incr_cmds xs)"
  by (auto simp: rank_cmds_def incr_cmds_def list_all_iff)

lemma committed_writes: "list_all is_write ws \<Longrightarrow> committed_of (MULTI # ws @ [EXEC]) = ws"
proof -
  have "list_all is_write ws \<Longrightarrow> srv (MULTI # ws) = ([], Some ws)"
  proof (induction ws rule: rev_induct)
    case (snoc c ws)
    then show ?case using srv_snoc [of "MULTI # ws" c] by (cases c) simp_all
  qed (simp add: srv_def)
  moreover assume "list_all is_write ws"
  ultimately show ?thesis using srv_snoc [of "MULTI # ws" EXEC] by (simp add: committed_of_def)
qed

text \<open>
  C38: A connection that breaks while a batch is written does not drop the batch as a whole. Here
  the third command cannot be appended; the store reconnects, the progress mark and the rest of
  the batch commit, and the record counted before the break is lost: the total of records stays 0
  while the source is marked as applied up to the batch's last sequence, so no later run makes up
  for it.
\<close>

theorem consume_half_batch:
  "let s' = snd (consume (redis_vt flaky_env) [call_record 5] ''f'' (zero_run, new_thread [] 0)) in
     hsum kTotalKey kFieldRecords (rs_committed s') = 0 \<and> progress ''f'' (rs_committed s') = 5"
proof -
  let ?b = "[call_record 5]" and ?E = "redis_vt flaky_env"
  let ?t = "totals_add_batch ?b zero_totals" and ?d = "fold_batch ?b"
  let ?lost = "[MULTI, HINCRBY kTotalKey kFieldRecords 1]"
  let ?l = "[MULTI, HINCRBY kTotalKey ''moc_dur'' 60]"
  have t: "snd (write_totals ?E ?t (new_thread [] 0)) = recovered ?lost ?l 5"
    by (simp add: totals_batch_fields totals_adds_def totals_fields_names write_totals_def
        add_counter_def call_record_def redis_vt_def flaky_env_def redis_op_defs new_thread_def
        recovered_def kRedisPipelineDepth_def kFieldRecords_def)
  have d: "length (delta_adds ?d) < 100" "length (delta_ranks ?d) < 100"
    by (simp_all add: fold_batch_def fold_record_def call_record_def on_sub_def on_op_def on_link_def
        empty_delta_def mccmnc_of_def kMsinDivisor_def addLink_def delta_adds_def delta_ranks_def
        sub_adds_def op_adds_def link_adds_def sub_ranks_def op_ranks_def Let_def)
  have h: "highest_of ?b = 5" by (simp add: highest_of_def call_record_def)
  let ?m = "HSET kProgressKey ''f'' 5"
  have m: "snd (mark ?E ''f'' 5 (recovered ?lost ?l 5)) = recovered ?lost (?l @ [?m]) 6"
    by (simp add: redis_vt_def recovered_write kRedisPipelineDepth_def)
  obtain i where i: "2 < i" "snd (write_ranks ?E ?d (recovered ?lost (?l @ [?m]) 6))
      = recovered ?lost (?l @ [?m] @ rank_cmds (delta_ranks ?d)) i"
    using recovered_scores [of 6 "?l @ [?m]" "delta_ranks ?d" True ?lost] d
    by (auto simp: write_ranks_def kRedisPipelineDepth_def)
  let ?l' = "?l @ [?m] @ rank_cmds (delta_ranks ?d)"
  have len: "length ?l' + length (delta_adds ?d) < kRedisPipelineDepth"
    using d length_rank_cmds [of "delta_ranks ?d"] by (simp add: kRedisPipelineDepth_def)
  obtain j g where j: "2 < j" "write_adds ?E (delta_adds ?d) True (recovered ?lost ?l' i)
      = (g, recovered ?lost (?l' @ incr_cmds (delta_adds ?d)) j)"
    using recovered_adds [OF i(1) len] by blast
  let ?ws = "HINCRBY kTotalKey ''moc_dur'' 60 # ?m # rank_cmds (delta_ranks ?d) @ incr_cmds (delta_adds ?d)"
  have "flush ?E = redis_flush flaky_env" by (simp add: redis_vt_def)
  then have "snd (write_delta ?E ?d (recovered ?lost ?l' i))
      = snd (redis_flush flaky_env (recovered ?lost (?l' @ incr_cmds (delta_adds ?d)) j))"
    by (simp only: write_delta_def j(2) Let_def prod.case) (simp add: case_prod_beta)
  moreover have "committed_of ?lost = []" by (simp add: committed_of_def srv_def)
  ultimately have "rs_committed (snd (write_delta ?E ?d (recovered ?lost ?l' i)))
      = committed_of (MULTI # ?ws @ [EXEC])"
    using recovered_flush [OF j(1), of ?lost "?l' @ incr_cmds (delta_adds ?d)"] by simp
  also have "\<dots> = ?ws" by (rule committed_writes) (simp add: cmds_write)
  finally have "rs_committed (snd (consume ?E ?b ''f'' (zero_run, new_thread [] 0))) = ?ws"
    by (simp add: consume_def Let_def t h m i(2) [simplified])
  moreover have "progress ''f'' ([HINCRBY kTotalKey ''moc_dur'' 60, ?m] @
      rank_cmds (delta_ranks ?d) @ incr_cmds (delta_adds ?d)) = 5"
    by (subst progress_no_mark) (simp_all add: progress_def)
  ultimately show ?thesis by (simp add: totals_delta_hsum kFieldRecords_def)
qed

end
