(* ===== verification/FileSource.thy ===== *)
theory FileSource
  imports CsvParser
begin

text \<open>
  \<open>src/util/fs.cpp\<close>, \<open>src/util/mapped_file.cpp\<close> and \<open>src/source/file_source.cpp\<close>: the file system
  as far as the program sees it, a mapped file, and the source that hands out a file's records in
  batches. A pointer into the mapping is the text from it to the end of the mapping. The parser is
  the argument \<open>parser\<close>. The lemmas show that the batches are a partition of the file's records
  beyond the resume point, and that every batch is bounded and, but for the last, full.
\<close>

section \<open>Files\<close>

datatype node = Regular string | Directory | Special

type_synonym filesys = "string \<Rightarrow> node option"

definition basename_of :: "string \<Rightarrow> string" where
  "basename_of path = (case rfind (CHR ''/'') path of None \<Rightarrow> path | Some pos \<Rightarrow> drop (pos + 1) path)"

text \<open>
  \<open>std::rename\<close> of a file: it fails when the source is missing or the destination is a directory,
  and otherwise replaces the destination in one step. The directories are on one file system and writable:
  the errors of a rename that come from elsewhere are not modelled.
\<close>

definition rename_file :: "filesys \<Rightarrow> string \<Rightarrow> string \<Rightarrow> bool \<times> filesys" where
  "rename_file files src dst =
     (if files src = None \<or> files dst = Some Directory then (False, files)
      else (True, (files(src := None))(dst := files src)))"

text \<open>
  The system calls that may fail on a path for reasons outside the program: opening, examining and
  mapping it.
\<close>

record syscalls =
  sys_open :: "string \<Rightarrow> bool"
  sys_fstat :: "string \<Rightarrow> bool"
  sys_mmap :: "string \<Rightarrow> bool"

record MappedFile =
  map_ok :: bool
  map_data :: string

definition map_file :: "syscalls \<Rightarrow> filesys \<Rightarrow> string \<Rightarrow> MappedFile" where
  "map_file sys files path =
     (case files path of
        None \<Rightarrow> \<lparr>map_ok = False, map_data = []\<rparr>
      | Some nd \<Rightarrow>
          if \<not> sys_open sys path then \<lparr>map_ok = False, map_data = []\<rparr>
          else if \<not> sys_fstat sys path then \<lparr>map_ok = False, map_data = []\<rparr>
          else (case nd of
             Regular text \<Rightarrow>
               if text = [] then \<lparr>map_ok = True, map_data = []\<rparr>
               else if \<not> sys_mmap sys path then \<lparr>map_ok = False, map_data = []\<rparr>
               else \<lparr>map_ok = True, map_data = text\<rparr>
           | _ \<Rightarrow> \<lparr>map_ok = False, map_data = []\<rparr>))"

definition map_empty :: "MappedFile \<Rightarrow> bool" where
  "map_empty m \<longleftrightarrow> map_data m = []"

section \<open>The source\<close>

definition kFileBatchSize :: nat where "kFileBatchSize = kBatchSize"

datatype Status = OK | DONE | FAIL

record Fileheader =
  format :: string
  record_count :: u64

definition line_feed :: char where "line_feed = CHR 0x0A"

definition parse_header :: "string \<Rightarrow> (Fileheader \<times> string) option" where
  "parse_header data =
     (case find_from line_feed data 0 of
        None \<Rightarrow> None
      | Some new_line \<Rightarrow>
          let line = take new_line data in
          if substr line 0 4 \<noteq> ''CDR|'' then None
          else (case find_from (CHR ''|'') line 4 of
             None \<Rightarrow> None
           | Some bar \<Rightarrow>
               (case from_chars_u64 (drop (bar + 1) line) of
                  (Inl e, rest) \<Rightarrow> None
                | (Inr n, rest) \<Rightarrow>
                    Some (\<lparr>format = substr line 4 (bar - 4), record_count = n\<rparr>, drop (new_line + 1) data))))"

record FileSource =
  f_resume :: u64
  f_header :: "Fileheader option"
  f_pos :: string
  f_end :: bool
  f_name :: string
  f_parsed :: nat
  f_rejected :: nat
  f_failed :: bool
  f_summed :: bool

definition open_source :: "syscalls \<Rightarrow> filesys \<Rightarrow> string \<Rightarrow> u64 \<Rightarrow> FileSource" where
  "open_source sys files path resume =
     (let m = map_file sys files path;
          src = \<lparr>f_resume = resume, f_header = None, f_pos = [], f_end = False,
            f_name = basename_of path, f_parsed = 0, f_rejected = 0, f_failed = False,
            f_summed = False\<rparr> in
      if \<not> map_ok m then src\<lparr>f_failed := True\<rparr>
      else if map_empty m then src\<lparr>f_failed := True\<rparr>
      else (case parse_header (map_data m) of
         None \<Rightarrow> src\<lparr>f_failed := True\<rparr>
       | Some (header, rest) \<Rightarrow> src\<lparr>f_header := Some header, f_pos := rest, f_end := True\<rparr>))"

text \<open>One line and the text after its line feed; the last line may have none.\<close>

definition cut_line :: "string \<Rightarrow> string \<times> string" where
  "cut_line text = (case find_from line_feed text 0 of
     None \<Rightarrow> (text, []) | Some n \<Rightarrow> (take n text, drop (n + 1) text))"

lemma cut_line_shorter: "text \<noteq> [] \<Longrightarrow> length (snd (cut_line text)) < length text"
  by (auto simp: cut_line_def find_from_def Let_def split: option.split)

lemma cut_line_less: "(line, rest) = cut_line text \<Longrightarrow> text \<noteq> [] \<Longrightarrow> length rest < length text"
  using cut_line_shorter [of "text"] by (simp add: prod_eq_iff)

text \<open>The loop of \<open>next\<close>: the remaining text, the records handed out and the lines rejected so far.\<close>

function next_loop ::
    "(string \<Rightarrow> CdrRecord option) \<Rightarrow> u64 \<Rightarrow> string \<Rightarrow> CdrRecord list \<Rightarrow> nat
       \<Rightarrow> string \<times> CdrRecord list \<times> nat" where
  "next_loop parser resume pos out rejected =
     (if pos \<noteq> [] \<and> length out < kFileBatchSize then
        (let (line, pos') = cut_line pos in
         case parser line of
           Some r \<Rightarrow>
             if sequence r \<le> resume then next_loop parser resume pos' out rejected
             else next_loop parser resume pos' (out @ [r]) rejected
         | None \<Rightarrow> next_loop parser resume pos' out (rejected + 1))
      else (pos, out, rejected))"
  by pat_completeness auto

termination
  by (relation "measure (\<lambda>(parser, resume, pos, out, rejected). length pos)")
    (auto dest: cut_line_less)

declare next_loop.simps [simp del]

definition log_summary :: "FileSource \<Rightarrow> FileSource" where
  "log_summary src = (if f_summed src \<or> \<not> f_end src then src else src\<lparr>f_summed := True\<rparr>)"

definition source_next ::
    "(string \<Rightarrow> CdrRecord option) \<Rightarrow> FileSource \<Rightarrow> Status \<times> CdrRecord list \<times> FileSource" where
  "source_next parser src =
     (if f_failed src then (FAIL, [], src\<lparr>f_failed := False\<rparr>)
      else
        let (pos, out, rejected) = next_loop parser (f_resume src) (f_pos src) [] (f_rejected src);
            src = src\<lparr>f_pos := pos, f_rejected := rejected\<rparr> in
        if out = [] then (DONE, [], log_summary src)
        else (OK, out, src\<lparr>f_parsed := f_parsed src + length out\<rparr>))"

section \<open>The lines of a text\<close>

function lines_of :: "string \<Rightarrow> string list" where
  "lines_of text = (if text = [] then [] else fst (cut_line text) # lines_of (snd (cut_line text)))"
  by pat_completeness auto

termination
  by (relation "measure length") (use cut_line_shorter in auto)

declare lines_of.simps [simp del]

text \<open>The records a parser finds in a text, and those a source hands out.\<close>

definition records_of :: "(string \<Rightarrow> CdrRecord option) \<Rightarrow> string \<Rightarrow> CdrRecord list" where
  "records_of parser text = List.map_filter parser (lines_of text)"

definition fresh :: "u64 \<Rightarrow> CdrRecord list \<Rightarrow> CdrRecord list" where
  "fresh resume rs = filter (\<lambda>r. \<not> sequence r \<le> resume) rs"

lemma records_of_Nil [simp]: "records_of parser [] = []"
  by (simp add: records_of_def lines_of.simps map_filter_def)

lemma records_of_cut:
  "text \<noteq> [] \<Longrightarrow> cut_line text = (line, rest) \<Longrightarrow>
     records_of parser text = (case parser line of None \<Rightarrow> [] | Some r \<Rightarrow> [r]) @ records_of parser rest"
  by (subst records_of_def, subst lines_of.simps) (simp add: records_of_def map_filter_def split: option.split)

lemma fresh_simps [simp]: "fresh p [] = []" "fresh p (a @ b) = fresh p a @ fresh p b"
  "fresh p (r # rs) = (if sequence r \<le> p then fresh p rs else r # fresh p rs)"
  by (simp_all add: fresh_def)

text \<open>
  The loop hands out the next fresh records and leaves the others, stopping when the batch is full
  or the text is used up; every rejected line is counted.
\<close>

lemma next_loop_spec:
  "next_loop parser p pos out rej = (pos', out', rej') \<Longrightarrow> length out \<le> kFileBatchSize \<Longrightarrow>
     length out' \<le> kFileBatchSize \<and> (pos' \<noteq> [] \<longrightarrow> length out' = kFileBatchSize)
     \<and> out' @ fresh p (records_of parser pos') = out @ fresh p (records_of parser pos)
     \<and> length pos' \<le> length pos \<and> (length out < length out' \<longrightarrow> length pos' < length pos)"
proof (induction parser p pos out rej rule: next_loop.induct)
  case (1 parser p pos out rej)
  show ?case
  proof (cases "pos \<noteq> [] \<and> length out < kFileBatchSize")
    case False
    then show ?thesis using "1.prems" by (auto simp: next_loop.simps [of parser p pos])
  next
    case True
    obtain line rest where c: "cut_line pos = (line, rest)" by (cases "cut_line pos")
    note r = records_of_cut [OF conjunct1 [OF True] c, of parser]
    have l: "length rest < length pos" using cut_line_shorter [of pos] True c by simp
    show ?thesis
    proof (cases "parser line")
      case None
      then have "next_loop parser p rest out (rej + 1) = (pos', out', rej')"
        using "1.prems"(1) True c by (subst (asm) next_loop.simps) simp
      from "1.IH"(1) [OF True refl c [symmetric] None this] "1.prems"(2) r None l show ?thesis
        by auto
    next
      case (Some x)
      show ?thesis
      proof (cases "sequence x \<le> p")
        case old: True
        then have "next_loop parser p rest out rej = (pos', out', rej')"
          using "1.prems"(1) True c Some by (subst (asm) next_loop.simps) simp
        from "1.IH"(2) [OF True refl c [symmetric] Some old this] "1.prems"(2) r Some l old
        show ?thesis by auto
      next
        case new: False
        then have "next_loop parser p rest (out @ [x]) rej = (pos', out', rej')"
          using "1.prems"(1) True c Some by (subst (asm) next_loop.simps) simp
        from "1.IH"(3) [OF True refl c [symmetric] Some new this] True r Some l new
        show ?thesis by auto
      qed
    qed
  qed
qed

lemma kFileBatchSize_pos [simp]: "0 < kFileBatchSize" "kFileBatchSize \<noteq> 0"
  by (simp_all add: kFileBatchSize_def kBatchSize_def)

text \<open>One call of \<open>next\<close> on a source that was opened.\<close>

definition left :: "(string \<Rightarrow> CdrRecord option) \<Rightarrow> FileSource \<Rightarrow> CdrRecord list" where
  "left parser src = fresh (f_resume src) (records_of parser (f_pos src))"

lemma source_next_spec:
  assumes "\<not> f_failed src" "source_next parser src = (st, batch, src')"
  shows "(st = OK \<and> batch \<noteq> [] \<or> st = DONE \<and> batch = [] \<and> left parser src = [] \<and> f_pos src' = [])
    \<and> length batch \<le> kFileBatchSize \<and> left parser src = batch @ left parser src'
    \<and> (length batch < kFileBatchSize \<longrightarrow> left parser src' = [])
    \<and> (st = OK \<longrightarrow> length (f_pos src') < length (f_pos src))
    \<and> \<not> f_failed src' \<and> f_resume src' = f_resume src"
proof -
  obtain pos out rej where n: "next_loop parser (f_resume src) (f_pos src) [] (f_rejected src) = (pos, out, rej)"
    by (cases "next_loop parser (f_resume src) (f_pos src) [] (f_rejected src)")
  note s = next_loop_spec [OF n, simplified]
  show ?thesis
  proof (cases "out = []")
    case True
    then have "st = DONE" "batch = []" "src' = log_summary (src\<lparr>f_pos := pos, f_rejected := rej\<rparr>)"
      using assms n by (simp_all add: source_next_def)
    then show ?thesis using s True assms(1)
      by (auto simp: left_def log_summary_def)
  next
    case False
    then have "st = OK" "batch = out" "src' = src\<lparr>f_pos := pos, f_rejected := rej, f_parsed := f_parsed src + length out\<rparr>"
      using assms n by (auto simp: source_next_def)
    then show ?thesis using s False assms(1)
      by (cases "pos = []") (auto simp: left_def)
  qed
qed

text \<open>A source that could not be opened fails once and has nothing afterwards.\<close>

lemma source_failed:
  "f_failed src \<Longrightarrow> source_next parser src = (FAIL, [], src\<lparr>f_failed := False\<rparr>)"
  by (simp add: source_next_def)

lemma source_exhausted:
  "\<not> f_failed src \<Longrightarrow> f_pos src = [] \<Longrightarrow> fst (source_next parser src) = DONE"
  by (simp add: source_next_def next_loop.simps)

text \<open>The text of a delivered file: what \<open>open_source\<close> accepts.\<close>

definition readable :: "syscalls \<Rightarrow> filesys \<Rightarrow> string \<Rightarrow> string \<Rightarrow> bool" where
  "readable sys files path body \<longleftrightarrow>
     (\<exists>text header. files path = Some (Regular text) \<and> text \<noteq> [] \<and> sys_open sys path
        \<and> sys_fstat sys path \<and> sys_mmap sys path \<and> parse_header text = Some (header, body))"

lemma open_readable:
  assumes "readable sys files path body"
  shows "f_pos (open_source sys files path p) = body \<and> \<not> f_failed (open_source sys files path p)
    \<and> f_resume (open_source sys files path p) = p"
  using assms by (auto simp: readable_def open_source_def map_file_def map_empty_def)

lemma open_unreadable:
  assumes "\<forall>body. \<not> readable sys files path body"
  shows "f_failed (open_source sys files path p)"
proof (cases "files path")
  case (Some nd)
  then show ?thesis using assms
    by (cases nd) (auto simp: readable_def open_source_def map_file_def map_empty_def Let_def
        split: option.split)
qed (simp add: open_source_def map_file_def)


section \<open>Reading a source to its end\<close>

lemma next_OK_shorter:
  "(OK, batch, src') = source_next parser src \<Longrightarrow> length (f_pos src') < length (f_pos src)"
  using source_next_spec [of src parser OK batch src'] source_failed [of src parser]
  by (cases "f_failed src") auto

function read_all :: "(string \<Rightarrow> CdrRecord option) \<Rightarrow> FileSource \<Rightarrow> CdrRecord list list" where
  "read_all parser src =
     (case source_next parser src of
        (OK, batch, src') \<Rightarrow> batch # read_all parser src'
      | (DONE, batch, src') \<Rightarrow> []
      | (FAIL, batch, src') \<Rightarrow> [])"
  by pat_completeness auto

termination
  by (relation "measure (\<lambda>(parser, src). length (f_pos src))") (auto dest: next_OK_shorter)

declare read_all.simps [simp del]

lemma read_all_step:
  "source_next parser src = (OK, b, src') \<Longrightarrow> read_all parser src = b # read_all parser src'"
  "source_next parser src = (DONE, b, src') \<Longrightarrow> read_all parser src = []"
  by (subst read_all.simps, simp)+

lemma read_all_spec:
  "\<not> f_failed src \<Longrightarrow>
     concat (read_all parser src) = left parser src
     \<and> list_all (\<lambda>b. b \<noteq> [] \<and> length b \<le> kFileBatchSize) (read_all parser src)
     \<and> list_all (\<lambda>b. length b = kFileBatchSize) (butlast (read_all parser src))"
proof (induction parser src rule: read_all.induct)
  case (1 parser src)
  obtain st b src' where n: "source_next parser src = (st, b, src')" by (cases "source_next parser src")
  note s = source_next_spec [OF "1.prems" n]
  show ?case
  proof (cases "st = OK")
    case True
    note n' = n [unfolded True]
    have "concat (read_all parser src') = left parser src'"
      using "1.IH" [OF n' [symmetric] refl refl] s by simp
    moreover have "left parser src' = [] \<or> length b = kFileBatchSize" using s by (cases "length b < kFileBatchSize") auto
    ultimately show ?thesis
      using "1.IH" [OF n' [symmetric] refl refl] s True unfolding read_all_step(1) [OF n']
      by (cases "read_all parser src'") auto
  next
    case False
    then have "st = DONE" using s by auto
    then show ?thesis using s read_all_step(2) [of parser src b src'] n by simp
  qed
qed

section \<open>Properties\<close>

text \<open>
  C19: A delivered file is read to its end and exactly once. The batches, put together, are the
  records of its lines in their order, without those up to the resume point; no batch is empty
  or larger than 4096 records, and every batch but the last is full.
\<close>

theorem file_batches_partition:
  assumes "readable sys files path body"
  shows "let bs = read_all parser (open_source sys files path resume) in
    concat bs = filter (\<lambda>r. resume < sequence r) (List.map_filter parser (lines_of body))
    \<and> list_all (\<lambda>b. b \<noteq> [] \<and> length b \<le> 4096) bs
    \<and> list_all (\<lambda>b. length b = 4096) (butlast bs)"
  using read_all_spec [of "open_source sys files path resume" parser] open_readable [OF assms, of resume]
  by (simp add: Let_def left_def fresh_def records_of_def not_le kFileBatchSize_def kBatchSize_def)

definition all_calls_ok :: syscalls where
  "all_calls_ok = \<lparr>sys_open = (\<lambda>_. True), sys_fstat = (\<lambda>_. True), sys_mmap = (\<lambda>_. True)\<rparr>"

definition header_text :: "string \<Rightarrow> nat \<Rightarrow> string" where
  "header_text fmt n = ''CDR|'' @ fmt @ CHR ''|'' # dec_of n @ [line_feed]"

lemma find_from_first: "c \<notin> set a \<Longrightarrow> find_from c (a @ c # b) 0 = Some (length a)"
  using find_from_Some [of c a "[]" b] by simp

lemma drop_prefix: "length p = n \<Longrightarrow> drop n (p @ s) = s"
  by auto

lemma parse_header_text:
  assumes "CHR ''|'' \<notin> set fmt" "line_feed \<notin> set fmt" "n < 2 ^ 64"
  shows "parse_header (header_text fmt n @ body) = Some (\<lparr>format = fmt, record_count = of_nat n\<rparr>, body)"
proof -
  let ?line = "''CDR|'' @ fmt @ CHR ''|'' # dec_of n"
  have "\<not> is_digit line_feed" "\<not> is_digit (CHR ''|'')" by (simp_all add: is_digit_def line_feed_def)
  then have nl: "line_feed \<notin> set ?line" using assms(2) dec_of_digits [of line_feed n]
    by (auto simp: line_feed_def)
  have 1: "find_from line_feed (header_text fmt n @ body) 0 = Some (length ?line)"
    using find_from_first [OF nl, of body] by (simp add: header_text_def)
  have 2: "find_from (CHR ''|'') ?line 4 = Some (4 + length fmt)"
    using find_from_Some [OF assms(1), of "''CDR|''" "dec_of n"] by (simp add: eval_nat_numeral)
  have "from_chars_u64 (dec_of n) = (Inr (word_of_nat n), [])"
    using assms(3) by (simp add: from_chars_digits dec_of_digits)
  moreover have "drop (4 + length fmt + 1) ?line = dec_of n"
    using drop_prefix [of "''CDR|'' @ fmt @ ''|''" "4 + length fmt + 1" "dec_of n"] by simp
  moreover have "take (length ?line) (header_text fmt n @ body) = ?line"
      "drop (length ?line + 1) (header_text fmt n @ body) = body"
    by (simp_all add: header_text_def)
  ultimately show ?thesis using 2
    unfolding parse_header_def 1 option.case Let_def
    by (simp add: substr_def)
qed

theorem file_batches_partition_witness:
  "let bs = read_all (parse (CHR ''|'')) (open_source all_calls_ok
        [''process/a'' \<mapsto> Regular (header_text ''csv'' 2 @ ''junk'')] ''process/a'' 3) in
    concat bs = filter (\<lambda>r. 3 < sequence r) (List.map_filter (parse (CHR ''|'')) (lines_of ''junk''))
    \<and> list_all (\<lambda>b. b \<noteq> [] \<and> length b \<le> 4096) bs
    \<and> list_all (\<lambda>b. length b = 4096) (butlast bs)"
proof (rule file_batches_partition)
  have "parse_header (header_text ''csv'' 2 @ ''junk'')
      = Some (\<lparr>format = ''csv'', record_count = of_nat 2\<rparr>, ''junk'')"
    by (rule parse_header_text) (simp_all add: line_feed_def)
  then show "readable all_calls_ok [''process/a'' \<mapsto> Regular (header_text ''csv'' 2 @ ''junk'')] ''process/a'' ''junk''"
    by (simp add: readable_def all_calls_ok_def header_text_def)
qed

text \<open>
  The header line \<open>CDR|format|count\<close> is read back: format and count are found, and reading goes
  on right behind the line feed.
\<close>

theorem header_roundtrip:
  assumes "CHR ''|'' \<notin> set fmt" "line_feed \<notin> set fmt" "n < 2 ^ 64"
  shows "parse_header (header_text fmt n @ body) = Some (\<lparr>format = fmt, record_count = of_nat n\<rparr>, body)"
  by (rule parse_header_text [OF assms])

theorem header_roundtrip_witness:
  "parse_header (header_text ''csv'' 2 @ ''x'') = Some (\<lparr>format = ''csv'', record_count = of_nat 2\<rparr>, ''x'')"
  by (rule header_roundtrip) (simp_all add: line_feed_def)

text \<open>
  A file that cannot be opened, examined or mapped, that is not regular or empty, or whose first
  line is not a header, yields no record: \<open>next\<close> answers FAIL once, and DONE from then on.
\<close>

theorem unreadable_fails_once:
  assumes "\<forall>body. \<not> readable sys files path body"
  shows "let (st, batch, src) = source_next parser (open_source sys files path resume) in
    st = FAIL \<and> batch = [] \<and> (case source_next parser src of (st', batch', src') \<Rightarrow> st' = DONE \<and> batch' = [])"
proof -
  let ?s = "open_source sys files path resume"
  have "f_failed ?s" by (rule open_unreadable [OF assms])
  moreover have "f_failed ?s \<Longrightarrow> f_pos ?s = []"
    by (auto simp: open_source_def Let_def split: option.splits if_splits)
  ultimately show ?thesis
    by (simp add: source_failed source_next_def next_loop.simps)
qed

theorem unreadable_fails_once_witness:
  "let (st, batch, src) = source_next (parse (CHR '','')) (open_source all_calls_ok
        [''process/a'' \<mapsto> Regular ''CDR|csv''] ''process/a'' 0) in
    st = FAIL \<and> batch = []
    \<and> (case source_next (parse (CHR '','')) src of (st', batch', src') \<Rightarrow> st' = DONE \<and> batch' = [])"
  by (rule unreadable_fails_once) (simp add: readable_def parse_header_def find_from_def line_feed_def)

end
