(* ===== verification/FileIngestor.thy ===== *)
theory FileIngestor
  imports FileSource AggregateSink
begin

text \<open>
  \<open>src/ingest/file_ingestor.cpp\<close>: what a worker does with one claimed file. The sink is the
  argument \<open>sk\<close>, the parser \<open>parser\<close>; a record \<open>FileDirs\<close> names the four directories. The lemmas
  inside \<open>crash_sink\<close> show that a file is applied exactly once however often the process dies while
  reading it, as long as its sequences rise.
\<close>

record FileDirs =
  dir_ready :: string
  dir_process :: string
  dir_done :: string
  dir_fail :: string

definition dispose :: "FileDirs \<Rightarrow> string \<Rightarrow> bool \<Rightarrow> filesys \<Rightarrow> filesys" where
  "dispose dirs path good files =
     (let dest = (if good then dir_done dirs else dir_fail dirs) @ basename_of path
      in snd (rename_file files path dest))"

text \<open>The loop over \<open>next\<close>: the last status and the sink's state.\<close>

function process_loop ::
    "'s ISink \<Rightarrow> (string \<Rightarrow> CdrRecord option) \<Rightarrow> string \<Rightarrow> FileSource \<Rightarrow> 's \<Rightarrow> Status \<times> 's" where
  "process_loop sk parser name src s =
     (case source_next parser src of
        (OK, batch, src') \<Rightarrow> process_loop sk parser name src' (sk_consume sk batch name s)
      | (st, batch, src') \<Rightarrow> (st, s))"
  by pat_completeness auto

termination
  by (relation "measure (\<lambda>(sk, parser, name, src, s). length (f_pos src))") (auto dest: next_OK_shorter)

declare process_loop.simps [simp del]

definition process ::
    "syscalls \<Rightarrow> FileDirs \<Rightarrow> 's ISink \<Rightarrow> (string \<Rightarrow> CdrRecord option) \<Rightarrow> bool \<Rightarrow> string
       \<Rightarrow> filesys \<times> 's \<Rightarrow> filesys \<times> 's" where
  "process sys dirs sk parser stop path = (\<lambda>(files, s).
     if stop then (files, s)
     else
       let source = basename_of path;
           (resume, s) = sk_resume_at sk source s;
           (st, s) = process_loop sk parser source (open_source sys files path resume) s
       in (dispose dirs path (st = DONE) files, s))"

text \<open>
  A run of \<open>process\<close> that dies. The process gets through \<open>n\<close> calls of the store and whatever it would
  do after them has no effect: the store behind \<open>dying\<close> counts its calls and ignores all past the
  first \<open>n\<close>, and the file is not moved. (A run that makes no more than \<open>n\<close> calls dies between the last of
  them and the rename.) The next start finds the files as they were and the store as \<open>restart\<close> leaves it.
\<close>

definition while_alive :: "('st \<Rightarrow> 'a \<times> 'st) \<Rightarrow> 'a \<Rightarrow> nat \<times> 'st \<Rightarrow> 'a \<times> nat \<times> 'st" where
  "while_alive call dead_answer = (\<lambda>(n, s).
     case n of 0 \<Rightarrow> (dead_answer, 0, s) | Suc m \<Rightarrow> (case call s of (r, s') \<Rightarrow> (r, m, s')))"

definition dying :: "'st IStore \<Rightarrow> (nat \<times> 'st) IStore" where
  "dying vt = \<lparr>increment = (\<lambda>k f v. while_alive (increment vt k f v) False),
     rank = (\<lambda>b m v. while_alive (rank vt b m v) False), flush = while_alive (flush vt) False,
     resume_at = (\<lambda>src. while_alive (resume_at vt src) 0), mark = (\<lambda>src q. while_alive (mark vt src q) False)\<rparr>"

definition process_killed ::
    "syscalls \<Rightarrow> FileDirs \<Rightarrow> 'st IStore \<Rightarrow> ('st \<Rightarrow> 'st) \<Rightarrow> (string \<Rightarrow> CdrRecord option) \<Rightarrow> string
       \<Rightarrow> nat \<Rightarrow> filesys \<times> RunTotals \<times> 'st \<Rightarrow> filesys \<times> RunTotals \<times> 'st" where
  "process_killed sys dirs vt restart parser path n = (\<lambda>(files, run, s).
     case process sys dirs (aggregate_sink (dying vt)) parser False path (files, run, n, s) of
       (files', run', n', s') \<Rightarrow> (files, zero_run, restart s'))"

text \<open>The loop hands every batch of the source to the sink, in order.\<close>

lemma process_loop_batches:
  "\<not> f_failed src \<Longrightarrow>
     process_loop sk parser name src s =
       (DONE, foldl (\<lambda>s b. sk_consume sk b name s) s (read_all parser src))"
proof (induction sk parser name src s rule: process_loop.induct)
  case (1 sk parser name src s)
  obtain st b src' where n: "source_next parser src = (st, b, src')" by (cases "source_next parser src")
  note sp = source_next_spec [OF "1.prems" n]
  show ?case
  proof (cases "st = OK")
    case True
    note n' = n [unfolded True]
    have "process_loop sk parser name src s = process_loop sk parser name src' (sk_consume sk b name s)"
      by (subst process_loop.simps) (simp add: n')
    then show ?thesis using "1.IH" [OF n' [symmetric] refl refl] sp by (simp add: read_all_step(1) [OF n'])
  next
    case False
    then have "st = DONE" using sp by auto
    then show ?thesis using n read_all_step(2) [of parser src b src']
      by (subst process_loop.simps) simp
  qed
qed

lemma process_loop_failed: "f_failed src \<Longrightarrow> process_loop sk parser name src s = (FAIL, s)"
  by (subst process_loop.simps) (simp add: source_failed)

section \<open>Resuming\<close>

text \<open>What a resume point at the end of a prefix leaves of rising records.\<close>

lemma fresh_rising:
  assumes "rising (a @ b)"
  shows "fresh (if a = [] then 0 else sequence (last a)) (a @ b) = b"
proof -
  let ?p = "if a = [] then 0 else sequence (last a)"
  have "sequence r \<le> ?p" if "r \<in> set a" for r
  proof -
    have "r = last a \<or> r \<in> set (butlast a)" using that by (metis append_butlast_last_id empty_iff list.set(1) rotate1.simps(2) set_ConsD set_rotate1)
    moreover have "sorted_wrt (<) (map sequence (butlast a @ [last a]))"
      using assms that by (cases "a = []") (auto simp: rising_def sorted_wrt_append)
    ultimately show ?thesis using that by (auto simp: sorted_wrt_append)
  qed
  then have "fresh ?p a = []" by (auto simp: fresh_def)
  moreover have "\<not> sequence r \<le> ?p" if "r \<in> set b" for r
    using assms that by (cases "a = []") (auto simp: rising_def sorted_wrt_append not_le)
  then have "fresh ?p b = b" by (auto simp: fresh_def intro: filter_True)
  ultimately show ?thesis by simp
qed

lemma rising_batch:
  assumes "rising (a @ b @ c)" "b \<noteq> []"
  shows "highest_of b = sequence (last b) \<and> highest_of b \<noteq> 0"
proof -
  have "sorted_wrt (<) (map sequence b)" using assms(1) by (auto simp: rising_def sorted_wrt_append)
  from highest_of_rising [OF this assms(2)] have "highest_of b = sequence (last b)" .
  moreover have "0 < sequence (last b)" using assms by (auto simp: rising_def)
  ultimately show ?thesis by simp
qed

text \<open>The batches of one file in the history, and the resume point they leave.\<close>

definition named :: "string \<Rightarrow> CdrRecord list list \<Rightarrow> history" where
  "named name bs = map (Pair name) bs"

lemma applied_named:
  assumes "rising (concat bs @ rest)" "list_all (\<lambda>b. b \<noteq> []) bs" "applied base name h = 0"
  shows "applied base name (h @ named name bs) = (if concat bs = [] then 0 else sequence (last (concat bs)))"
  using assms(1,2)
proof (induction bs arbitrary: rest rule: rev_induct)
  case (snoc b bs)
  then have "b \<noteq> []" "highest_of b = sequence (last b)" "sequence (last b) \<noteq> 0"
    using rising_batch [of "concat bs" b rest] by auto
  moreover have "h @ named name (bs @ [b]) = (h @ named name bs) @ [(name, b)]" by (simp add: named_def)
  ultimately show ?case by (simp only: applied_snoc) simp
qed (simp add: named_def assms(3))

context progress_sink
begin

lemma consume_batches:
  "rel h s \<Longrightarrow> name \<noteq> [] \<Longrightarrow> rel (h @ named name bs) (foldl (\<lambda>s b. sk_consume sk b name s) s bs)"
proof (induction bs arbitrary: h s)
  case (Cons b bs)
  from Cons.IH [OF consume_law [OF Cons.prems]] Cons.prems show ?case by (simp add: named_def)
qed (simp add: named_def)

text \<open>Whatever part of a file landed before, a run reads the rest of it.\<close>

lemma read_rest:
  assumes "rel (h @ named name bs) s" "sk_resume_at sk name s = (resume, s')"
    and "applied base name h = 0" "rising (concat bs @ rest)" "list_all (\<lambda>b. b \<noteq> []) bs"
    and "readable sys files path body" "records_of parser body = concat bs @ rest"
  shows "rel (h @ named name bs) s'
    \<and> concat (read_all parser (open_source sys files path resume)) = rest
    \<and> list_all (\<lambda>b. b \<noteq> [] \<and> length b \<le> kFileBatchSize) (read_all parser (open_source sys files path resume))
    \<and> \<not> f_failed (open_source sys files path resume)"
proof -
  let ?src = "open_source sys files path resume"
  have s': "rel (h @ named name bs) s'" "resume = (if concat bs = [] then 0 else sequence (last (concat bs)))"
    using resume_law [OF assms(1,2)] applied_named [OF assms(4,5,3)] by simp_all
  note o = open_readable [OF assms(6), of resume]
  then have "left parser ?src = fresh resume (concat bs @ rest)" by (simp add: left_def assms(7))
  also have "\<dots> = rest" unfolding s'(2) by (rule fresh_rising [OF assms(4)])
  finally show ?thesis using s'(1) o read_all_spec [of ?src parser] by simp
qed

end

text \<open>The same by batches: \<open>n\<close> whole ones and \<open>j\<close> calls of the next.\<close>

definition cut_run ::
    "syscalls \<Rightarrow> 's ISink \<Rightarrow> (nat \<Rightarrow> CdrRecord list \<Rightarrow> string \<Rightarrow> 's \<Rightarrow> 's) \<Rightarrow> ('s \<Rightarrow> 's)
       \<Rightarrow> (string \<Rightarrow> CdrRecord option) \<Rightarrow> string \<Rightarrow> nat \<times> nat \<Rightarrow> filesys \<times> 's \<Rightarrow> filesys \<times> 's" where
  "cut_run sys sk torn boot parser path = (\<lambda>(n, j) (files, s).
     let source = basename_of path;
         (resume, s) = sk_resume_at sk source s;
         bs = read_all parser (open_source sys files path resume);
         s = foldl (\<lambda>s b. sk_consume sk b source s) s (take n bs)
     in (files, boot (if n < length bs then torn j (bs ! n) source s else s)))"

text \<open>The part of a file that has landed: whole batches, none of them empty or too large.\<close>

definition landed :: "CdrRecord list \<Rightarrow> CdrRecord list list \<Rightarrow> CdrRecord list \<Rightarrow> bool" where
  "landed rs bs rest \<longleftrightarrow> concat bs @ rest = rs \<and> list_all (\<lambda>b. b \<noteq> [] \<and> length b \<le> kFileBatchSize) bs"

lemma landed_ne: "landed rs bs rest \<Longrightarrow> list_all (\<lambda>b. b \<noteq> []) bs"
  by (auto simp: landed_def list_all_iff)

lemma landed_take:
  assumes "landed rs bs rest" "concat cs = rest" "list_all (\<lambda>b. b \<noteq> [] \<and> length b \<le> kFileBatchSize) cs"
  shows "landed rs (bs @ take n cs) (concat (drop n cs))"
  using assms unfolding landed_def
  by (auto simp: list_all_iff dest: in_set_takeD simp flip: concat_append)

context crash_sink
begin

lemma cut_lands:
  assumes "rel (h @ named name bs) s" "landed rs bs rest" "name = basename_of path" "name \<noteq> []"
    and "applied base name h = 0" "rising rs" "readable sys files path body" "records_of parser body = rs"
    and "cut_run sys sk torn boot parser path (n, j) (files, s) = (files', s')"
  shows "files' = files \<and> (\<exists>bs' rest'. landed rs bs' rest' \<and> rel (h @ named name bs') s')"
proof -
  obtain resume t where t: "sk_resume_at sk name s = (resume, t)" by (cases "sk_resume_at sk name s")
  let ?cs = "read_all parser (open_source sys files path resume)"
  have rs: "rs = concat bs @ rest" using assms(2) by (simp add: landed_def)
  note r = read_rest [OF assms(1) t assms(5) assms(6) [unfolded rs] landed_ne [OF assms(2)] assms(7)
      assms(8) [unfolded rs]]
  define u where "u = foldl (\<lambda>s b. sk_consume sk b name s) t (take n ?cs)"
  have u: "rel (h @ named name (bs @ take n ?cs)) u"
    using consume_batches [of "h @ named name bs" t name "take n ?cs"] r assms(4)
    by (simp add: u_def named_def)
  have l: "landed rs (bs @ take k ?cs) (concat (drop k ?cs))" for k
    using landed_take [OF assms(2)] r by blast
  have s': "files' = files" "s' = boot (if n < length ?cs then torn j (?cs ! n) name u else u)"
    using assms(9) t by (auto simp: cut_run_def assms(3) [symmetric] u_def Let_def)
  show ?thesis
  proof (cases "n < length ?cs")
    case True
    then have "named name (bs @ take (Suc n) ?cs) = named name (bs @ take n ?cs) @ [(name, ?cs ! n)]"
      by (simp add: named_def take_Suc_conv_app_nth)
    then have "rel (h @ named name (bs @ take n ?cs)) s' \<or> rel (h @ named name (bs @ take (Suc n) ?cs)) s'"
      using cut_law [OF u assms(4), of j "?cs ! n"] s'(2) True by simp
    then show ?thesis using l s'(1) by blast
  next
    case False
    then show ?thesis using boot_law [OF u] l [of n] s' by auto
  qed
qed

lemma process_lands:
  assumes "rel (h @ named name bs) s" "landed rs bs rest" "name = basename_of path" "name \<noteq> []"
    and "applied base name h = 0" "rising rs" "readable sys files path body" "records_of parser body = rs"
    and "process sys dirs sk parser False path (files, s) = (files', s')"
  shows "files' = dispose dirs path True files \<and> (\<exists>bs'. landed rs bs' [] \<and> rel (h @ named name bs') s')"
proof -
  obtain resume t where t: "sk_resume_at sk name s = (resume, t)" by (cases "sk_resume_at sk name s")
  let ?cs = "read_all parser (open_source sys files path resume)"
  have rs: "rs = concat bs @ rest" using assms(2) by (simp add: landed_def)
  note r = read_rest [OF assms(1) t assms(5) assms(6) [unfolded rs] landed_ne [OF assms(2)] assms(7)
      assms(8) [unfolded rs]]
  have "files' = dispose dirs path True files" "s' = foldl (\<lambda>s b. sk_consume sk b name s) t ?cs"
    using assms(9) t process_loop_batches [of "open_source sys files path resume" sk parser name t] r
    by (auto simp: process_def assms(3) [symmetric])
  moreover have "rel (h @ named name (bs @ ?cs)) (foldl (\<lambda>s b. sk_consume sk b name s) t ?cs)"
    using consume_batches [of "h @ named name bs" t name ?cs] r assms(4) by (simp add: named_def)
  moreover have "landed rs (bs @ ?cs) []"
    using landed_take [OF assms(2), of ?cs "length ?cs"] r by simp
  ultimately show ?thesis by blast
qed

end


text \<open>The calls a dying process still makes, and where in the batches the last of them is.\<close>

lemma dying_call [simp]:
  "run_call (dying vt) c (0, s) = (0, s)" "run_call (dying vt) c (Suc n, s) = (n, run_call vt c s)"
  by (cases c; simp add: dying_def while_alive_def split: prod.split)+

lemma dying_calls: "run_calls (dying vt) cs (n, s) = (n - length cs, run_calls vt (take n cs) s)"
proof (induction cs arbitrary: n s)
  case (Cons c cs)
  then show ?case by (cases n) simp_all
qed simp

lemma take_batches:
  "\<exists>i j. take m (concat (map f bs)) = concat (map f (take i bs)) @ (if i < length bs then take j (f (bs ! i)) else [])"
proof (induction bs arbitrary: m)
  case (Cons b bs)
  show ?case
  proof (cases "m < length (f b)")
    case True
    then show ?thesis by (intro exI [of _ 0] exI [of _ m]) simp
  next
    case False
    obtain i j where "take (m - length (f b)) (concat (map f bs))
        = concat (map f (take i bs)) @ (if i < length bs then take j (f (bs ! i)) else [])" using Cons by blast
    then show ?thesis using False by (intro exI [of _ "Suc i"] exI [of _ j]) simp
  qed
qed simp

lemma consumes_are_calls:
  "snd (foldl (\<lambda>x b. consume vt b name x) (run, s) bs) = run_calls vt (concat (map (consume_calls name) bs)) s"
proof (induction bs arbitrary: run s)
  case (Cons b bs)
  obtain run' s' where c: "consume vt b name (run, s) = (run', s')" by (cases "consume vt b name (run, s)")
  then have "s' = run_calls vt (consume_calls name b) s" using consume_is_calls [of vt b name run s] by simp
  then show ?case using Cons [of run' s'] by (simp add: c)
qed simp

text \<open>A process that dies at once leaves things as they are, and any other is cut in one of its batches.\<close>

lemma killed_at_once: "process_killed sys dirs vt restart parser path 0 (files, run, s) = (files, zero_run, restart s)"
proof -
  let ?src = "open_source sys files path 0" and ?sk = "aggregate_sink (dying vt)"
  have "snd (snd (process_loop ?sk parser (basename_of path) ?src (run, 0, s))) = (0, s)"
  proof (cases "f_failed ?src")
    case False
    then show ?thesis
      using consumes_are_calls [of "dying vt" "basename_of path" run "(0, s)" "read_all parser ?src"]
      by (simp add: process_loop_batches aggregate_sink_def dying_calls)
  qed (simp add: process_loop_failed)
  then show ?thesis
    by (auto simp: process_killed_def process_def aggregate_sink_def sink_resume_at_def dying_def while_alive_def
        Let_def split: prod.splits)
qed

lemma killed_is_cut:
  assumes "sink_resume_at vt (basename_of path) (run, s) = (resume, x)" "\<not> f_failed (open_source sys files path resume)"
  shows "\<exists>k. process_killed sys dirs vt restart parser path (Suc m) (files, run, s)
    = cut_run sys (aggregate_sink vt) (agg_cut vt) (agg_boot restart) parser path k (files, run, s)"
proof -
  let ?name = "basename_of path" and ?bs = "read_all parser (open_source sys files path resume)"
  let ?f = "consume_calls ?name"
  obtain t where t: "resume_at vt ?name s = (resume, t)" "x = (run, t)"
    using assms(1) by (auto simp: sink_resume_at_def split: prod.splits)
  have d: "sk_resume_at (aggregate_sink (dying vt)) ?name (run, Suc m, s) = (resume, run, m, t)"
    by (simp add: aggregate_sink_def sink_resume_at_def dying_def while_alive_def t)
  obtain i j where ij: "take m (concat (map ?f ?bs)) = concat (map ?f (take i ?bs)) @ (if i < length ?bs then take j (?f (?bs ! i)) else [])"
    using take_batches by blast
  have e: "process_killed sys dirs vt restart parser path (Suc m) (files, run, s)
      = (files, zero_run, restart (run_calls vt (take m (concat (map ?f ?bs))) t))"
  proof -
    let ?sk = "aggregate_sink (dying vt)"
    have "snd (foldl (\<lambda>x b. sk_consume ?sk b ?name x) (run, m, t) ?bs)
        = (m - length (concat (map ?f ?bs)), run_calls vt (take m (concat (map ?f ?bs))) t)"
      using consumes_are_calls [of "dying vt" ?name run "(m, t)" ?bs] by (simp only: dying_calls aggregate_sink_def ISink.simps)
    then obtain run2 n2 where "foldl (\<lambda>x b. sk_consume ?sk b ?name x) (run, m, t) ?bs
        = (run2, n2, run_calls vt (take m (concat (map ?f ?bs))) t)" by (metis prod.collapse snd_conv)
    then have "process_loop ?sk parser ?name (open_source sys files path resume) (run, m, t)
        = (DONE, run2, n2, run_calls vt (take m (concat (map ?f ?bs))) t)"
      by (simp only: process_loop_batches [OF assms(2)])
    then show ?thesis by (simp add: process_killed_def process_def d)
  qed
  obtain run2 u where u: "foldl (\<lambda>x b. consume vt b ?name x) (run, t) (take i ?bs) = (run2, u)" by (rule prod.exhaust)
  have v: "run_calls vt (concat (map ?f (take i ?bs))) t = u" using consumes_are_calls [of vt ?name run t "take i ?bs"] u by simp
  have "run_calls vt (take m (concat (map ?f ?bs))) t = (if i < length ?bs then run_calls vt (take j (?f (?bs ! i))) u else u)"
    unfolding ij run_calls_simps v by simp
  then have "cut_run sys (aggregate_sink vt) (agg_cut vt) (agg_boot restart) parser path (i, j) (files, run, s)
      = (files, zero_run, restart (run_calls vt (take m (concat (map ?f ?bs))) t))"
    using u by (cases "i < length ?bs") (simp_all add: cut_run_def aggregate_sink_def assms(1) t(2) agg_boot_def agg_cut_def Let_def)
  then show ?thesis using e by metis
qed

context crash_store
begin

lemma killed_lands:
  assumes "agg_rel ok committed pending c0 (h @ named name bs) x" "landed rs bs rest" "name = basename_of path" "name \<noteq> []"
    and "applied (\<lambda>src. progress src c0) name h = 0" "rising rs" "readable sys files path body" "records_of parser body = rs"
    and "process_killed sys dirs vt restart parser path n (files, x) = (files', x')"
  shows "files' = files \<and> (\<exists>bs' rest'. landed rs bs' rest' \<and> agg_rel ok committed pending c0 (h @ named name bs') x')"
proof -
  obtain run s where x: "x = (run, s)" by (cases x)
  show ?thesis
  proof (cases n)
    case 0
    then have "files' = files" "x' = agg_boot restart x" using assms(9) by (simp_all add: x killed_at_once agg_boot_def)
    then show ?thesis using sink.boot_law [OF assms(1)] assms(2) by blast
  next
    case (Suc m)
    obtain resume y where r: "sk_resume_at (aggregate_sink vt) name (run, s) = (resume, y)"
      by (cases "sk_resume_at (aggregate_sink vt) name (run, s)")
    have rs: "rs = concat bs @ rest" using assms(2) by (simp add: landed_def)
    have open_ok: "\<not> f_failed (open_source sys files path resume)"
      using sink.read_rest [OF assms(1) r [folded x] assms(5) assms(6) [unfolded rs] landed_ne [OF assms(2)] assms(7)
          assms(8) [unfolded rs]] by blast
    have "sink_resume_at vt (basename_of path) (run, s) = (resume, y)"
      using r by (simp add: assms(3) aggregate_sink_def)
    from killed_is_cut [OF this open_ok] obtain k where "process_killed sys dirs vt restart parser path (Suc m) (files, run, s)
        = cut_run sys (aggregate_sink vt) (agg_cut vt) (agg_boot restart) parser path k (files, run, s)"
      by blast
    moreover obtain i j where "k = (i, j)" by (cases k)
    ultimately have "cut_run sys (aggregate_sink vt) (agg_cut vt) (agg_boot restart) parser path (i, j) (files, x) = (files', x')"
      using assms(9) Suc x by simp
    from sink.cut_lands [OF assms(1-8) this] show ?thesis .
  qed
qed

lemma kills_land:
  assumes "agg_rel ok committed pending c0 (h @ named name bs) x" "landed rs bs rest" "name = basename_of path" "name \<noteq> []"
    and "applied (\<lambda>src. progress src c0) name h = 0" "rising rs" "readable sys files path body" "records_of parser body = rs"
    and "foldl (\<lambda>x n. process_killed sys dirs vt restart parser path n x) (files, x) kills = (files', x')"
  shows "files' = files \<and> (\<exists>bs' rest'. landed rs bs' rest' \<and> agg_rel ok committed pending c0 (h @ named name bs') x')"
  using assms(1,2,9)
proof (induction kills arbitrary: bs rest x)
  case (Cons n kills)
  obtain f t where t: "process_killed sys dirs vt restart parser path n (files, x) = (f, t)"
    by (cases "process_killed sys dirs vt restart parser path n (files, x)")
  from killed_lands [OF Cons.prems(1,2) assms(3-8) t]
  obtain bs' rest' where "f = files" "landed rs bs' rest'" "agg_rel ok committed pending c0 (h @ named name bs') t" by blast
  with Cons.IH [of bs' t rest'] Cons.prems(3) t show ?case by simp
qed auto

end

section \<open>Properties\<close>

lemma history_named: "history_cmds (named name bs) = concat (map (consume_cmds name) bs)"
  by (induction bs) (simp_all add: named_def history_cmds_def)

lemma exactly_once:
  assumes cs: "crash_store vt good committed pending restart"
    and s: "good s" "pending s = []" "progress name (committed s) = 0"
    and name: "name = basename_of path" "name \<noteq> []"
    and rs: "rising (records_of parser body)"
    and body: "readable sys files path body"
    and kills: "foldl (\<lambda>x k. process_killed sys dirs vt restart parser path k x)
      (files, run, s) kills = (files1, x1)"
    and last: "process sys dirs (aggregate_sink vt) parser False path (files1, x1) = (files2, run2, s2)"
  shows "\<exists>bs. concat bs = records_of parser body \<and> list_all (\<lambda>b. b \<noteq> [] \<and> length b \<le> kFileBatchSize) bs
    \<and> committed s2 = committed s @ concat (map (consume_cmds name) bs) \<and> pending s2 = []
    \<and> files2 = dispose dirs path True files"
proof -
  let ?rel = "agg_rel good committed pending (committed s)"
  have sink: "crash_sink (aggregate_sink vt) ?rel (\<lambda>src. progress src (committed s)) (agg_cut vt)
      (agg_boot restart)" by (rule crash_store.aggregate_contract [OF cs])
  let ?rs = "records_of parser body"
  have 0: "?rel ([] @ named name []) (run, s)" by (simp add: agg_rel_def named_def s)
  have 1: "landed ?rs [] ?rs" by (simp add: landed_def)
  have 2: "applied (\<lambda>src. progress src (committed s)) name [] = 0" by (simp add: s)
  from crash_store.kills_land [OF cs 0 1 name 2 rs body refl kills]
  obtain bs rest where 3: "files1 = files" "landed ?rs bs rest" "?rel ([] @ named name bs) x1" by blast
  have body': "readable sys files1 path body" by (simp add: 3(1) body)
  from crash_sink.process_lands [OF sink 3(3,2) name 2 rs body' refl last]
  obtain bs' where 4: "files2 = dispose dirs path True files1" "landed ?rs bs' []"
      "?rel ([] @ named name bs') (run2, s2)" by blast
  then show ?thesis
    by (intro exI [of _ bs']) (simp add: landed_def agg_rel_def history_named 3(1))
qed

lemma readable_there: "readable sys files path body \<Longrightarrow> files path \<noteq> None"
  by (auto simp: readable_def)

lemma dispose_done:
  assumes "files path \<noteq> None" "files (dir_done dirs @ basename_of path) \<noteq> Some Directory" "dir_done dirs @ basename_of path \<noteq> path"
  shows "dispose dirs path True files = files(path := None, dir_done dirs @ basename_of path := files path)"
  using assms by (cases "files path") (simp_all add: dispose_def rename_file_def)

text \<open>
  C4: A delivered file is applied exactly once. However often the process dies while it reads the
  file - after any number of calls of the store, or before the file is moved away - once a run gets
  through, the store holds, beside what it held before, the batches of a partition of the file's records,
  each record in one batch; nothing is pending, and the file stands in the done directory, no longer
  where it was, while every other path is as before. The store keeps its contract, the source is
  new to it, the sequences of the file rise from 1 on, the file can be read, and the place in the
  done directory is another one and no directory, so that the rename goes through.
\<close>

theorem file_applied_exactly_once:
  assumes "crash_store vt good committed pending restart"
    and "good s" "pending s = []" "progress (basename_of path) (committed s) = 0"
    and "basename_of path \<noteq> []" "rising (records_of parser body)" "readable sys files path body"
    and "files (dir_done dirs @ basename_of path) \<noteq> Some Directory" "dir_done dirs @ basename_of path \<noteq> path"
  shows "let (files1, x1) = foldl (\<lambda>x k. process_killed sys dirs vt restart parser path k x) (files, run, s) kills;
           (files2, run2, s2) = process sys dirs (aggregate_sink vt) parser False path (files1, x1)
    in \<exists>bs. concat bs = records_of parser body
      \<and> committed s2 = committed s @ concat (map (consume_cmds (basename_of path)) bs)
      \<and> pending s2 = [] \<and> files2 = files(path := None, dir_done dirs @ basename_of path := files path)"
proof -
  obtain files1 x1 where 1: "foldl (\<lambda>x k. process_killed sys dirs vt restart parser path k x) (files, run, s) kills
      = (files1, x1)" by (rule prod.exhaust)
  obtain files2 run2 s2 where 2: "process sys dirs (aggregate_sink vt) parser False path (files1, x1)
      = (files2, run2, s2)" using prod_cases3 by blast
  from exactly_once [OF assms(1-4) refl assms(5-7) 1 2] dispose_done [OF readable_there [OF assms(7)] assms(8,9)]
  show ?thesis unfolding 1 Let_def prod.case 2 by metis
qed

text \<open>A file of three lines, one of them not a record, and a parser for it.\<close>

definition toy_parser :: "string \<Rightarrow> CdrRecord option" where
  "toy_parser line = (if line = ''a'' then Some (call_record 1)
     else if line = ''b'' then Some (call_record 2) else None)"

definition toy_body :: string where
  "toy_body = ''a'' @ [line_feed] @ ''x'' @ [line_feed] @ ''b''"

definition toy_files :: filesys where
  "toy_files = [''process/f'' \<mapsto> Regular (header_text ''csv'' 2 @ toy_body)]"

lemma toy_records: "records_of toy_parser toy_body = [call_record 1, call_record 2]"
  by (simp add: records_of_def toy_body_def lines_of.simps cut_line_def find_from_def line_feed_def
      map_filter_def toy_parser_def)

lemma toy_readable: "readable all_calls_ok toy_files ''process/f'' toy_body"
proof -
  have "parse_header (header_text ''csv'' 2 @ toy_body)
      = Some (\<lparr>format = ''csv'', record_count = of_nat 2\<rparr>, toy_body)"
    by (rule parse_header_text) (simp_all add: line_feed_def)
  then show ?thesis by (simp add: readable_def all_calls_ok_def toy_files_def header_text_def)
qed

lemma toy_name: "basename_of ''process/f'' = ''f''"
  by (simp add: basename_of_def rfind_def)

lemma toy_rising: "rising (records_of toy_parser toy_body)"
  by (simp add: toy_records rising_def call_record_def)

lemma fresh_thread: "rs_ok (new_thread [] ())" "rs_committed (new_thread [] ()) = []"
  by (simp_all add: rs_ok_def new_thread_inv committed_logs_def)

definition toy_dirs :: FileDirs where
  "toy_dirs = \<lparr>dir_ready = ''ready/'', dir_process = ''process/'', dir_done = ''done/'', dir_fail = ''fail/''\<rparr>"

lemma toy_place: "toy_files (dir_done toy_dirs @ ''f'') \<noteq> Some Directory" "dir_done toy_dirs @ ''f'' \<noteq> ''process/f''"
  by (simp_all add: toy_files_def toy_dirs_def)

theorem file_applied_exactly_once_witness:
  "let (files1, x1) = foldl (\<lambda>x k. process_killed all_calls_ok toy_dirs (redis_vt perfect_env) redis_restart toy_parser
          ''process/f'' k x) (toy_files, zero_run, new_thread [] ()) [0, 3, 100];
       (files2, run2, s2) = process all_calls_ok toy_dirs (aggregate_sink (redis_vt perfect_env))
          toy_parser False ''process/f'' (files1, x1)
   in \<exists>bs. concat bs = records_of toy_parser toy_body
      \<and> rs_committed s2 = rs_committed (new_thread [] ())
          @ concat (map (consume_cmds (basename_of ''process/f'')) bs)
      \<and> rs_pending s2 = [] \<and> files2 = toy_files(''process/f'' := None,
          dir_done toy_dirs @ basename_of ''process/f'' := toy_files ''process/f'')"
  by (rule file_applied_exactly_once [OF live.crash_store_axioms])
    (simp_all add: fresh_thread toy_name toy_readable toy_rising toy_place)

lemma records_of_batch: "hsum kTotalKey kFieldRecords (consume_cmds src b) = unat (of_nat (length b) :: u64)"
proof -
  have "(kFieldRecords, records (totals_add_batch b zero_totals)) \<in> set (totals_fields (totals_add_batch b zero_totals))"
    by (simp add: totals_fields_names kFieldRecords_def)
  from consume_hsum(4) [OF this, of src] show ?thesis by (simp add: totals_batch_fields)
qed

lemma records_of_batches:
  "list_all (\<lambda>b. b \<noteq> [] \<and> length b \<le> kFileBatchSize) bs \<Longrightarrow>
     hsum kTotalKey kFieldRecords (concat (map (consume_cmds src) bs)) = length (concat bs)"
proof (induction bs)
  case (Cons b bs)
  then have "length b < 2 ^ 64" by (simp add: kFileBatchSize_def kBatchSize_def)
  then have "unat (of_nat (length b) :: u64) = length b" by (simp add: unat_of_nat take_bit_nat_eq_self)
  then show ?case using Cons by (simp add: records_of_batch)
qed simp

text \<open>
  In particular the total of records kept in the store grows by exactly the number of records
  in the file, whatever happened on the way.
\<close>

theorem file_counted_exactly_once:
  assumes "crash_store vt good committed pending restart"
    and "good s" "pending s = []" "progress (basename_of path) (committed s) = 0"
    and "basename_of path \<noteq> []" "rising (records_of parser body)" "readable sys files path body"
  shows "let (files1, x1) = foldl (\<lambda>x k. process_killed sys dirs vt restart parser path k x) (files, run, s) kills;
           (files2, run2, s2) = process sys dirs (aggregate_sink vt) parser False path (files1, x1)
    in hsum kTotalKey kFieldRecords (committed s2)
        = hsum kTotalKey kFieldRecords (committed s) + length (records_of parser body)"
proof -
  obtain files1 x1 where 1: "foldl (\<lambda>x k. process_killed sys dirs vt restart parser path k x) (files, run, s) kills
      = (files1, x1)" by (rule prod.exhaust)
  obtain files2 run2 s2 where 2: "process sys dirs (aggregate_sink vt) parser False path (files1, x1)
      = (files2, run2, s2)" using prod_cases3 by blast
  from exactly_once [OF assms(1-4) refl assms(5-7) 1 2] obtain bs where
    "concat bs = records_of parser body" "list_all (\<lambda>b. b \<noteq> [] \<and> length b \<le> kFileBatchSize) bs"
    "committed s2 = committed s @ concat (map (consume_cmds (basename_of path)) bs)" by blast
  then show ?thesis unfolding 1 Let_def prod.case 2 by (simp add: records_of_batches)
qed

theorem file_counted_exactly_once_witness:
  "let (files1, x1) = foldl (\<lambda>x k. process_killed all_calls_ok toy_dirs (redis_vt perfect_env) redis_restart toy_parser
          ''process/f'' k x) (toy_files, zero_run, new_thread [] ()) [0, 3, 100];
       (files2, run2, s2) = process all_calls_ok toy_dirs (aggregate_sink (redis_vt perfect_env))
          toy_parser False ''process/f'' (files1, x1)
   in hsum kTotalKey kFieldRecords (rs_committed s2)
       = hsum kTotalKey kFieldRecords (rs_committed (new_thread [] ()))
         + length (records_of toy_parser toy_body)"
  by (rule file_counted_exactly_once [OF live.crash_store_axioms])
    (simp_all add: fresh_thread toy_name toy_readable toy_rising)

text \<open>
  A file without a readable header yields nothing: the store keeps what it held, completed by
  whatever was pending, and the file is moved to the directory of failed files.
\<close>

theorem unreadable_file_disposed:
  assumes "crash_store vt good committed pending restart" "good s"
    and "\<forall>body. \<not> readable sys files path body"
  shows "let (files', run', s') = process sys dirs (aggregate_sink vt) parser False path (files, run, s)
    in committed s' = committed s @ pending s \<and> pending s' = [] \<and> run' = run
      \<and> files' = snd (rename_file files path (dir_fail dirs @ basename_of path))"
proof -
  obtain p run' s' where r: "sink_resume_at vt (basename_of path) (run, s) = (p, run', s')"
    using prod_cases3 by blast
  from counter_store.sink_resume_ok [OF crash_store.axioms(1) [OF assms(1)] assms(2) r]
  show ?thesis using r process_loop_failed [OF open_unreadable [OF assms(3)],
      where sk = "aggregate_sink vt" and s = "(run, s')"]
    by (simp add: process_def aggregate_sink_def dispose_def Let_def)
qed

theorem unreadable_file_disposed_witness:
  "let (files', run', s') = process all_calls_ok toy_dirs (aggregate_sink (redis_vt perfect_env)) toy_parser
        False ''process/f'' ([''process/f'' \<mapsto> Regular ''no header''], zero_run, new_thread [] ())
    in rs_committed s' = rs_committed (new_thread [] ()) @ rs_pending (new_thread [] ()) \<and> rs_pending s' = []
      \<and> run' = zero_run
      \<and> files' = snd (rename_file [''process/f'' \<mapsto> Regular ''no header''] ''process/f''
          (dir_fail toy_dirs @ basename_of ''process/f''))"
  by (rule unreadable_file_disposed [OF live.crash_store_axioms])
    (simp_all add: fresh_thread readable_def parse_header_def find_from_def line_feed_def)

end
