(* ===== verification/Rabbit.thy ===== *)
theory Rabbit
  imports Sink FileSource
begin

text \<open>
  \<open>src/source/rabbit_conn.cpp\<close>, \<open>src/source/rabbit_source.cpp\<close> and
  \<open>src/ingest/rabbit_ingestor.cpp\<close>: one consumer of a RabbitMQ queue. rabbitmq-c, the broker and the
  stop flag another thread sets are not in the sources read here; what they answer is a script, the
  record \<open>World\<close>: a list for each kind of question, taken from the front. A script that has run out
  answers like a dead broker, and the stop flag is then set, so every run is finite and every finite
  behaviour is the run of some script. The lemmas show that a connection that fails to open leaves
  nothing open, that \<open>next\<close> hands out the records of the messages it took, and that nothing is
  acknowledged before its records were handed to the sink.
\<close>

section \<open>What the library answers\<close>

text \<open>A byte string of the library, whose pointer may be null, and the replies to its calls.\<close>

type_synonym amqp_bytes = "string option"

definition to_string :: "amqp_bytes \<Rightarrow> string" where
  "to_string b = (case b of Some bytes \<Rightarrow> bytes | None \<Rightarrow> [])"

datatype amqp_status = STATUS_TIMEOUT | STATUS_OTHER int

datatype server_method = Connection_close nat amqp_bytes | Channel_close nat amqp_bytes | Method nat

datatype rpc_reply = NORMAL | LIBRARY_EXCEPTION amqp_status | SERVER_EXCEPTION server_method | NONE_REPLY | OTHER_REPLY

text \<open>\<open>error_string\<close> stands for \<open>amqp_error_string2\<close>.\<close>

definition reason_of :: "(amqp_status \<Rightarrow> string) \<Rightarrow> rpc_reply \<Rightarrow> string" where
  "reason_of error_string reply =
     (case reply of
        LIBRARY_EXCEPTION e \<Rightarrow> error_string e
      | SERVER_EXCEPTION (Connection_close code reply_text) \<Rightarrow> dec_of code @ '' '' @ to_string reply_text
      | SERVER_EXCEPTION (Channel_close code reply_text) \<Rightarrow> dec_of code @ '' '' @ to_string reply_text
      | SERVER_EXCEPTION (Method i) \<Rightarrow> ''server error '' @ dec_of i
      | NONE_REPLY \<Rightarrow> ''no reply''
      | _ \<Rightarrow> ''unknown reply'')"

text \<open>\<open>rpc_ok\<close>, and the line it logs when it is not.\<close>

definition rpc_ok :: "rpc_reply \<Rightarrow> bool" where
  "rpc_ok reply \<longleftrightarrow> reply = NORMAL"

definition rpc_line :: "(amqp_status \<Rightarrow> string) \<Rightarrow> rpc_reply \<Rightarrow> string \<Rightarrow> string option" where
  "rpc_line error_string reply what =
     (if rpc_ok reply then None else Some (what @ '' failed: '' @ reason_of error_string reply))"

section \<open>The connection\<close>

record Message =
  body :: string
  msg_type :: string
  tag :: u64

text \<open>
  What waiting for a message brings: an envelope with its body, the type when its flag is set and the
  delivery tag, or a reply that is not \<open>NORMAL\<close>.
\<close>

datatype amqp_reply = Delivered amqp_bytes "amqp_bytes option" u64 | Refused rpc_reply

record open_try =
  url_ok :: bool
  new_ok :: bool
  socket_ok :: bool
  connect_error :: "amqp_status option"
  login :: rpc_reply
  channel_open :: rpc_reply
  basic_qos :: rpc_reply
  basic_consume :: rpc_reply

record World =
  w_opens :: "open_try list"
  w_events :: "amqp_reply list"
  w_acks :: "bool list"
  w_stops :: "bool list"

datatype ConnStatus = C_OK | C_TIMEOUT | C_FAIL

text \<open>The two members of \<open>RabbitConn\<close>, and the world it talks to.\<close>

record RabbitConn =
  m_conn :: bool
  m_channel_open :: bool

definition closed_conn :: RabbitConn where
  "closed_conn = \<lparr>m_conn = False, m_channel_open = False\<rparr>"

definition rabbit_close :: "RabbitConn \<Rightarrow> RabbitConn" where
  "rabbit_close c =
     (if \<not> m_conn c then c
      else let c = (if m_channel_open c then c\<lparr>m_channel_open := False\<rparr> else c)
           in c\<lparr>m_conn := False\<rparr>)"

definition rabbit_open :: "open_try \<Rightarrow> RabbitConn \<Rightarrow> bool \<times> RabbitConn" where
  "rabbit_open t c =
     (let c = rabbit_close c in
      if \<not> url_ok t then (False, c)
      else if \<not> new_ok t then (False, c)
      else
        let c = c\<lparr>m_conn := True\<rparr> in
        if \<not> socket_ok t then (False, rabbit_close c)
        else if connect_error t \<noteq> None then (False, rabbit_close c)
        else if \<not> rpc_ok (login t) then (False, rabbit_close c)
        else if \<not> rpc_ok (channel_open t) then (False, rabbit_close c)
        else
          let c = c\<lparr>m_channel_open := True\<rparr> in
          if \<not> rpc_ok (basic_qos t) then (False, rabbit_close c)
          else if \<not> rpc_ok (basic_consume t) then (False, rabbit_close c)
          else (True, c))"

definition rabbit_consume :: "RabbitConn \<Rightarrow> World \<Rightarrow> (ConnStatus \<times> Message option) \<times> World" where
  "rabbit_consume c w =
     (if \<not> m_conn c \<or> \<not> m_channel_open c then ((C_FAIL, None), w)
      else (case w_events w of
         [] \<Rightarrow> ((C_FAIL, None), w)
       | e # es \<Rightarrow>
           let w = w\<lparr>w_events := es\<rparr> in
           (case e of
              Refused reply \<Rightarrow>
                if reply = LIBRARY_EXCEPTION STATUS_TIMEOUT then ((C_TIMEOUT, None), w) else ((C_FAIL, None), w)
            | Delivered b ty n \<Rightarrow>
                ((C_OK, Some \<lparr>body = to_string b, msg_type = (case ty of None \<Rightarrow> [] | Some x \<Rightarrow> to_string x), tag = n\<rparr>), w))))"

text \<open>The error line of an attempt that fails: the first step that does not succeed.\<close>

definition open_error ::
    "(amqp_status \<Rightarrow> string) \<Rightarrow> string \<Rightarrow> string \<Rightarrow> string \<Rightarrow> open_try \<Rightarrow> string option" where
  "open_error error_string url host port t =
     (if \<not> url_ok t then Some (''bad url: '' @ url)
      else if \<not> new_ok t then Some ''connection failed''
      else if \<not> socket_ok t then Some ''socket failed''
      else case connect_error t of
        Some opened \<Rightarrow> Some (''connect failed '' @ host @ '':'' @ port @ '': '' @ error_string opened)
      | None \<Rightarrow>
          (case rpc_line error_string (login t) ''login'' of Some l \<Rightarrow> Some l | None \<Rightarrow>
          (case rpc_line error_string (channel_open t) ''channel open'' of Some l \<Rightarrow> Some l | None \<Rightarrow>
          (case rpc_line error_string (basic_qos t) ''basic qos'' of Some l \<Rightarrow> Some l | None \<Rightarrow>
            rpc_line error_string (basic_consume t) ''basic consume''))))"

text \<open>The destructor.\<close>

definition rabbit_destroy :: "RabbitConn \<Rightarrow> RabbitConn" where
  "rabbit_destroy c = rabbit_close c"

text \<open>
  \<open>ack\<close>: with \<open>multiple\<close> the broker drops every message up to the tag, without it that message only; what it
  answers is the script's either way.
\<close>

definition rabbit_ack :: "RabbitConn \<Rightarrow> u64 \<Rightarrow> bool \<Rightarrow> World \<Rightarrow> bool \<times> World" where
  "rabbit_ack c n multiple w =
     (if \<not> m_conn c \<or> \<not> m_channel_open c then (False, w)
      else (case w_acks w of [] \<Rightarrow> (False, w) | a # as \<Rightarrow> (a, w\<lparr>w_acks := as\<rparr>)))"

section \<open>The source\<close>

definition kRabbitBatchSize :: nat where "kRabbitBatchSize = kBatchSize"
definition kRabbitPrefetch :: nat where "kRabbitPrefetch = 2 * kRabbitBatchSize"

text \<open>How long one wait for a message lasts, as the seconds and microseconds the library takes.\<close>

definition kPollMs :: nat where "kPollMs = 100"

definition consume_timeval :: "nat \<Rightarrow> nat \<times> nat" where
  "consume_timeval timeout_ms = (timeout_ms div 1000, (timeout_ms mod 1000) * 1000)"

lemma consume_timeval_exact:
  "case consume_timeval timeout_ms of (sec, usec) \<Rightarrow> 1000000 * sec + usec = 1000 * timeout_ms \<and> usec < 1000000"
proof -
  have "1000 * (timeout_ms div 1000) + timeout_ms mod 1000 = timeout_ms" by simp
  then have "1000000 * (timeout_ms div 1000) + timeout_ms mod 1000 * 1000 = 1000 * timeout_ms" by linarith
  moreover have "timeout_ms mod 1000 < 1000" by simp
  ultimately show ?thesis by (simp add: consume_timeval_def)
qed

record RabbitSource =
  r_last_tag :: u64
  r_parsed :: u64
  r_rejected :: u64
  r_stop :: bool

definition new_source :: RabbitSource where
  "new_source = \<lparr>r_last_tag = 0, r_parsed = 0, r_rejected = 0, r_stop = False\<rparr>"

text \<open>The constructor, over the parser the factory has for the format, and \<open>stop\<close>.\<close>

definition make_source :: "'p option \<Rightarrow> string + RabbitSource" where
  "make_source parser = (case parser of None \<Rightarrow> Inl ''Failed to create parser'' | Some p \<Rightarrow> Inr new_source)"

definition source_stop :: "RabbitSource \<Rightarrow> RabbitSource" where
  "source_stop src = src\<lparr>r_stop := True\<rparr>"

text \<open>
  The loop of \<open>next\<close>. The fourth component of the result is a ghost: the messages taken off the
  queue, in order.
\<close>

lemma rabbit_consume_shorter:
  "rabbit_consume c w = ((C_OK, m), w') \<Longrightarrow> length (w_events w') < length (w_events w)"
  by (auto simp: rabbit_consume_def Let_def split: if_splits list.splits amqp_reply.splits)

function rabbit_loop ::
    "(string \<Rightarrow> CdrRecord option) \<Rightarrow> RabbitConn \<Rightarrow> RabbitSource \<Rightarrow> CdrRecord list \<Rightarrow> Message list \<Rightarrow> World
       \<Rightarrow> Status \<times> CdrRecord list \<times> RabbitSource \<times> Message list \<times> World" where
  "rabbit_loop parser c src out taken_msgs w =
     (if \<not> r_stop src \<and> length out < kRabbitBatchSize then
        (case rabbit_consume c w of
           ((C_OK, Some msg), w') \<Rightarrow>
             (case parser (body msg) of
                Some r \<Rightarrow> rabbit_loop parser c
                   (src\<lparr>r_parsed := r_parsed src + 1, r_last_tag := tag msg\<rparr>) (out @ [r]) (taken_msgs @ [msg]) w'
              | None \<Rightarrow> rabbit_loop parser c
                   (src\<lparr>r_rejected := r_rejected src + 1, r_last_tag := tag msg\<rparr>) out (taken_msgs @ [msg]) w')
         | ((C_FAIL, m), w') \<Rightarrow> (FAIL, out, src, taken_msgs, w')
         | ((st, m), w') \<Rightarrow> (OK, out, src, taken_msgs, w'))
      else (if r_stop src then DONE else OK, out, src, taken_msgs, w))"
  by pat_completeness auto

termination
  by (relation "measure (\<lambda>(parser, c, src, out, t, w). length (w_events w))")
    (auto dest: rabbit_consume_shorter [OF sym])

declare rabbit_loop.simps [simp del]

definition rabbit_next ::
    "(string \<Rightarrow> CdrRecord option) \<Rightarrow> RabbitConn \<Rightarrow> RabbitSource \<Rightarrow> World
       \<Rightarrow> Status \<times> CdrRecord list \<times> RabbitSource \<times> Message list \<times> World" where
  "rabbit_next parser c src w = rabbit_loop parser c src [] [] w"

section \<open>The consumer thread\<close>

definition kRabbitBackoffMinMs :: nat where "kRabbitBackoffMinMs = 250"
definition kRabbitBackoffMaxMs :: nat where "kRabbitBackoffMaxMs = 10000"
definition kRabbitBackoffSliceMs :: nat where "kRabbitBackoffSliceMs = 100"

text \<open>One look at the stop flag.\<close>

definition stop_set :: "World \<Rightarrow> bool \<times> World" where
  "stop_set w = (case w_stops w of [] \<Rightarrow> (True, w) | b # bs \<Rightarrow> (b, w\<lparr>w_stops := bs\<rparr>))"

text \<open>\<open>backoff\<close>: sleeps in slices; the result is the milliseconds slept.\<close>

function rabbit_backoff :: "nat \<Rightarrow> World \<Rightarrow> nat \<times> World" where
  "rabbit_backoff left_ms w =
     (if 0 < left_ms then
        (let (stopped, w) = stop_set w in
         if stopped then (0, w)
         else
           let slice = min left_ms kRabbitBackoffSliceMs;
               (slept, w) = rabbit_backoff (left_ms - slice) w
           in (slice + slept, w))
      else (0, w))"
  by pat_completeness auto

termination
  by (relation "measure fst") (auto simp: kRabbitBackoffSliceMs_def)

declare rabbit_backoff.simps [simp del]

text \<open>What a consumer does, as seen from outside: a ghost of the code.\<close>

datatype trace = T_open | T_taken Message | T_consume "CdrRecord list" | T_ack u64 bool

record 's Consumer =
  k_sink :: 's
  k_total :: u64
  k_rejected :: u64
  k_delay :: nat
  k_down :: bool
  k_trace :: "trace list"

lemma stop_set_shorter: "stop_set w = (False, w') \<Longrightarrow> length (w_stops w') < length (w_stops w)"
  by (auto simp: stop_set_def split: list.splits)

lemma stop_set_le: "stop_set w = (b, w') \<Longrightarrow> length (w_stops w') \<le> length (w_stops w)"
  by (auto simp: stop_set_def split: list.splits)

lemma rabbit_consume_stops: "rabbit_consume c w = (r, w') \<Longrightarrow> w_stops w' = w_stops w"
  by (auto simp: rabbit_consume_def Let_def split: if_splits list.splits amqp_reply.splits)

lemma rabbit_loop_stops:
  "rabbit_loop parser c src out t w = (st, out', src', t', w') \<Longrightarrow> w_stops w' = w_stops w"
proof (induction parser c src out t w rule: rabbit_loop.induct)
  case (1 parser c src out t w)
  show ?case
  proof (cases "\<not> r_stop src \<and> length out < kRabbitBatchSize")
    case False
    then show ?thesis using "1.prems" by (auto simp: rabbit_loop.simps [of parser c src out])
  next
    case True
    obtain cs m w1 where r: "rabbit_consume c w = ((cs, m), w1)" by (metis prod.exhaust)
    note eq = "1.prems" [unfolded rabbit_loop.simps [of parser c src out] if_P [OF True] r prod.case]
    show ?thesis using rabbit_consume_stops [OF r] "1.IH" [OF True r [symmetric] refl] eq
      by (cases cs; cases m) (auto split: option.splits)
  qed
qed


text \<open>
  The body of the inner loop, from one look at the stop flag to the next: the first component
  tells whether the loop goes on.
\<close>

definition inner_body ::
    "'s ISink \<Rightarrow> (string \<Rightarrow> CdrRecord option) \<Rightarrow> RabbitConn \<Rightarrow> RabbitSource \<times> 's Consumer \<times> World
       \<Rightarrow> bool \<times> RabbitSource \<times> 's Consumer \<times> World" where
  "inner_body sk parser c = (\<lambda>(src, k, w).
     let (stopped, w) = stop_set w in
     if stopped then (False, src, k, w)
     else
       let (st, batch, src, msgs, w) = rabbit_next parser c src w;
           k = k\<lparr>k_trace := k_trace k @ map T_taken msgs\<rparr> in
       if st = FAIL then (False, src, k, w)
       else if batch = [] then (True, src, k, w)
       else
         let k = k\<lparr>k_sink := sk_consume sk batch [] (k_sink k),
                   k_total := k_total k + of_nat (length batch),
                   k_trace := k_trace k @ [T_consume batch, T_ack (r_last_tag src) True]\<rparr>;
             (acked, w) = rabbit_ack c (r_last_tag src) True w
         in (acked, src, k, w))"

lemma rabbit_next_stops:
  "rabbit_next parser c src w = (st, out, src', t, w') \<Longrightarrow> w_stops w' = w_stops w"
  by (simp add: rabbit_next_def rabbit_loop_stops)

lemma rabbit_ack_stops: "rabbit_ack c n multiple w = (b, w') \<Longrightarrow> w_stops w' = w_stops w"
  by (auto simp: rabbit_ack_def split: if_splits list.splits)

text \<open>The ways one turn of the loop may go.\<close>

lemma inner_body_cases:
  assumes "inner_body sk parser c (src, k, w) = (go, src', k', w')"
  obtains (stopped) "\<not> go" "src' = src" "k' = k" "stop_set w = (True, w')"
    | (turn) w1 st batch msgs w2 where "stop_set w = (False, w1)"
        "rabbit_next parser c src w1 = (st, batch, src', msgs, w2)"
        "st = FAIL \<and> \<not> go \<or> st \<noteq> FAIL \<and> batch = [] \<and> go"
        "k' = k\<lparr>k_trace := k_trace k @ map T_taken msgs\<rparr>" "w' = w2"
    | (batch) w1 st batch msgs w2 where "stop_set w = (False, w1)"
        "rabbit_next parser c src w1 = (st, batch, src', msgs, w2)" "st \<noteq> FAIL" "batch \<noteq> []"
        "k' = k\<lparr>k_sink := sk_consume sk batch [] (k_sink k), k_total := k_total k + of_nat (length batch),
           k_trace := k_trace k @ map T_taken msgs @ [T_consume batch, T_ack (r_last_tag src') True]\<rparr>"
        "rabbit_ack c (r_last_tag src') True w2 = (go, w')"
proof -
  obtain b w1 where 1: "stop_set w = (b, w1)" by (cases "stop_set w")
  obtain st out src1 msgs w2 where 2: "rabbit_next parser c src w1 = (st, out, src1, msgs, w2)"
    using prod_cases5 by blast
  obtain a w3 where 3: "rabbit_ack c (r_last_tag src1) True w2 = (a, w3)"
    by (cases "rabbit_ack c (r_last_tag src1) True w2")
  note eq = assms [unfolded inner_body_def prod.case 1 2 3 Let_def]
  show thesis
  proof (cases b)
    case True
    then show thesis using eq 1 stopped by simp
  next
    case False
    then have 1: "stop_set w = (False, w1)" using 1 by simp
    show thesis
    proof (cases "st = FAIL \<or> out = []")
      case True
      then show thesis using eq False turn [OF 1, of st out msgs w2] 2 by (auto split: if_splits)
    next
      case f: False
      then show thesis using eq False 2 3 by (intro batch [OF 1]) auto
    qed
  qed
qed

lemma inner_body_stops:
  assumes "inner_body sk parser c (src, k, w) = (go, src', k', w')"
  shows "length (w_stops w') \<le> length (w_stops w) \<and> (go \<longrightarrow> length (w_stops w') < length (w_stops w))"
  using assms
proof (cases rule: inner_body_cases)
  case stopped
  then show ?thesis using stop_set_le by simp
next
  case turn
  then show ?thesis using stop_set_shorter [OF turn(1)] rabbit_next_stops [OF turn(2)] by simp
next
  case batch
  then show ?thesis
    using stop_set_shorter [OF batch(1)] rabbit_next_stops [OF batch(2)] rabbit_ack_stops [OF batch(6)] by simp
qed

text \<open>The inner loop: batches from one connection until it breaks or the thread is stopped.\<close>

function consumer_inner ::
    "'s ISink \<Rightarrow> (string \<Rightarrow> CdrRecord option) \<Rightarrow> RabbitConn \<Rightarrow> RabbitSource \<times> 's Consumer \<times> World
       \<Rightarrow> RabbitSource \<times> 's Consumer \<times> World" where
  "consumer_inner sk parser c x =
     (case inner_body sk parser c x of
        (True, x) \<Rightarrow> consumer_inner sk parser c x
      | (False, x) \<Rightarrow> x)"
  by pat_completeness auto

termination
proof (relation "measure (\<lambda>(sk, parser, c, (src, k, w)). length (w_stops w))", goal_cases)
  case (2 sk parser c x go x')
  obtain src k w src' k' w' where x: "x = (src, k, w)" "x' = (src', k', w')" by (metis prod_cases3)
  show ?case using 2 inner_body_stops [of sk parser c src k w True src' k' w'] by (simp add: x)
qed simp

declare consumer_inner.simps [simp del]

text \<open>An invariant of the turns that go on gives what the last turn makes of it.\<close>

lemma consumer_inner_rule:
  assumes "\<And>x x'. P x \<Longrightarrow> inner_body sk parser c x = (True, x') \<Longrightarrow> P x'"
    and "\<And>x x'. P x \<Longrightarrow> inner_body sk parser c x = (False, x') \<Longrightarrow> Q x'" and "P x"
  shows "Q (consumer_inner sk parser c x)"
  using assms
proof (induction sk parser c x rule: consumer_inner.induct)
  case (1 sk parser c x)
  obtain go x' where b: "inner_body sk parser c x = (go, x')" by (cases "inner_body sk parser c x")
  show ?case
  proof (cases go)
    case True
    have b': "inner_body sk parser c x = (True, x')" using b True by simp
    have "Q (consumer_inner sk parser c x')"
      using "1.IH" [OF b' [symmetric] refl] "1.prems"(1) [OF "1.prems"(3) b'] "1.prems"(1,2) by blast
    then show ?thesis by (subst consumer_inner.simps) (simp add: b')
  next
    case False
    then show ?thesis using "1.prems"(2) [OF "1.prems"(3)] b by (subst consumer_inner.simps) simp
  qed
qed

lemma consumer_inner_keeps:
  assumes "\<And>x go x'. P x \<Longrightarrow> inner_body sk parser c x = (go, x') \<Longrightarrow> P x'" and "P x"
  shows "P (consumer_inner sk parser c x)"
  using consumer_inner_rule [of P sk parser c P x] assms by blast

lemma consumer_inner_stops:
  "consumer_inner sk parser c (src, k, w) = (src', k', w') \<Longrightarrow> length (w_stops w') \<le> length (w_stops w)"
  using consumer_inner_keeps [of "\<lambda>(src, k, v). length (w_stops v) \<le> length (w_stops w)" sk parser c "(src, k, w)"]
    inner_body_stops [of sk parser c] by fastforce

definition next_open :: "World \<Rightarrow> open_try \<times> World" where
  "next_open w = (case w_opens w of
     [] \<Rightarrow> (\<lparr>url_ok = False, new_ok = False, socket_ok = False, connect_error = None, login = NONE_REPLY,
             channel_open = NONE_REPLY, basic_qos = NONE_REPLY, basic_consume = NONE_REPLY\<rparr>, w)
   | t # ts \<Rightarrow> (t, w\<lparr>w_opens := ts\<rparr>))"

text \<open>The body of the outer loop.\<close>

definition outer_body ::
    "'s ISink \<Rightarrow> (string \<Rightarrow> CdrRecord option) \<Rightarrow> RabbitConn \<times> 's Consumer \<times> World
       \<Rightarrow> bool \<times> RabbitConn \<times> 's Consumer \<times> World" where
  "outer_body sk parser = (\<lambda>(c, k, w).
     let (stopped, w) = stop_set w in
     if stopped then (False, c, k, w)
     else
       let (t, w) = next_open w; (opened, c) = rabbit_open t c in
       if \<not> opened then
         let delay = (if k_delay k \<noteq> 0 then min (k_delay k * 2) kRabbitBackoffMaxMs else kRabbitBackoffMinMs)
         in (True, c, k\<lparr>k_delay := delay, k_down := True\<rparr>, snd (rabbit_backoff delay w))
       else
         let k = k\<lparr>k_delay := 0, k_down := False, k_trace := k_trace k @ [T_open]\<rparr>;
             (src, k, w) = consumer_inner sk parser c (new_source, k, w)
         in (True, c, k\<lparr>k_rejected := k_rejected k + r_rejected src\<rparr>, w))"

lemma next_open_stops: "next_open w = (t, w') \<Longrightarrow> w_stops w' = w_stops w"
  by (auto simp: next_open_def split: list.splits)

lemma rabbit_backoff_stops: "length (w_stops (snd (rabbit_backoff n w))) \<le> length (w_stops w)"
proof (induction n w rule: rabbit_backoff.induct)
  case (1 n w)
  obtain b w1 where s: "stop_set w = (b, w1)" by (cases "stop_set w")
  show ?case
  proof (cases "0 < n \<and> \<not> b")
    case True
    then show ?thesis using "1.IH" [OF conjunct1 [OF True] refl, unfolded s, OF refl conjunct2 [OF True] refl] stop_set_le [OF s]
      by (subst rabbit_backoff.simps) (auto simp: s Let_def split: prod.splits)
  next
    case False
    then show ?thesis using stop_set_le [OF s] by (subst rabbit_backoff.simps) (auto simp: s)
  qed
qed

text \<open>The ways one turn of the outer loop may go.\<close>

lemma outer_body_cases:
  assumes "outer_body sk parser (c, k, w) = (go, c', k', w')"
  obtains (stopped) "\<not> go" "c' = c" "k' = k" "stop_set w = (True, w')"
    | (refused) w1 t w2 delay where "go" "stop_set w = (False, w1)" "next_open w1 = (t, w2)"
        "rabbit_open t c = (False, c')" "k' = k\<lparr>k_delay := delay, k_down := True\<rparr>"
        "delay = (if k_delay k \<noteq> 0 then min (k_delay k * 2) kRabbitBackoffMaxMs else kRabbitBackoffMinMs)"
        "w' = snd (rabbit_backoff delay w2)"
    | (opened) w1 t w2 src k1 where "go" "stop_set w = (False, w1)" "next_open w1 = (t, w2)"
        "rabbit_open t c = (True, c')"
        "consumer_inner sk parser c' (new_source,
           k\<lparr>k_delay := 0, k_down := False, k_trace := k_trace k @ [T_open]\<rparr>, w2) = (src, k1, w')"
        "k' = k1\<lparr>k_rejected := k_rejected k1 + r_rejected src\<rparr>"
proof -
  obtain b w1 where 1: "stop_set w = (b, w1)" by (cases "stop_set w")
  obtain t w2 where 2: "next_open w1 = (t, w2)" by (cases "next_open w1")
  obtain o1 c1 where 3: "rabbit_open t c = (o1, c1)" by (cases "rabbit_open t c")
  note eq = assms [unfolded outer_body_def prod.case 1 2 3 Let_def]
  show thesis
  proof (cases b)
    case True
    then show thesis using eq 1 stopped by simp
  next
    case False
    then have 1: "stop_set w = (False, w1)" using 1 by simp
    show thesis
    proof (cases o1)
      case True
      obtain src k1 w3 where 4: "consumer_inner sk parser c1 (new_source,
           k\<lparr>k_delay := 0, k_down := False, k_trace := k_trace k @ [T_open]\<rparr>, w2) = (src, k1, w3)"
        using prod_cases3 by blast
      then show thesis using eq False True 3 by (intro opened [OF _ 1 2, where src = src and ?k1.0 = k1]) auto
    next
      case f: False
      then show thesis using eq False 3 by (intro refused [OF _ 1 2]) auto
    qed
  qed
qed

lemma outer_body_stops:
  assumes "outer_body sk parser (c, k, w) = (go, c', k', w')" "go"
  shows "length (w_stops w') < length (w_stops w)"
  using assms(1)
proof (cases rule: outer_body_cases)
  case (refused w1 t w2 delay)
  then show ?thesis
    using stop_set_shorter [OF refused(2)] next_open_stops [OF refused(3)] rabbit_backoff_stops [of delay w2] by simp
next
  case opened
  then show ?thesis
    using stop_set_shorter [OF opened(2)] next_open_stops [OF opened(3)] consumer_inner_stops [OF opened(5)] by simp
qed (use assms in simp)

function consumer_loop ::
    "'s ISink \<Rightarrow> (string \<Rightarrow> CdrRecord option) \<Rightarrow> RabbitConn \<times> 's Consumer \<times> World
       \<Rightarrow> RabbitConn \<times> 's Consumer \<times> World" where
  "consumer_loop sk parser x =
     (case outer_body sk parser x of
        (True, x) \<Rightarrow> consumer_loop sk parser x
      | (False, x) \<Rightarrow> x)"
  by pat_completeness auto

termination
proof (relation "measure (\<lambda>(sk, parser, (c, k, w)). length (w_stops w))", goal_cases)
  case (2 sk parser x go x')
  obtain c k w c' k' w' where x: "x = (c, k, w)" "x' = (c', k', w')" by (metis prod_cases3)
  show ?case using 2 outer_body_stops [of sk parser c k w True c' k' w'] by (simp add: x)
qed simp

declare consumer_loop.simps [simp del]

lemma consumer_loop_keeps:
  assumes "\<And>x go x'. P x \<Longrightarrow> outer_body sk parser x = (go, x') \<Longrightarrow> P x'" and "P x"
  shows "P (consumer_loop sk parser x)"
  using assms
proof (induction sk parser x rule: consumer_loop.induct)
  case (1 sk parser x)
  obtain go x' where b: "outer_body sk parser x = (go, x')" by (cases "outer_body sk parser x")
  have "P x'" by (rule "1.prems"(1) [OF "1.prems"(2) b])
  then show ?case using "1.IH" [of go x'] "1.prems"(1) b
    by (subst consumer_loop.simps) (auto split: bool.split)
qed

text \<open>One consumer thread from its start.\<close>

definition run_consumer :: "'s ISink \<Rightarrow> (string \<Rightarrow> CdrRecord option) \<Rightarrow> 's \<Rightarrow> World \<Rightarrow> 's Consumer" where
  "run_consumer sk parser s w = fst (snd (consumer_loop sk parser (closed_conn,
     \<lparr>k_sink = s, k_total = 0, k_rejected = 0, k_delay = 0, k_down = False, k_trace = []\<rparr>, w)))"

section \<open>What is acknowledged\<close>

text \<open>The records of messages, as the parser finds them.\<close>

definition parsed :: "(string \<Rightarrow> CdrRecord option) \<Rightarrow> Message list \<Rightarrow> CdrRecord list" where
  "parsed parser msgs = List.map_filter (\<lambda>m. parser (body m)) msgs"

lemma parsed_append [simp]: "parsed parser (a @ b) = parsed parser a @ parsed parser b"
  by (simp add: parsed_def map_filter_def)

lemma parsed_single [simp]:
  "parsed parser [] = []" "parsed parser [m] = (case parser (body m) of None \<Rightarrow> [] | Some r \<Rightarrow> [r])"
  by (simp_all add: parsed_def map_filter_def split: option.split)

lemma parsed_Cons: "parsed parser (m # ms) = (case parser (body m) of None \<Rightarrow> [] | Some r \<Rightarrow> [r]) @ parsed parser ms"
  using parsed_append [of parser "[m]" ms] by simp

lemma rabbit_loop_spec:
  "rabbit_loop parser c src out t w = (st, out', src', t', w') \<Longrightarrow> length out \<le> kRabbitBatchSize \<Longrightarrow>
     \<exists>new. t' = t @ new \<and> out' = out @ parsed parser new \<and> length out' \<le> kRabbitBatchSize
       \<and> r_last_tag src' = (if new = [] then r_last_tag src else tag (last new))
       \<and> r_stop src' = r_stop src \<and> (st = DONE \<longrightarrow> r_stop src)
       \<and> r_parsed src' = r_parsed src + of_nat (length (parsed parser new))
       \<and> r_rejected src' = r_rejected src + of_nat (length new - length (parsed parser new))
       \<and> length (parsed parser new) \<le> length new"
proof (induction parser c src out t w rule: rabbit_loop.induct)
  case (1 parser c src out t w)
  show ?case
  proof (cases "\<not> r_stop src \<and> length out < kRabbitBatchSize")
    case False
    then show ?thesis using "1.prems" by (auto simp: rabbit_loop.simps [of parser c src out] intro!: exI [of _ "[]"] split: if_splits)
  next
    case True
    obtain cs m w1 where r: "rabbit_consume c w = ((cs, m), w1)" by (metis prod.exhaust)
    note eq = "1.prems"(1) [unfolded rabbit_loop.simps [of parser c src out] if_P [OF True] r prod.case]
    show ?thesis
    proof (cases "cs = C_OK \<and> m \<noteq> None")
      case False
      then show ?thesis using eq "1.prems"(2)
        by (cases cs; cases m) (auto intro!: exI [of _ "[]"])
    next
      case ok: True
      then obtain msg where m: "cs = C_OK" "m = Some msg" by auto
      note r' = r [unfolded m]
      show ?thesis
      proof (cases "parser (body msg)")
        case None
        then have e: "rabbit_loop parser c (src\<lparr>r_rejected := r_rejected src + 1, r_last_tag := tag msg\<rparr>) out
            (t @ [msg]) w1 = (st, out', src', t', w')" using eq m by simp
        from "1.IH"(1) [OF True r' [symmetric] refl refl refl None e "1.prems"(2)]
        obtain new where "t' = (t @ [msg]) @ new" "out' = out @ parsed parser new" "length out' \<le> kRabbitBatchSize"
          "r_last_tag src' = (if new = [] then tag msg else tag (last new))" "r_stop src' = r_stop src"
          "st = DONE \<longrightarrow> r_stop src" "r_parsed src' = r_parsed src + of_nat (length (parsed parser new))"
          "r_rejected src' = r_rejected src + 1 + of_nat (length new - length (parsed parser new))"
          "length (parsed parser new) \<le> length new" by auto
        then show ?thesis using None
          by (intro exI [of _ "msg # new"]) (auto simp: parsed_Cons Suc_diff_le)
      next
        case (Some rec)
        then have e: "rabbit_loop parser c (src\<lparr>r_parsed := r_parsed src + 1, r_last_tag := tag msg\<rparr>) (out @ [rec])
            (t @ [msg]) w1 = (st, out', src', t', w')" using eq m by simp
        from "1.IH"(2) [OF True r' [symmetric] refl refl refl Some e] True
        obtain new where "t' = (t @ [msg]) @ new" "out' = (out @ [rec]) @ parsed parser new" "length out' \<le> kRabbitBatchSize"
          "r_last_tag src' = (if new = [] then tag msg else tag (last new))" "r_stop src' = r_stop src"
          "st = DONE \<longrightarrow> r_stop src" "r_parsed src' = r_parsed src + 1 + of_nat (length (parsed parser new))"
          "r_rejected src' = r_rejected src + of_nat (length new - length (parsed parser new))"
          "length (parsed parser new) \<le> length new" by auto
        then show ?thesis using Some
          by (intro exI [of _ "msg # new"]) (auto simp: parsed_Cons)
      qed
    qed
  qed
qed


text \<open>
  Reading a trace from the left: whether every acknowledgement so far was covered, the messages
  taken since the connection was opened, and the records handed to the sink since then. An
  acknowledgement of tag \<open>n\<close> drops every message up to \<open>n\<close>; it is covered when these are exactly
  the messages taken and the records of all of them were handed over.
\<close>

fun tr_step ::
    "(string \<Rightarrow> CdrRecord option) \<Rightarrow> bool \<times> Message list \<times> CdrRecord list \<Rightarrow> trace
       \<Rightarrow> bool \<times> Message list \<times> CdrRecord list" where
  "tr_step parser (good, d, c) T_open = (good, [], [])"
| "tr_step parser (good, d, c) (T_taken m) = (good, d @ [m], c)"
| "tr_step parser (good, d, c) (T_consume b) = (good, d, c @ b)"
| "tr_step parser (good, d, c) (T_ack n multiple) =
     (good \<and> multiple \<and> c = parsed parser d \<and> d \<noteq> [] \<and> tag (last d) = n, d, c)"

definition tr_state :: "(string \<Rightarrow> CdrRecord option) \<Rightarrow> trace list \<Rightarrow> bool \<times> Message list \<times> CdrRecord list" where
  "tr_state parser tr = foldl (tr_step parser) (True, [], []) tr"

definition acks_covered :: "(string \<Rightarrow> CdrRecord option) \<Rightarrow> trace list \<Rightarrow> bool" where
  "acks_covered parser tr = fst (tr_state parser tr)"

text \<open>The batches a trace hands to the sink.\<close>

definition consumed :: "trace list \<Rightarrow> CdrRecord list list" where
  "consumed tr = List.map_filter (\<lambda>e. case e of T_consume b \<Rightarrow> Some b | _ \<Rightarrow> None) tr"

lemma consumed_simps [simp]:
  "consumed (a @ b) = consumed a @ consumed b" "consumed [] = []"
  "consumed (T_open # tr) = consumed tr" "consumed (T_ack n multiple # tr) = consumed tr"
  "consumed (T_consume bt # tr) = bt # consumed tr" "consumed (T_taken m # tr) = consumed tr" "consumed (map T_taken ms) = []"
  by (induction ms) (simp_all add: consumed_def map_filter_def)

lemma tr_state_simps [simp]:
  "tr_state parser [] = (True, [], [])" "tr_state parser (tr @ [e]) = tr_step parser (tr_state parser tr) e"
  by (simp_all add: tr_state_def)

lemma tr_state_append: "tr_state parser (a @ b) = foldl (tr_step parser) (tr_state parser a) b"
  by (simp add: tr_state_def)

lemma tr_taken: "foldl (tr_step parser) (good, d, c) (map T_taken ms) = (good, d @ ms, c)"
  by (induction ms arbitrary: d) simp_all

text \<open>While the loop goes on, everything taken has been handed over.\<close>

definition settled :: "(string \<Rightarrow> CdrRecord option) \<Rightarrow> RabbitSource \<times> 's Consumer \<times> World \<Rightarrow> bool" where
  "settled parser = (\<lambda>(src, k, w). \<not> r_stop src
     \<and> (\<exists>d. tr_state parser (k_trace k) = (True, d, parsed parser d) \<and> (d \<noteq> [] \<longrightarrow> r_last_tag src = tag (last d))))"

lemma rabbit_next_spec:
  assumes "rabbit_next parser c src w = (st, batch, src', msgs, w')" "\<not> r_stop src"
  shows "batch = parsed parser msgs \<and> length batch \<le> kRabbitBatchSize \<and> \<not> r_stop src' \<and> st \<noteq> DONE
    \<and> r_last_tag src' = (if msgs = [] then r_last_tag src else tag (last msgs))"
  using rabbit_loop_spec [OF assms(1) [unfolded rabbit_next_def]] assms(2) by auto

lemma settled_body:
  assumes "settled parser x" "inner_body sk parser c x = (go, x')"
  shows "(go \<longrightarrow> settled parser x') \<and> acks_covered parser (k_trace (fst (snd x')))"
proof -
  obtain src k w src' k' w' where x: "x = (src, k, w)" "x' = (src', k', w')" by (metis prod_cases3)
  from assms(1) obtain d where d: "\<not> r_stop src" "tr_state parser (k_trace k) = (True, d, parsed parser d)"
    "d \<noteq> [] \<longrightarrow> r_last_tag src = tag (last d)" by (auto simp: settled_def x)
  from assms(2) [unfolded x] show ?thesis
  proof (cases rule: inner_body_cases)
    case stopped
    then show ?thesis using d by (simp add: x acks_covered_def)
  next
    case (turn w1 st batch msgs w2)
    note n = rabbit_next_spec [OF turn(2) d(1)]
    have "tr_state parser (k_trace k') = (True, d @ msgs, parsed parser d)"
      using d turn(4) by (simp add: tr_state_append tr_taken)
    then show ?thesis using turn(3) n d by (auto simp: x acks_covered_def settled_def)
  next
    case (batch w1 st batch msgs w2)
    note n = rabbit_next_spec [OF batch(2) d(1)]
    then have ne: "msgs \<noteq> []" using batch(4) by auto
    have "tr_state parser (k_trace k') = (True, d @ msgs, parsed parser (d @ msgs))"
      using d batch(5) n ne by (simp add: tr_state_append tr_taken)
    then show ?thesis using n d ne by (auto simp: x acks_covered_def settled_def)
  qed
qed

lemma inner_covered:
  assumes "acks_covered parser (k_trace k)"
  shows "acks_covered parser (k_trace (fst (snd (consumer_inner sk parser c
    (new_source, k\<lparr>k_delay := 0, k_down := False, k_trace := k_trace k @ [T_open]\<rparr>, w)))))"
proof (rule consumer_inner_rule [where P = "settled parser"])
  obtain g d e where "tr_state parser (k_trace k) = (g, d, e)" using prod_cases3 by blast
  then show "settled parser (new_source, k\<lparr>k_delay := 0, k_down := False, k_trace := k_trace k @ [T_open]\<rparr>, w)"
    using assms by (simp add: settled_def new_source_def acks_covered_def)
qed (use settled_body in blast)+

lemma outer_covered:
  assumes "acks_covered parser (k_trace (fst (snd x)))" "outer_body sk parser x = (go, x')"
  shows "acks_covered parser (k_trace (fst (snd x')))"
proof -
  obtain c k w c' k' w' where x: "x = (c, k, w)" "x' = (c', k', w')" by (metis prod_cases3)
  from assms(2) [unfolded x] show ?thesis
  proof (cases rule: outer_body_cases)
    case (opened w1 t w2 src k1)
    then show ?thesis using inner_covered [of parser k sk c' w2] assms(1) by (simp add: x)
  qed (use assms(1) in \<open>simp_all add: x\<close>)
qed

text \<open>The sink's state and the count of records follow the batches handed over.\<close>

definition handed :: "'s ISink \<Rightarrow> 's \<Rightarrow> 's Consumer \<Rightarrow> bool" where
  "handed sk s0 k \<longleftrightarrow> k_sink k = foldl (\<lambda>s b. sk_consume sk b [] s) s0 (consumed (k_trace k))
     \<and> k_total k = of_nat (length (concat (consumed (k_trace k))))
     \<and> list_all (\<lambda>b. b \<noteq> []) (consumed (k_trace k))"

lemma handed_body:
  assumes "handed sk s0 (fst (snd x))" "inner_body sk parser c x = (go, x')"
  shows "handed sk s0 (fst (snd x'))"
proof -
  obtain src k w src' k' w' where x: "x = (src, k, w)" "x' = (src', k', w')" by (metis prod_cases3)
  from assms(2) [unfolded x] show ?thesis
    by (cases rule: inner_body_cases) (use assms(1) in \<open>simp_all add: x handed_def\<close>)
qed

lemma handed_outer:
  assumes "handed sk s0 (fst (snd x))" "outer_body sk parser x = (go, x')"
  shows "handed sk s0 (fst (snd x'))"
proof -
  obtain c k w c' k' w' where x: "x = (c, k, w)" "x' = (c', k', w')" by (metis prod_cases3)
  from assms(2) [unfolded x] show ?thesis
  proof (cases rule: outer_body_cases)
    case (opened w1 t w2 src k1)
    let ?k = "k\<lparr>k_delay := 0, k_down := False, k_trace := k_trace k @ [T_open]\<rparr>"
    have "handed sk s0 (fst (snd (consumer_inner sk parser c' (new_source, ?k, w2))))"
      by (rule consumer_inner_keeps, rule handed_body) (use assms(1) in \<open>auto simp: x handed_def\<close>)
    then show ?thesis using opened by (simp add: x handed_def)
  qed (use assms(1) in \<open>simp_all add: x handed_def\<close>)
qed

section \<open>Properties\<close>

text \<open>
  C9: No message is lost by an early acknowledgement. In any run of a consumer, whatever the
  broker, the network and the stop flag do, every acknowledgement it sends covers exactly the
  messages taken since the connection was opened, the records of all of them were handed to the
  sink before, and no others; and what the sink received is exactly the batches of the trace, none
  of them empty, counted in the consumer's total.
\<close>

theorem rabbit_acks_covered:
  "let k = run_consumer sk parser s w in
     acks_covered parser (k_trace k)
     \<and> k_sink k = foldl (\<lambda>s b. sk_consume sk b [] s) s (consumed (k_trace k))
     \<and> list_all (\<lambda>b. b \<noteq> []) (consumed (k_trace k))
     \<and> k_total k = of_nat (length (concat (consumed (k_trace k))))"
proof -
  let ?x = "(closed_conn, \<lparr>k_sink = s, k_total = 0, k_rejected = 0, k_delay = 0, k_down = False, k_trace = []\<rparr>, w)"
  have "acks_covered parser (k_trace (fst (snd (consumer_loop sk parser ?x))))"
    by (rule consumer_loop_keeps, rule outer_covered) (auto simp: acks_covered_def)
  moreover have "handed sk s (fst (snd (consumer_loop sk parser ?x)))"
    by (rule consumer_loop_keeps, rule handed_outer) (auto simp: handed_def)
  ultimately show ?thesis by (simp add: run_consumer_def Let_def handed_def)
qed

lemma rabbit_open_error: "fst (rabbit_open t c) \<longleftrightarrow> open_error error_string url host port t = None"
  by (simp add: rabbit_open_def open_error_def rpc_line_def Let_def split: option.split)

lemma rabbit_open_flags:
  "rabbit_open t c = (good, c') \<Longrightarrow>
     m_conn c' = good \<and> (m_conn c' \<and> m_channel_open c') = good"
  by (cases "m_conn c"; cases "m_channel_open c")
    (auto simp: rabbit_open_def rabbit_close_def Let_def split: if_splits)

text \<open>
  C37: A connection that fails to open leaves nothing open, whatever step failed and whatever was
  open before; one that opens has both its connection and its channel, and only then do \<open>consume\<close>
  and \<open>ack\<close> reach the broker. Exactly the attempts that fail log an error, which names the step.
\<close>

theorem rabbit_open_all_or_nothing:
  "case rabbit_open t c of (good, c') \<Rightarrow>
     m_conn c' = good \<and> (m_conn c' \<and> m_channel_open c') = good
     \<and> (good \<or> fst (rabbit_consume c' w) = (C_FAIL, None))
     \<and> \<not> (\<not> good \<and> fst (rabbit_ack c' n multiple w))
     \<and> good = (open_error error_string url host port t = None)"
proof -
  obtain good c' where o: "rabbit_open t c = (good, c')" by (cases "rabbit_open t c")
  from rabbit_open_flags [OF o] show ?thesis
    using rabbit_open_error [of t c error_string url host port] by (cases good) (simp_all add: o rabbit_consume_def rabbit_ack_def)
qed

text \<open>
  The turns of a consumer: it opens the connection, takes messages and goes on, or takes messages of
  which at least one is a record, hands over the records and acknowledges the last message and all before it.
\<close>

definition turn_ok :: "(string \<Rightarrow> CdrRecord option) \<Rightarrow> trace list \<Rightarrow> bool" where
  "turn_ok parser t \<longleftrightarrow> t = [T_open] \<or> (\<exists>ms. t = map T_taken ms)
     \<or> (\<exists>ms. parsed parser ms \<noteq> [] \<and> t = map T_taken ms @ [T_consume (parsed parser ms), T_ack (tag (last ms)) True])"

definition turns :: "(string \<Rightarrow> CdrRecord option) \<Rightarrow> trace list \<Rightarrow> bool" where
  "turns parser tr \<longleftrightarrow> (\<exists>ts. list_all (turn_ok parser) ts \<and> tr = concat ts)"

lemma turns_intros:
  "turns parser []" "turns parser tr \<Longrightarrow> turn_ok parser t \<Longrightarrow> turns parser (tr @ t)"
proof -
  show "turns parser []" unfolding turns_def by (rule exI [of _ "[]"]) simp
  assume "turns parser tr" "turn_ok parser t"
  then obtain ts where "list_all (turn_ok parser) (ts @ [t])" "tr @ t = concat (ts @ [t])" by (auto simp: turns_def)
  then show "turns parser (tr @ t)" unfolding turns_def by blast
qed

lemma turns_body:
  assumes "turns parser (k_trace (fst (snd x))) \<and> \<not> r_stop (fst x)" "inner_body sk parser c x = (go, x')"
  shows "turns parser (k_trace (fst (snd x'))) \<and> \<not> r_stop (fst x')"
proof -
  obtain src k w src' k' w' where x: "x = (src, k, w)" "x' = (src', k', w')" by (metis prod_cases3)
  have r: "\<not> r_stop src" "turns parser (k_trace k)" using assms(1) by (simp_all add: x)
  from assms(2) [unfolded x] show ?thesis
  proof (cases rule: inner_body_cases)
    case stopped
    then show ?thesis using r by (simp add: x)
  next
    case (turn w1 st batch msgs w2)
    have "turn_ok parser (map T_taken msgs)" by (auto simp: turn_ok_def)
    from turns_intros(2) [OF r(2) this] show ?thesis using rabbit_next_spec [OF turn(2) r(1)] turn(4) by (simp add: x)
  next
    case (batch w1 st batch msgs w2)
    note n = rabbit_next_spec [OF batch(2) r(1)]
    then have "msgs \<noteq> []" "parsed parser msgs \<noteq> []" using batch(4) by auto
    then have "turn_ok parser (map T_taken msgs @ [T_consume batch, T_ack (r_last_tag src') True])"
      using n unfolding turn_ok_def by (intro disjI2 exI [of _ msgs]) simp
    from turns_intros(2) [OF r(2) this] show ?thesis using n batch(5) by (simp add: x)
  qed
qed

lemma turns_outer:
  assumes "turns parser (k_trace (fst (snd x)))" "outer_body sk parser x = (go, x')"
  shows "turns parser (k_trace (fst (snd x')))"
proof -
  obtain c k w c' k' w' where x: "x = (c, k, w)" "x' = (c', k', w')" by (metis prod_cases3)
  from assms(2) [unfolded x] show ?thesis
  proof (cases rule: outer_body_cases)
    case (opened w1 t w2 src k1)
    let ?k = "k\<lparr>k_delay := 0, k_down := False, k_trace := k_trace k @ [T_open]\<rparr>"
    have "turn_ok parser [T_open]" by (simp add: turn_ok_def)
    then have "turns parser (k_trace k @ [T_open])" using turns_intros(2) assms(1) by (simp add: x)
    moreover have "turns parser (k_trace (fst (snd y))) \<and> \<not> r_stop (fst y)"
      if "turns parser (k_trace k @ [T_open])" "y = consumer_inner sk parser c' (new_source, ?k, w2)" for y
      unfolding that(2) by (rule consumer_inner_keeps, erule (1) turns_body) (use that(1) in \<open>simp add: new_source_def\<close>)
    ultimately have "turns parser (k_trace (fst (snd (consumer_inner sk parser c' (new_source, ?k, w2)))))" by blast
    then show ?thesis using opened by (simp add: x)
  qed (use assms(1) in \<open>simp_all add: x\<close>)
qed

lemma turns_no_records:
  assumes "turns parser tr" "\<forall>m. parser m = None"
  shows "T_ack n multiple \<notin> set tr"
proof -
  have "parsed parser ms = []" for ms using assms(2) by (simp add: parsed_def map_filter_def)
  then have "T_ack n multiple \<notin> set t" if "turn_ok parser t" for t using that by (auto simp: turn_ok_def)
  then show ?thesis using assms(1) by (auto simp: turns_def list_all_iff)
qed

text \<open>
  C39: Messages that are no records are acknowledged only along with others that are. Whatever happens, a run
  of a consumer is a sequence of turns: it opens the connection; or it takes messages and acknowledges
  nothing; or it takes messages of which at least one is a record, hands the records of all of
  them to the sink as one batch, and acknowledges the last of the messages with all before it. So a turn
  that finds only messages the parser rejects acknowledges nothing, and while the parser rejects
  everything nothing is ever acknowledged, however much is taken.
\<close>

theorem rejected_messages_stay_unacked:
  "(\<exists>ts. list_all (\<lambda>t. t = [T_open] \<or> (\<exists>ms. t = map T_taken ms)
       \<or> (\<exists>ms. parsed parser ms \<noteq> [] \<and> t = map T_taken ms @ [T_consume (parsed parser ms), T_ack (tag (last ms)) True])) ts
     \<and> k_trace (run_consumer sk parser s w) = concat ts)
   \<and> ((\<forall>m. parser m = None) \<longrightarrow> (\<forall>n multiple. T_ack n multiple \<notin> set (k_trace (run_consumer sk parser s w))))"
proof -
  let ?x = "(closed_conn, \<lparr>k_sink = s, k_total = 0, k_rejected = 0, k_delay = 0, k_down = False, k_trace = []\<rparr>, w)"
  have "turns parser (k_trace (fst (snd (consumer_loop sk parser ?x))))"
    by (rule consumer_loop_keeps, rule turns_outer) (simp_all add: turns_intros)
  then have "turns parser (k_trace (run_consumer sk parser s w))" by (simp add: run_consumer_def)
  then show ?thesis using turns_no_records unfolding turns_def turn_ok_def by blast
qed

definition good_try :: open_try where
  "good_try = \<lparr>url_ok = True, new_ok = True, socket_ok = True, connect_error = None, login = NORMAL,
     channel_open = NORMAL, basic_qos = NORMAL, basic_consume = NORMAL\<rparr>"

theorem rejected_messages_stay_unacked_witness:
  "\<forall>n multiple. T_ack n multiple \<notin> set (k_trace (run_consumer \<lparr>sk_consume = (\<lambda>b src s. s + length b), sk_resume_at = (\<lambda>src s. (0, s))\<rparr>
     (\<lambda>_. None) 0 \<lparr>w_opens = [good_try], w_events = [Delivered (Some ''junk'') None 1, Delivered (Some ''x'') None 2, Refused (LIBRARY_EXCEPTION STATUS_TIMEOUT)],
       w_acks = [True], w_stops = replicate 9 False\<rparr>))"
  by (rule mp [OF conjunct2 [OF rejected_messages_stay_unacked]]) simp

lemma backoff_le: "fst (rabbit_backoff n w) \<le> n"
proof (induction n w rule: rabbit_backoff.induct)
  case (1 n w)
  obtain b w1 where s: "stop_set w = (b, w1)" by (cases "stop_set w")
  show ?case
  proof (cases "0 < n \<and> \<not> b")
    case True
    then show ?thesis using "1.IH" [OF conjunct1 [OF True] refl, unfolded s, OF refl conjunct2 [OF True] refl]
      by (subst rabbit_backoff.simps) (auto simp: s Let_def split: prod.splits)
  next
    case False
    then show ?thesis by (subst rabbit_backoff.simps) (auto simp: s)
  qed
qed

lemma delay_inner:
  "k_delay (fst (snd x)) = d \<Longrightarrow> inner_body sk parser c x = (go, x') \<Longrightarrow> k_delay (fst (snd x')) = d"
proof -
  assume a: "k_delay (fst (snd x)) = d" "inner_body sk parser c x = (go, x')"
  obtain src k w src' k' w' where x: "x = (src, k, w)" "x' = (src', k', w')" by (metis prod_cases3)
  from a(2) [unfolded x] show ?thesis
    by (cases rule: inner_body_cases) (use a(1) in \<open>simp_all add: x\<close>)
qed

definition delay_ok :: "nat \<Rightarrow> bool" where
  "delay_ok d \<longleftrightarrow> d = 0 \<or> 250 \<le> d \<and> d \<le> 10000"

lemma delay_outer:
  assumes "delay_ok (k_delay (fst (snd x)))" "outer_body sk parser x = (go, x')"
  shows "delay_ok (k_delay (fst (snd x')))"
proof -
  obtain c k w c' k' w' where x: "x = (c, k, w)" "x' = (c', k', w')" by (metis prod_cases3)
  from assms(2) [unfolded x] show ?thesis
  proof (cases rule: outer_body_cases)
    case (refused w1 t w2 delay)
    then show ?thesis using assms(1)
      by (auto simp: x delay_ok_def kRabbitBackoffMinMs_def kRabbitBackoffMaxMs_def min_def)
  next
    case (opened w1 t w2 src k1)
    let ?k = "k\<lparr>k_delay := 0, k_down := False, k_trace := k_trace k @ [T_open]\<rparr>"
    have "k_delay (fst (snd (consumer_inner sk parser c' (new_source, ?k, w2)))) = 0"
      by (rule consumer_inner_keeps, rule delay_inner) auto
    then show ?thesis using opened by (simp add: x delay_ok_def)
  qed (use assms(1) in \<open>simp add: x\<close>)
qed

text \<open>
  A backoff never sleeps longer than asked, in slices of at most 100 ms, and ends at once when
  the thread is stopped; and the delays a consumer asks for stay between 250 ms and 10 s.
\<close>

theorem rabbit_backoff_bounds:
  "fst (rabbit_backoff n w) \<le> n
   \<and> (let d = k_delay (run_consumer sk parser s v) in d = 0 \<or> (250 \<le> d \<and> d \<le> 10000))"
proof -
  let ?x = "(closed_conn, \<lparr>k_sink = s, k_total = 0, k_rejected = 0, k_delay = 0, k_down = False, k_trace = []\<rparr>, v)"
  have "delay_ok (k_delay (fst (snd (consumer_loop sk parser ?x))))"
    by (rule consumer_loop_keeps, rule delay_outer) (auto simp: delay_ok_def)
  then show ?thesis by (simp add: backoff_le run_consumer_def delay_ok_def Let_def)
qed

end
