(* ===== verification/ThreadPool.thy ===== *)
theory ThreadPool
  imports Prelude
begin

text \<open>
  \<open>src/util/thread_pool.cpp\<close>: a bounded queue and its workers as a step relation. The critical
  sections under \<open>m_mutex\<close> are the atomic steps; a wait on a condition variable is a step that is
  enabled only when its predicate holds. A task that throws is caught in the worker, so running a
  task always ends in one step of its worker. Three ghost components record the tasks accepted,
  started and finished. The lemmas show the bound and the order of the queue, and that a stopped pool
  drains before its workers leave.
\<close>

datatype 't worker = Idle | Running 't | Exited

record 't Pool =
  p_queue :: "'t list"
  p_capacity :: nat
  p_stop :: bool
  p_workers :: "'t worker list"
  p_accepted :: "'t list"
  p_started :: "'t list"
  p_finished :: "'t list"

text \<open>
  What the machine has to give: memory for the handles of so many workers, and the thread of each of them.
\<close>

record machine =
  mc_memory :: "nat \<Rightarrow> bool"
  mc_thread :: "nat \<Rightarrow> bool"

definition roomy :: machine where
  "roomy = \<lparr>mc_memory = (\<lambda>n. True), mc_thread = (\<lambda>i. True)\<rparr>"

text \<open>The largest vector of thread handles of 8 bytes each, in an address space of 64 bits.\<close>

definition kMaxThreads :: nat where "kMaxThreads = 2 ^ 60 - 1"

text \<open>
  The constructor throws for an empty pool or queue. It reserves room for the handles, which throws when there
  are more than a vector can hold or there is no memory for them, and starts the threads one after the
  other: when the first of them cannot be started it throws, and when a later one cannot, the handles of those
  that run are destroyed and the process is terminated. \<open>Inl\<close> is the text of the exception.
\<close>

definition new_pool :: "machine \<Rightarrow> nat \<Rightarrow> nat \<Rightarrow> string + 't Pool" where
  "new_pool mc workers_count capacity =
     (if workers_count = 0 \<or> capacity = 0 then Inl ''ThreadPool: workers and capacity must be > 0''
      else if kMaxThreads < workers_count then Inl ''vector::reserve''
      else if \<not> mc_memory mc workers_count then Inl ''std::bad_alloc''
      else if \<not> mc_thread mc 0 then Inl ''Resource temporarily unavailable''
      else if \<not> list_all (mc_thread mc) [0..<workers_count] then Inl ''terminate called without an active exception''
      else Inr \<lparr>p_queue = [], p_capacity = capacity, p_stop = False,
             p_workers = replicate workers_count Idle, p_accepted = [], p_started = [], p_finished = []\<rparr>)"

text \<open>The machine gives what a pool of so many workers needs.\<close>

definition grants :: "machine \<Rightarrow> nat \<Rightarrow> bool" where
  "grants mc n \<longleftrightarrow> mc_memory mc n \<and> list_all (mc_thread mc) [0..<n]"

lemma new_pool_cases:
  assumes "0 < n" "0 < c"
  shows "case new_pool mc n c of
      Inl e \<Rightarrow> if kMaxThreads < n then e = ''vector::reserve'' else \<not> grants mc n
    | Inr p \<Rightarrow> n \<le> kMaxThreads \<and> grants mc n \<and> length (p_workers p) = n \<and> p_capacity p = c"
  using assms by (auto simp: new_pool_def grants_def list_all_iff)

lemma new_pool_Inl: "new_pool mc n c = Inl e \<Longrightarrow> n = 0 \<or> c = 0 \<or> kMaxThreads < n \<or> \<not> grants mc n"
  by (auto simp: new_pool_def grants_def list_all_iff split: if_splits)

lemma new_pool_roomy: "0 < n \<Longrightarrow> 0 < c \<Longrightarrow> n \<le> kMaxThreads \<Longrightarrow>
    new_pool roomy n c = Inr \<lparr>p_queue = [], p_capacity = c, p_stop = False, p_workers = replicate n Idle,
      p_accepted = [], p_started = [], p_finished = []\<rparr>"
  by (simp add: new_pool_def roomy_def list_all_iff)

text \<open>
  \<open>submit\<close> is two steps: it goes on when the pool stops or has room, and then either refuses or
  queues. \<open>run\<close> takes the front task, or returns once the pool is stopped and drained.
\<close>

definition submit :: "'t \<Rightarrow> 't Pool \<Rightarrow> (bool \<times> 't Pool) option" where
  "submit t p =
     (if \<not> (p_stop p \<or> length (p_queue p) < p_capacity p) then None
      else if p_stop p then Some (False, p)
      else Some (True, p\<lparr>p_queue := p_queue p @ [t], p_accepted := p_accepted p @ [t]\<rparr>))"

definition take_task :: "nat \<Rightarrow> 't Pool \<Rightarrow> 't Pool option" where
  "take_task i p =
     (if \<not> (p_stop p \<or> p_queue p \<noteq> []) then None
      else case p_queue p of
        [] \<Rightarrow> Some (p\<lparr>p_workers := (p_workers p)[i := Exited]\<rparr>)
      | t # ts \<Rightarrow> Some (p\<lparr>p_queue := ts, p_workers := (p_workers p)[i := Running t], p_started := p_started p @ [t]\<rparr>))"

inductive pool_step :: "'t Pool \<Rightarrow> 't Pool \<Rightarrow> bool" where
  submitted: "submit t p = Some (b, p') \<Longrightarrow> pool_step p p'"
| taken: "i < length (p_workers p) \<Longrightarrow> p_workers p ! i = Idle \<Longrightarrow> take_task i p = Some p' \<Longrightarrow> pool_step p p'"
| finished: "i < length (p_workers p) \<Longrightarrow> p_workers p ! i = Running t \<Longrightarrow>
    pool_step p (p\<lparr>p_workers := (p_workers p)[i := Idle], p_finished := p_finished p @ [t]\<rparr>)"
| stopped: "pool_step p (p\<lparr>p_stop := True\<rparr>)"

inductive_cases pool_stepE: "pool_step p p'"

text \<open>The tasks workers are busy with.\<close>

definition running :: "'t worker list \<Rightarrow> 't multiset" where
  "running ws = (\<Sum>w\<leftarrow>ws. case w of Running t \<Rightarrow> {#t#} | _ \<Rightarrow> {#})"

definition pool_inv :: "'t Pool \<Rightarrow> bool" where
  "pool_inv p \<longleftrightarrow> p_accepted p = p_started p @ p_queue p
     \<and> length (p_queue p) \<le> p_capacity p
     \<and> mset (p_started p) = mset (p_finished p) + running (p_workers p)
     \<and> (Exited \<in> set (p_workers p) \<longrightarrow> p_stop p \<and> p_queue p = [])"

lemma running_simps [simp]:
  "running [] = {#}"
  "running (w # ws) = (case w of Running t \<Rightarrow> {#t#} | _ \<Rightarrow> {#}) + running ws"
  by (simp_all add: running_def)

lemma running_start: "i < length ws \<Longrightarrow> ws ! i = Idle \<Longrightarrow> running (ws[i := Running t]) = add_mset t (running ws)"
proof (induction ws arbitrary: i)
  case (Cons w ws)
  then show ?case by (cases i) (auto split: worker.split)
qed simp

lemma running_exit: "i < length ws \<Longrightarrow> ws ! i = Idle \<Longrightarrow> running (ws[i := Exited]) = running ws"
proof (induction ws arbitrary: i)
  case (Cons w ws)
  then show ?case by (cases i) (auto split: worker.split)
qed simp

lemma running_finish:
  "i < length ws \<Longrightarrow> ws ! i = Running t \<Longrightarrow> running ws = add_mset t (running (ws[i := Idle]))"
proof (induction ws arbitrary: i)
  case (Cons w ws)
  then show ?case by (cases i) (auto split: worker.split)
qed simp

lemma running_replicate [simp]: "running (replicate n Idle) = {#}"
  by (induction n) simp_all

lemma new_pool_inv: "new_pool mc n c = Inr p \<Longrightarrow> pool_inv p"
  by (auto simp: new_pool_def pool_inv_def split: if_splits)

lemma pool_step_inv: "pool_step p p' \<Longrightarrow> pool_inv p \<Longrightarrow> pool_inv p'"
proof (induction rule: pool_step.induct)
  case (submitted t p b p')
  then show ?case by (auto simp: submit_def pool_inv_def split: if_splits)
next
  case (taken i p p')
  show ?case
  proof (cases "p_queue p")
    case Nil
    then show ?thesis using taken running_exit [OF taken(1,2)]
      by (auto simp: take_task_def pool_inv_def split: if_splits)
  next
    case (Cons t ts)
    then have "Exited \<notin> set (p_workers p)" using taken(4) by (auto simp: pool_inv_def)
    then have "Exited \<notin> set ((p_workers p)[i := Running t])"
      using set_update_subset_insert [of "p_workers p" i "Running t"] by auto
    then show ?thesis using taken Cons running_start [OF taken(1,2)]
      by (auto simp: take_task_def pool_inv_def)
  qed
next
  case (finished i p t)
  have "Exited \<in> set ((p_workers p)[i := Idle]) \<Longrightarrow> Exited \<in> set (p_workers p)"
    using set_update_subset_insert [of "p_workers p" i Idle] by auto
  then show ?case using finished(3) running_finish [OF finished(1,2)] by (auto simp: pool_inv_def)
next
  case (stopped p)
  then show ?case by (auto simp: pool_inv_def)
qed

lemma pool_steps_inv: "pool_step\<^sup>*\<^sup>* p p' \<Longrightarrow> pool_inv p \<Longrightarrow> pool_inv p'"
  by (induction rule: rtranclp_induct) (auto intro: pool_step_inv)

lemma all_exited_idle: "\<forall>w \<in> set ws. w = Exited \<Longrightarrow> running ws = {#}"
  by (induction ws) auto

section \<open>Draining\<close>

text \<open>Once the pool is stopped every worker that is still there can go on, and finitely often.\<close>

definition work_left :: "'t Pool \<Rightarrow> nat" where
  "work_left p = 2 * length (p_queue p)
     + (\<Sum>w\<leftarrow>p_workers p. case w of Running t \<Rightarrow> 2 | Idle \<Rightarrow> 1 | Exited \<Rightarrow> 0)"

inductive worker_step :: "'t Pool \<Rightarrow> 't Pool \<Rightarrow> bool" where
  w_taken: "i < length (p_workers p) \<Longrightarrow> p_workers p ! i = Idle \<Longrightarrow> take_task i p = Some p' \<Longrightarrow> worker_step p p'"
| w_finished: "i < length (p_workers p) \<Longrightarrow> p_workers p ! i = Running t \<Longrightarrow>
    worker_step p (p\<lparr>p_workers := (p_workers p)[i := Idle], p_finished := p_finished p @ [t]\<rparr>)"

inductive_cases worker_stepE: "worker_step p p'"

lemma worker_is_pool: "worker_step p p' \<Longrightarrow> pool_step p p'"
  by (induction rule: worker_step.induct) (auto intro: pool_step.intros)

lemma weight_update:
  "i < length ws \<Longrightarrow> sum_list (map g (ws[i := w])) + g (ws ! i) = sum_list (map g ws) + (g w :: nat)"
proof (induction ws arbitrary: i)
  case (Cons v ws)
  then show ?case by (cases i) auto
qed simp

lemma worker_step_less: "worker_step p p' \<Longrightarrow> work_left p' < work_left p"
proof (induction rule: worker_step.induct)
  case (w_taken i p p')
  show ?case
    using w_taken(3) weight_update [OF w_taken(1), of "\<lambda>w. case w of Running t \<Rightarrow> 2 | Idle \<Rightarrow> 1 | Exited \<Rightarrow> 0" Exited]
      weight_update [OF w_taken(1), of "\<lambda>w. case w of Running t \<Rightarrow> 2 | Idle \<Rightarrow> 1 | Exited \<Rightarrow> 0" "Running (hd (p_queue p))"]
    by (auto simp: take_task_def work_left_def w_taken(2) split: if_splits list.splits)
next
  case (w_finished i p t)
  then show ?case
    using weight_update [OF w_finished(1), of "\<lambda>w. case w of Running t \<Rightarrow> 2 | Idle \<Rightarrow> 1 | Exited \<Rightarrow> 0" Idle]
    by (simp add: work_left_def)
qed

lemma worker_step_keeps: "worker_step p p' \<Longrightarrow> p_stop p' = p_stop p \<and> p_accepted p' = p_accepted p \<and> length (p_workers p') = length (p_workers p)"
  by (induction rule: worker_step.induct) (auto simp: take_task_def split: if_splits list.splits)

lemma worker_step_possible:
  assumes "p_stop p" "\<exists>w \<in> set (p_workers p). w \<noteq> Exited"
  shows "\<exists>p'. worker_step p p'"
proof -
  obtain i where i: "i < length (p_workers p)" "p_workers p ! i \<noteq> Exited"
    using assms(2) by (auto simp: in_set_conv_nth)
  show ?thesis
  proof (cases "p_workers p ! i")
    case Idle
    then have "take_task i p \<noteq> None" using assms(1) by (auto simp: take_task_def split: list.split)
    then show ?thesis using w_taken [OF i(1) Idle] by blast
  next
    case (Running t)
    then show ?thesis using w_finished [OF i(1) Running] by blast
  qed (use i in simp)
qed

lemma drains:
  "p_stop p \<Longrightarrow> \<exists>p'. worker_step\<^sup>*\<^sup>* p p' \<and> p_accepted p' = p_accepted p \<and> (\<forall>w \<in> set (p_workers p'). w = Exited)"
proof (induction "work_left p" arbitrary: p rule: less_induct)
  case less
  show ?case
  proof (cases "\<exists>w \<in> set (p_workers p). w \<noteq> Exited")
    case True
    obtain q where q: "worker_step p q" using worker_step_possible [OF less.prems True] by blast
    with worker_step_keeps [OF q] less.hyps [OF worker_step_less [OF q]] less.prems
    obtain p' where "worker_step\<^sup>*\<^sup>* q p'" "p_accepted p' = p_accepted p" "\<forall>w \<in> set (p_workers p'). w = Exited"
      by auto
    then show ?thesis using q by (meson converse_rtranclp_into_rtranclp)
  qed auto
qed

section \<open>Properties\<close>

text \<open>
  C27: In every reachable state of a pool the queue holds at most its capacity, tasks are started in
  the order they were accepted, the ones still queued are exactly those accepted and not started,
  every started task is finished or on one worker, and a worker leaves only a stopped, empty pool.
\<close>

theorem pool_bounded_fifo:
  assumes "new_pool mc n c = Inr p0" "pool_step\<^sup>*\<^sup>* p0 p"
  shows "p_accepted p = p_started p @ p_queue p \<and> length (p_queue p) \<le> p_capacity p
    \<and> mset (p_started p) = mset (p_finished p) + running (p_workers p)
    \<and> (Exited \<in> set (p_workers p) \<longrightarrow> p_stop p \<and> p_queue p = [])"
  using pool_steps_inv [OF assms(2) new_pool_inv [OF assms(1)]] by (simp add: pool_inv_def)

definition toy_pool :: "nat Pool" where
  "toy_pool = \<lparr>p_queue = [], p_capacity = 4, p_stop = False, p_workers = [Idle, Idle], p_accepted = [],
     p_started = [], p_finished = []\<rparr>"

lemma toy_pool_new: "new_pool roomy 2 4 = Inr toy_pool"
proof -
  have "replicate 2 x = [x, x]" for x :: "'b" by (simp add: numeral_2_eq_2)
  then show ?thesis by (simp add: new_pool_def roomy_def kMaxThreads_def toy_pool_def list_all_iff)
qed

lemma toy_step: "pool_step toy_pool (toy_pool\<lparr>p_queue := [7], p_accepted := [7]\<rparr>)"
  by (rule submitted [where t = 7 and b = True]) (simp add: submit_def toy_pool_def)

theorem pool_bounded_fifo_witness:
  "let p = toy_pool\<lparr>p_queue := [7], p_accepted := [7]\<rparr> in
    p_accepted p = p_started p @ p_queue p \<and> length (p_queue p) \<le> p_capacity p
    \<and> mset (p_started p) = mset (p_finished p) + running (p_workers p)
    \<and> (Exited \<in> set (p_workers p) \<longrightarrow> p_stop p \<and> p_queue p = [])"
  unfolding Let_def by (rule pool_bounded_fifo [OF toy_pool_new]) (rule r_into_rtranclp, rule toy_step)

text \<open>
  C26: A stopped pool drains: from every reachable stopped state its workers can, and by their own
  steps alone and only finitely many of them will, reach a state in which all of them have left, and
  then every task that was ever accepted has been finished.
\<close>

theorem pool_drains:
  assumes "new_pool mc n c = Inr p0" "pool_step\<^sup>*\<^sup>* p0 p" "p_stop p"
  shows "(\<exists>p'. worker_step\<^sup>*\<^sup>* p p' \<and> list_all (\<lambda>w. w = Exited) (p_workers p')
        \<and> p_accepted p' = p_accepted p \<and> mset (p_finished p') = mset (p_accepted p))
    \<and> (\<forall>q. worker_step p q \<longrightarrow> work_left q < work_left p)"
proof (intro conjI allI impI)
  obtain p' where p': "worker_step\<^sup>*\<^sup>* p p'" "p_accepted p' = p_accepted p" "\<forall>w \<in> set (p_workers p'). w = Exited"
    using drains [OF assms(3)] by blast
  have steps: "pool_step\<^sup>*\<^sup>* p p'" using p'(1) by (induction rule: rtranclp_induct) (auto intro: worker_is_pool rtranclp.rtrancl_into_rtrancl)
  have "pool_step\<^sup>*\<^sup>* p0 p'" using assms(2) steps by auto
  then have inv: "pool_inv p'" using pool_steps_inv new_pool_inv [OF assms(1)] by blast
  have "length (p_workers q) = n" if "pool_step\<^sup>*\<^sup>* p0 q" for q
    using that
  proof (induction rule: rtranclp_induct)
    case base
    then show ?case using assms(1) by (auto simp: new_pool_def split: if_splits)
  next
    case (step q r)
    from step(2) have "length (p_workers r) = length (p_workers q)"
      by (cases rule: pool_step.cases) (auto simp: submit_def take_task_def split: if_splits list.splits)
    then show ?case using step(3) by simp
  qed
  moreover have "0 < n" using assms(1) by (auto simp: new_pool_def split: if_splits)
  ultimately have "p_workers p' \<noteq> []" using \<open>pool_step\<^sup>*\<^sup>* p0 p'\<close> by fastforce
  then have "Exited \<in> set (p_workers p')" using p'(3) by (metis list.set_intros(1) neq_Nil_conv)
  then have "mset (p_finished p') = mset (p_accepted p)"
    using inv all_exited_idle [OF p'(3)] p'(2) by (auto simp: pool_inv_def)
  then show "\<exists>p'. worker_step\<^sup>*\<^sup>* p p' \<and> list_all (\<lambda>w. w = Exited) (p_workers p')
      \<and> p_accepted p' = p_accepted p \<and> mset (p_finished p') = mset (p_accepted p)"
    using p' by (auto simp: list_all_iff)
next
  fix q assume "worker_step p q"
  then show "work_left q < work_left p" by (rule worker_step_less)
qed

theorem pool_drains_witness:
  "let p = toy_pool\<lparr>p_queue := [7], p_accepted := [7], p_stop := True\<rparr> in
    (\<exists>p'. worker_step\<^sup>*\<^sup>* p p' \<and> list_all (\<lambda>w. w = Exited) (p_workers p')
        \<and> p_accepted p' = p_accepted p \<and> mset (p_finished p') = mset (p_accepted p))
    \<and> (\<forall>q. worker_step p q \<longrightarrow> work_left q < work_left p)"
proof -
  have "pool_step (toy_pool\<lparr>p_queue := [7], p_accepted := [7]\<rparr>)
      (toy_pool\<lparr>p_queue := [7], p_accepted := [7], p_stop := True\<rparr>)"
    using stopped [of "toy_pool\<lparr>p_queue := [7], p_accepted := [7]\<rparr>"] by simp
  then have "pool_step\<^sup>*\<^sup>* toy_pool (toy_pool\<lparr>p_queue := [7], p_accepted := [7], p_stop := True\<rparr>)"
    using toy_step by (meson r_into_rtranclp rtranclp.rtrancl_into_rtrancl)
  from pool_drains [OF toy_pool_new this] show ?thesis by simp
qed

end
