(* ===== verification/DirWatcher.thy ===== *)
theory DirWatcher
  imports FileSource
begin

text \<open>
  \<open>src/ingest/dir_watcher.cpp\<close>: files delivered by rename are claimed by another rename and queued.
  The file system is the map of \<open>FileSource\<close>; what \<open>poll\<close> and \<open>read\<close> return on the inotify and event
  descriptors is a script of \<open>wakeup\<close>s, and the order of a directory listing is an argument. The
  lemmas show that a claim moves the file and nothing else, that a start finds what an earlier run
  left behind, that files come out in the order they were claimed, and what a second delivery of a
  name does to a file that is still waiting.
\<close>

section \<open>The operations\<close>

text \<open>
  \<open>(fs::path(dir) / file_name).string()\<close> for the name of a directory entry, as a listing and inotify give
  it: such a name holds no slash (an absolute one would take the place of the directory).
\<close>

definition path_join :: "string \<Rightarrow> string \<Rightarrow> string" where
  "path_join dir name = (if dir = [] \<or> last dir = CHR ''/'' then dir @ name else dir @ CHR ''/'' # name)"

record DirWatcher =
  dw_source :: string
  dw_target :: string
  dw_queue :: "string list"
  dw_open :: bool

definition claim :: "string \<Rightarrow> DirWatcher \<times> filesys \<Rightarrow> bool \<times> DirWatcher \<times> filesys" where
  "claim name = (\<lambda>(dw, files).
     let source = path_join (dw_source dw) name; dest = path_join (dw_target dw) name;
         (renamed, files) = rename_file files source dest
     in if \<not> renamed then (False, dw, files)
        else (True, dw\<lparr>dw_queue := dw_queue dw @ [dest]\<rparr>, files))"

definition is_regular :: "filesys \<Rightarrow> string \<Rightarrow> bool" where
  "is_regular files path = (case files path of Some (Regular text) \<Rightarrow> True | _ \<Rightarrow> False)"

text \<open>One entry of a sweep; a listing that cannot be read (\<open>None\<close>) ends it.\<close>

definition sweep_entry :: "string \<Rightarrow> bool \<Rightarrow> string \<Rightarrow> DirWatcher \<times> filesys \<Rightarrow> DirWatcher \<times> filesys" where
  "sweep_entry dir claimed name = (\<lambda>(dw, files).
     if \<not> is_regular files (path_join dir name) then (dw, files)
     else if claimed then (dw\<lparr>dw_queue := dw_queue dw @ [path_join dir name]\<rparr>, files)
     else snd (claim name (dw, files)))"

definition sweep ::
    "string list option \<Rightarrow> string \<Rightarrow> bool \<Rightarrow> DirWatcher \<times> filesys \<Rightarrow> DirWatcher \<times> filesys" where
  "sweep entries dir claimed x =
     (case entries of None \<Rightarrow> x | Some names \<Rightarrow> foldl (\<lambda>x name. sweep_entry dir claimed name x) x names)"

text \<open>
  The constructor: the directories, the inotify descriptor, the watch and the event descriptor, in
  this order; then the files already claimed, then the files delivered before the start.
\<close>

record watch_setup =
  dirs_ok :: bool
  inotify_ok :: bool
  watch_ok :: bool
  eventfd_ok :: bool

definition new_watcher ::
    "watch_setup \<Rightarrow> string \<Rightarrow> string \<Rightarrow> string list option \<Rightarrow> string list option \<Rightarrow> filesys
       \<Rightarrow> DirWatcher \<times> filesys" where
  "new_watcher su source target target_names source_names files =
     (let dw = \<lparr>dw_source = source, dw_target = target, dw_queue = [], dw_open = False\<rparr> in
      if \<not> dirs_ok su then (dw, files)
      else if \<not> inotify_ok su then (dw, files)
      else if \<not> watch_ok su then (dw, files)
      else if \<not> eventfd_ok su then (dw, files)
      else sweep source_names source False
             (sweep target_names target True (dw\<lparr>dw_open := True\<rparr>, files)))"

text \<open>
  What one round of \<open>read_events\<close> meets: an interrupted or failed \<open>poll\<close>, a wake-up, nothing to
  read, a failed \<open>read\<close>, or events, each a name (empty when the event carries none) and whether it
  is a directory. Files may have been delivered meanwhile: \<open>delivered\<close> is applied first.
\<close>

datatype wakeup =
  Interrupted | PollFailed | Woken | Spurious | ReadFailed
| Events "(string \<times> string) list" "(string \<times> bool) list"

definition deliver :: "string \<times> string \<Rightarrow> filesys \<Rightarrow> filesys" where
  "deliver = (\<lambda>(path, text) files. files(path \<mapsto> Regular text))"

definition on_event :: "string \<times> bool \<Rightarrow> DirWatcher \<times> filesys \<Rightarrow> DirWatcher \<times> filesys" where
  "on_event = (\<lambda>(name, is_dir) x. if name \<noteq> [] \<and> \<not> is_dir then snd (claim name x) else x)"

definition read_events :: "wakeup \<Rightarrow> DirWatcher \<times> filesys \<Rightarrow> bool \<times> DirWatcher \<times> filesys" where
  "read_events wk = (\<lambda>(dw, files).
     case wk of
       PollFailed \<Rightarrow> (False, dw, files)
     | Interrupted \<Rightarrow> (True, dw, files)
     | Woken \<Rightarrow> (False, dw, files)
     | Spurious \<Rightarrow> (True, dw, files)
     | ReadFailed \<Rightarrow> (False, dw, files)
     | Events delivered evs \<Rightarrow>
         (True, foldl (\<lambda>x e. on_event e x) (dw, foldl (\<lambda>f d. deliver d f) files delivered) evs))"

text \<open>
  \<open>next_file\<close> over a script of wake-ups; a script that has run out stands for a call that is still
  blocked (\<open>None\<close>).
\<close>

fun next_file ::
    "wakeup list \<Rightarrow> DirWatcher \<times> filesys \<Rightarrow> (string option \<times> wakeup list \<times> DirWatcher \<times> filesys) option" where
  "next_file wks (dw, files) =
     (if \<not> dw_open dw then Some (None, wks, dw, files)
      else case dw_queue dw of
        p # ps \<Rightarrow> Some (Some p, wks, dw\<lparr>dw_queue := ps\<rparr>, files)
      | [] \<Rightarrow>
          (case wks of
             [] \<Rightarrow> None
           | wk # rest \<Rightarrow>
               (case read_events wk (dw, files) of
                  (False, x) \<Rightarrow> Some (None, rest, x)
                | (True, x) \<Rightarrow> next_file rest x)))"

text \<open>
  \<open>ok\<close>, and \<open>wake\<close> from another thread: once the event descriptor is readable every round meets that
  first. \<open>m_event_fd\<close> is there exactly when \<open>m_fd\<close> is; \<open>written\<close> is what \<open>write\<close> reports.
\<close>

definition watcher_ok :: "DirWatcher \<Rightarrow> bool" where
  "watcher_ok dw \<longleftrightarrow> dw_open dw"

definition wake :: "bool \<Rightarrow> DirWatcher \<Rightarrow> wakeup list \<Rightarrow> wakeup list" where
  "wake written dw wks = (if \<not> dw_open dw then wks else if written then Woken # wks else wks)"

text \<open>The debug line of a claim about files that pile up.\<close>

definition kBacklogAlert :: nat where "kBacklogAlert = 16"

definition backlog_line :: "DirWatcher \<Rightarrow> string option" where
  "backlog_line dw =
     (if length (dw_queue dw) > kBacklogAlert then Some (''backlog of '' @ dec_of (length (dw_queue dw)) @ '' files'') else None)"

section \<open>Claims\<close>

text \<open>A call that was woken returns: with a file that is already claimed, or with none.\<close>

lemma woken_returns:
  "next_file (wake True dw wks) (dw, files) =
     (if \<not> watcher_ok dw then Some (None, wks, dw, files)
      else case dw_queue dw of
        [] \<Rightarrow> Some (None, wks, dw, files)
      | p # ps \<Rightarrow> Some (Some p, Woken # wks, dw\<lparr>dw_queue := ps\<rparr>, files))"
  by (cases "dw_open dw") (simp_all add: wake_def watcher_ok_def read_events_def split: list.split)

lemma path_join_inj [simp]: "path_join d a = path_join d b \<longleftrightarrow> a = b"
  by (simp add: path_join_def)

text \<open>Directories as the configuration has them end in a slash.\<close>

lemma slash_paths: "last dir = CHR ''/'' \<Longrightarrow> path_join dir name = dir @ name"
  by (simp add: path_join_def)

lemma basename_plain:
  assumes "CHR ''/'' \<notin> set name" "last dir = CHR ''/''" "dir \<noteq> []"
  shows "basename_of (dir @ name) = name"
proof -
  obtain d where d: "dir = d @ [CHR ''/'']" using assms(2,3) by (metis append_butlast_last_id)
  show ?thesis using rfind_last [OF assms(1), of d] by (simp add: d basename_of_def)
qed

lemma sweep_claimed:
  "foldl (\<lambda>x name. sweep_entry dir True name x) (dw, files) names =
     (dw\<lparr>dw_queue := dw_queue dw @ map (path_join dir) (filter (\<lambda>n. is_regular files (path_join dir n)) names)\<rparr>, files)"
  by (induction names arbitrary: dw) (auto simp: sweep_entry_def)

text \<open>Sweeping the source directory: every regular file in the listing is moved and queued.\<close>

lemma sweep_source:
  assumes "distinct names"
    and "\<And>n m. n \<in> set names \<Longrightarrow> m \<in> set names \<Longrightarrow> path_join (dw_source dw) n \<noteq> path_join (dw_target dw) m"
    and "\<And>n. n \<in> set names \<Longrightarrow> files (path_join (dw_target dw) n) \<noteq> Some Directory"
    and "foldl (\<lambda>x name. sweep_entry (dw_source dw) False name x) (dw, files) names = (dw', files')"
  shows "dw_queue dw' = dw_queue dw
        @ map (path_join (dw_target dw)) (filter (\<lambda>n. is_regular files (path_join (dw_source dw) n)) names)
    \<and> (\<forall>n \<in> set names. is_regular files (path_join (dw_source dw) n) \<longrightarrow>
         files' (path_join (dw_target dw) n) = files (path_join (dw_source dw) n)
         \<and> files' (path_join (dw_source dw) n) = None)
    \<and> (\<forall>p. (\<forall>n \<in> set names. p \<noteq> path_join (dw_source dw) n \<and> p \<noteq> path_join (dw_target dw) n) \<longrightarrow> files' p = files p)"
  using assms
proof (induction names arbitrary: dw files)
  case (Cons n names)
  let ?s = "path_join (dw_source dw)" and ?t = "path_join (dw_target dw)"
  obtain dw1 files1 where e: "sweep_entry (dw_source dw) False n (dw, files) = (dw1, files1)" by fastforce
  have keep: "dw_source dw1 = dw_source dw" "dw_target dw1 = dw_target dw"
      "dw_queue dw1 = dw_queue dw @ (if is_regular files (?s n) then [?t n] else [])"
      "files1 = (if is_regular files (?s n) then (files(?s n := None))(?t n := files (?s n)) else files)"
    using e Cons.prems(3) [of n]
    by (auto simp: sweep_entry_def claim_def rename_file_def is_regular_def Let_def split: if_splits option.splits)
  have ne: "?s m \<noteq> ?t n" "?s n \<noteq> ?t m" if "m \<in> set names \<or> m = n" for m
    using Cons.prems(2) [of m n] Cons.prems(2) [of n m] that by auto
  have other: "files1 (?s m) = files (?s m)" "files1 (?t m) = files (?t m)" if "m \<in> set names" for m
    using that Cons.prems(1) ne [of m] by (auto simp: keep(4))
  have rest: "foldl (\<lambda>x name. sweep_entry (dw_source dw1) False name x) (dw1, files1) names = (dw', files')"
    using Cons.prems(4) e keep(1) by simp
  have ih: "dw_queue dw' = dw_queue dw1
        @ map (path_join (dw_target dw1)) (filter (\<lambda>n. is_regular files1 (path_join (dw_source dw1) n)) names)"
      "\<And>m. m \<in> set names \<Longrightarrow> is_regular files1 (path_join (dw_source dw1) m) \<Longrightarrow>
         files' (path_join (dw_target dw1) m) = files1 (path_join (dw_source dw1) m)
         \<and> files' (path_join (dw_source dw1) m) = None"
      "\<And>p. (\<And>m. m \<in> set names \<Longrightarrow> p \<noteq> path_join (dw_source dw1) m \<and> p \<noteq> path_join (dw_target dw1) m)
         \<Longrightarrow> files' p = files1 p"
  proof -
    have c: "distinct names" "\<And>a b. a \<in> set names \<Longrightarrow> b \<in> set names \<Longrightarrow> path_join (dw_source dw1) a \<noteq> path_join (dw_target dw1) b"
        "\<And>a. a \<in> set names \<Longrightarrow> files1 (path_join (dw_target dw1) a) \<noteq> Some Directory"
      using Cons.prems(1-3) other(2) by (auto simp: keep(1,2))
    from Cons.IH [OF c rest] show "dw_queue dw' = dw_queue dw1
        @ map (path_join (dw_target dw1)) (filter (\<lambda>n. is_regular files1 (path_join (dw_source dw1) n)) names)"
      "\<And>m. m \<in> set names \<Longrightarrow> is_regular files1 (path_join (dw_source dw1) m) \<Longrightarrow>
         files' (path_join (dw_target dw1) m) = files1 (path_join (dw_source dw1) m)
         \<and> files' (path_join (dw_source dw1) m) = None"
      "\<And>p. (\<And>m. m \<in> set names \<Longrightarrow> p \<noteq> path_join (dw_source dw1) m \<and> p \<noteq> path_join (dw_target dw1) m)
         \<Longrightarrow> files' p = files1 p" by blast+
  qed
  have reg: "is_regular files1 (?s m) = is_regular files (?s m)" if "m \<in> set names" for m
    using other(1) [OF that] by (simp add: is_regular_def)
  have tn: "?t n \<noteq> ?s m" if "m \<in> set names" for m
    using ne(1) [of m] that by metis
  have own: "files' (?s n) = files1 (?s n)" "files' (?t n) = files1 (?t n)"
    using ih(3) [of "?s n"] ih(3) [of "?t n"] Cons.prems(1) ne(2) tn by (auto simp: keep(1,2))
  show ?case
  proof (intro conjI ballI impI allI)
    show "dw_queue dw' = dw_queue dw @ map ?t (filter (\<lambda>n. is_regular files (?s n)) (n # names))"
      using ih(1) reg by (simp add: keep(1-3) cong: filter_cong)
  next
    fix m assume m: "m \<in> set (n # names)" "is_regular files (?s m)"
    show "files' (?t m) = files (?s m)"
      using m ih(2) [of m] reg [of m] other [of m] own keep(4) by (cases "m = n") (auto simp: keep(1,2))
    show "files' (?s m) = None"
      using m ih(2) [of m] reg [of m] own keep(4) ne [of n] by (cases "m = n") (auto simp: keep(1,2))
  next
    fix p assume p: "\<forall>m \<in> set (n # names). p \<noteq> ?s m \<and> p \<noteq> ?t m"
    then have "files' p = files1 p" using ih(3) [of p] by (auto simp: keep(1,2))
    then show "files' p = files p" using p by (auto simp: keep(4))
  qed
qed auto


section \<open>Properties\<close>

text \<open>
  A start finds everything. When the watcher is set up, its queue holds first the regular files
  already claimed by an earlier run, then those delivered before the start, each once and in the
  order of the listings; each of the latter now stands under its name in the target directory
  with its contents, and no other path has changed.
\<close>

theorem start_recovers_files:
  assumes "distinct names"
    and "\<And>n m. n \<in> set names \<Longrightarrow> m \<in> set names \<Longrightarrow> path_join source n \<noteq> path_join target m"
    and "\<And>n. n \<in> set names \<Longrightarrow> files (path_join target n) \<noteq> Some Directory"
  shows "case new_watcher \<lparr>dirs_ok = True, inotify_ok = True, watch_ok = True, eventfd_ok = True\<rparr>
        source target (Some claimed) (Some names) files of (dw, files') \<Rightarrow>
    dw_queue dw = map (path_join target) (filter (\<lambda>n. is_regular files (path_join target n)) claimed)
        @ map (path_join target) (filter (\<lambda>n. is_regular files (path_join source n)) names)
    \<and> (\<forall>n \<in> set names. is_regular files (path_join source n) \<longrightarrow>
         files' (path_join target n) = files (path_join source n) \<and> files' (path_join source n) = None)
    \<and> (\<forall>p. (\<forall>n \<in> set names. p \<noteq> path_join source n \<and> p \<noteq> path_join target n) \<longrightarrow> files' p = files p)"
proof -
  let ?dw = "\<lparr>dw_source = source, dw_target = target,
      dw_queue = map (path_join target) (filter (\<lambda>n. is_regular files (path_join target n)) claimed), dw_open = True\<rparr>"
  obtain dw files' where f: "foldl (\<lambda>x name. sweep_entry source False name x) (?dw, files) names = (dw, files')"
    by (rule prod.exhaust)
  have n: "new_watcher \<lparr>dirs_ok = True, inotify_ok = True, watch_ok = True, eventfd_ok = True\<rparr>
        source target (Some claimed) (Some names) files = (dw, files')"
    using f by (simp add: new_watcher_def sweep_def sweep_claimed)
  from sweep_source [of names ?dw files dw files'] assms f show ?thesis unfolding n by simp
qed

theorem start_recovers_files_witness:
  "case new_watcher \<lparr>dirs_ok = True, inotify_ok = True, watch_ok = True, eventfd_ok = True\<rparr>
        ''in/'' ''work'' (Some [''old'']) (Some [''new'', ''dir''])
        [''work/old'' \<mapsto> Regular ''1'', ''in/new'' \<mapsto> Regular ''2'', ''in/dir'' \<mapsto> Directory] of (dw, files') \<Rightarrow>
    dw_queue dw = map (path_join ''work'') (filter (\<lambda>n. is_regular
          [''work/old'' \<mapsto> Regular ''1'', ''in/new'' \<mapsto> Regular ''2'', ''in/dir'' \<mapsto> Directory] (path_join ''work'' n)) [''old''])
        @ map (path_join ''work'') (filter (\<lambda>n. is_regular
          [''work/old'' \<mapsto> Regular ''1'', ''in/new'' \<mapsto> Regular ''2'', ''in/dir'' \<mapsto> Directory] (path_join ''in/'' n)) [''new'', ''dir''])
    \<and> (\<forall>n \<in> set [''new'', ''dir'']. is_regular
          [''work/old'' \<mapsto> Regular ''1'', ''in/new'' \<mapsto> Regular ''2'', ''in/dir'' \<mapsto> Directory] (path_join ''in/'' n) \<longrightarrow>
         files' (path_join ''work'' n)
           = [''work/old'' \<mapsto> Regular ''1'', ''in/new'' \<mapsto> Regular ''2'', ''in/dir'' \<mapsto> Directory] (path_join ''in/'' n)
         \<and> files' (path_join ''in/'' n) = None)
    \<and> (\<forall>p. (\<forall>n \<in> set [''new'', ''dir'']. p \<noteq> path_join ''in/'' n \<and> p \<noteq> path_join ''work'' n) \<longrightarrow>
         files' p = [''work/old'' \<mapsto> Regular ''1'', ''in/new'' \<mapsto> Regular ''2'', ''in/dir'' \<mapsto> Directory] p)"
  by (rule start_recovers_files) (auto simp: path_join_def)

text \<open>
  A second delivery of a name replaces a file that is still waiting. When a file is delivered
  under the name of one that was claimed and not yet processed, the claim renames over it: the
  earlier contents are gone, and the queue holds the one remaining file twice.
\<close>

theorem redelivery_overwrites:
  assumes "dw_open dw" "dw_queue dw = [path_join (dw_target dw) name]"
    and "files (path_join (dw_target dw) name) = Some (Regular old)" "name \<noteq> []"
    and "path_join (dw_source dw) name \<noteq> path_join (dw_target dw) name"
  shows "case read_events (Events [(path_join (dw_source dw) name, new)] [(name, False)]) (dw, files) of
    (good, dw', files') \<Rightarrow>
      dw_queue dw' = [path_join (dw_target dw) name, path_join (dw_target dw) name]
      \<and> files' (path_join (dw_target dw) name) = Some (Regular new)
      \<and> (\<forall>p. p \<noteq> path_join (dw_target dw) name \<and> p \<noteq> path_join (dw_source dw) name \<longrightarrow> files' p = files p)"
  using assms by (simp add: read_events_def on_event_def claim_def rename_file_def deliver_def Let_def)

theorem redelivery_overwrites_witness:
  "case read_events (Events [(path_join (dw_source \<lparr>dw_source = ''in'', dw_target = ''work'', dw_queue = [''work/f''], dw_open = True\<rparr>) ''f'', ''new'')] [(''f'', False)])
      (\<lparr>dw_source = ''in'', dw_target = ''work'', dw_queue = [''work/f''], dw_open = True\<rparr>, [''work/f'' \<mapsto> Regular ''old'']) of
    (good, dw', files') \<Rightarrow>
      dw_queue dw' = [path_join ''work'' ''f'', path_join ''work'' ''f'']
      \<and> files' (path_join ''work'' ''f'') = Some (Regular ''new'')
      \<and> (\<forall>p. p \<noteq> path_join ''work'' ''f'' \<and> p \<noteq> path_join ''in'' ''f'' \<longrightarrow> files' p = [''work/f'' \<mapsto> Regular ''old''] p)"
  using redelivery_overwrites [of "\<lparr>dw_source = ''in'', dw_target = ''work'', dw_queue = [''work/f''], dw_open = True\<rparr>"
      "''f''" "[''work/f'' \<mapsto> Regular ''old'']" "''old''" "''new''"]
  by (simp add: path_join_def)

end
