(* ===== verification/History.thy ===== *)
theory History
  imports AggregateSink
begin

text \<open>
  What a history of batches adds up to. The counters its commands leave are one fold over all its
  records, and that fold depends neither on the cuts between the batches nor on the order of the records.
\<close>

text \<open>A sum over the batches of a history is what one batch of all the records would have added.\<close>

definition all_records :: "history \<Rightarrow> CdrRecord list" where
  "all_records h = concat (map snd h)"

lemma all_records_simps [simp]: "all_records [] = []" "all_records (h @ [(src, b)]) = all_records h @ b"
  by (simp_all add: all_records_def)

lemma history_hsum:
  fixes g :: "CdrRecord list \<Rightarrow> u64"
  assumes "\<And>src b. hsum k f (consume_cmds src b) = unat (g b)" "\<And>a b. g (a @ b) = g a + g b" "g [] = 0"
  shows "of_nat (hsum k f (history_cmds h)) = g (all_records h)"
proof (induction h rule: rev_induct)
  case (snoc e h)
  obtain src b where "e = (src, b)" by (cases e)
  then show ?case using snoc assms by simp
qed (simp add: assms)

lemma fold_additive:
  "sub_at (fold_batch (a @ b)) k = sub_at (fold_batch a) k + sub_at (fold_batch b) k"
  "link_at (fold_batch (a @ b)) l = link_at (fold_batch a) l + link_at (fold_batch b) l"
  "op_at (fold_batch (a @ b)) j = op_at (fold_batch a) j + op_at (fold_batch b) j"
  by (simp_all add: at_fold ac_simps)

lemma sub_field_add: "(f, g) \<in> set sub_fields \<Longrightarrow> g (a + b) = g a + g b"
  "(f, i) \<in> set link_fields \<Longrightarrow> i (c + d) = i c + i d"
  "(f, o') \<in> set op_fields \<Longrightarrow> o' (p + q) = o' p + o' q"
  by (auto simp: sub_fields_def link_fields_def op_fields_def)

lemma field_sums:
  "(f, g) \<in> set sub_fields \<Longrightarrow> of_nat (hsum (sub_key m) f (history_cmds h)) = g (sub_at (fold_batch (all_records h)) m)"
  "(f, i) \<in> set link_fields \<Longrightarrow>
     of_nat (hsum (link_key (owner l)) (dec64 (peer l) @ f) (history_cmds h)) = i (link_at (fold_batch (all_records h)) l)"
  "(f, o') \<in> set op_fields \<Longrightarrow> of_nat (hsum (op_key j) f (history_cmds h)) = o' (op_at (fold_batch (all_records h)) j)"
    apply (rule history_hsum; simp add: consume_hsum fold_additive sub_field_add field_zero at_fold)
   apply (rule history_hsum; simp add: consume_hsum fold_additive sub_field_add field_zero at_fold)
  apply (rule history_hsum; simp add: consume_hsum fold_additive sub_field_add field_zero at_fold)
  done

text \<open>The order of the records plays no part.\<close>

lemma sum_filter_mset:
  "mset a = mset b \<Longrightarrow> (\<Sum>r\<leftarrow>filter P a. f r) = (\<Sum>r\<leftarrow>filter P b. f r :: 'a :: comm_monoid_add)"
  by (metis mset_filter mset_map sum_mset_sum_list)

lemma fold_permuted:
  assumes "mset a = mset b"
  shows "sub_at (fold_batch a) m = sub_at (fold_batch b) m" "link_at (fold_batch a) l = link_at (fold_batch b) l"
    "op_at (fold_batch a) j = op_at (fold_batch b) j"
  unfolding at_fold by (simp_all add: sum_filter_mset [OF assms])

end
