(* ===== verification/Json.thy ===== *)
theory Json
  imports Prelude
begin

text \<open>
  \<open>src/util/json.cpp\<close>: the builder of the response bodies. A \<open>Json\<close> object is its one member, the
  text between the braces. A reader of JSON texts, written from the grammar and not from the code,
  states what the builder promises: whatever names, strings and numbers it is given, the text it
  produces is read back as the object that was built.
\<close>

section \<open>The builder\<close>

type_synonym Json = string

definition quote_char :: char where "quote_char = CHR 0x22"
definition backslash :: char where "backslash = CHR 0x5C"

definition kHex :: string where "kHex = ''0123456789abcdef''"

definition byte_of :: "char \<Rightarrow> nat" where "byte_of c = of_char c"

definition escape_char :: "char \<Rightarrow> string" where
  "escape_char c =
     (if c = quote_char \<or> c = backslash then [backslash, c]
      else if byte_of c < 32 then backslash # ''u00'' @ [kHex ! (byte_of c div 16), kHex ! (byte_of c mod 16)]
      else [c])"

definition quoted :: "string \<Rightarrow> Json \<Rightarrow> Json" where
  "quoted t body = body @ [quote_char] @ concat (map escape_char t) @ [quote_char]"

definition json_key :: "string \<Rightarrow> Json \<Rightarrow> Json" where
  "json_key name body = quoted name (if body \<noteq> [] then body @ '','' else body) @ '':''"

definition add_string :: "string \<Rightarrow> string \<Rightarrow> Json \<Rightarrow> Json" where
  "add_string name v body = quoted v (json_key name body)"

definition add_number :: "string \<Rightarrow> u64 \<Rightarrow> Json \<Rightarrow> Json" where
  "add_number name v body = json_key name body @ dec64 v"

text \<open>The two loops over an array, a comma before every element but the first.\<close>

fun append_strings :: "bool \<Rightarrow> string list \<Rightarrow> Json \<Rightarrow> Json" where
  "append_strings first [] body = body"
| "append_strings first (v # vs) body =
     append_strings False vs (quoted v (if first then body else body @ '',''))"

definition add_strings :: "string \<Rightarrow> string list \<Rightarrow> Json \<Rightarrow> Json" where
  "add_strings name vs body = append_strings True vs (json_key name body @ ''['') @ '']''"

definition json_str :: "Json \<Rightarrow> string" where
  "json_str body = ''{'' @ body @ ''}''"

fun append_objects :: "bool \<Rightarrow> Json list \<Rightarrow> Json \<Rightarrow> Json" where
  "append_objects first [] body = body"
| "append_objects first (v # vs) body =
     append_objects False vs ((if first then body else body @ '','') @ json_str v)"

definition add_objects :: "string \<Rightarrow> Json list \<Rightarrow> Json \<Rightarrow> Json" where
  "add_objects name vs body = append_objects True vs (json_key name body @ ''['') @ '']''"

definition json_error :: "string \<Rightarrow> string" where
  "json_error msg = json_str (add_string ''error'' msg [])"

section \<open>JSON values and their reader\<close>

datatype jval = JStr string | JNum nat | JArr "jval list" | JObj "(string \<times> jval) list"

definition hex_val :: "char \<Rightarrow> nat option" where
  "hex_val c = (if is_digit c then Some (digit_val c)
     else if 97 \<le> byte_of c \<and> byte_of c \<le> 102 then Some (byte_of c - 87) else None)"

text \<open>The rest of a string literal, behind its opening quote.\<close>

fun read_chars :: "string \<Rightarrow> (string \<times> string) option" where
  "read_chars [] = None"
| "read_chars (c # s) =
     (if c = quote_char then Some ([], s)
      else if c = backslash then
        (case s of
           [] \<Rightarrow> None
         | e # s' \<Rightarrow>
             if e = quote_char \<or> e = backslash then map_option (\<lambda>(t, r). (e # t, r)) (read_chars s')
             else (case s' of
                 z # y # h # l # s'' \<Rightarrow>
                   if e = CHR ''u'' \<and> z = CHR ''0'' \<and> y = CHR ''0'' then
                     (case (hex_val h, hex_val l) of
                        (Some a, Some b) \<Rightarrow> map_option (\<lambda>(t, r). (char_of (16 * a + b) # t, r)) (read_chars s'')
                      | _ \<Rightarrow> None)
                   else None
               | _ \<Rightarrow> None))
      else if byte_of c < 32 then None
      else map_option (\<lambda>(t, r). (c # t, r)) (read_chars s))"

definition read_string :: "string \<Rightarrow> (string \<times> string) option" where
  "read_string s = (case s of c # r \<Rightarrow> if c = quote_char then read_chars r else None | [] \<Rightarrow> None)"

text \<open>The first argument bounds the depth and length of what is read.\<close>

fun read_val :: "nat \<Rightarrow> string \<Rightarrow> (jval \<times> string) option"
  and read_elems :: "nat \<Rightarrow> string \<Rightarrow> (jval list \<times> string) option"
  and read_members :: "nat \<Rightarrow> string \<Rightarrow> ((string \<times> jval) list \<times> string) option" where
  "read_val 0 s = None"
| "read_val (Suc n) s =
     (case s of
        [] \<Rightarrow> None
      | c # r \<Rightarrow>
          if c = quote_char then map_option (\<lambda>(t, r). (JStr t, r)) (read_chars r)
          else if is_digit c then Some (JNum (dec_val (takeWhile is_digit s)), dropWhile is_digit s)
          else if c = CHR ''['' then
            (case r of
               [] \<Rightarrow> None
             | d # r' \<Rightarrow> if d = CHR '']'' then Some (JArr [], r')
                        else map_option (\<lambda>(vs, r). (JArr vs, r)) (read_elems n r))
          else if c = CHR ''{'' then
            (case r of
               [] \<Rightarrow> None
             | d # r' \<Rightarrow> if d = CHR ''}'' then Some (JObj [], r')
                        else map_option (\<lambda>(ms, r). (JObj ms, r)) (read_members n r))
          else None)"
| "read_elems 0 s = None"
| "read_elems (Suc n) s =
     (case read_val n s of
        Some (v, c # r) \<Rightarrow>
          if c = CHR '','' then map_option (\<lambda>(vs, r). (v # vs, r)) (read_elems n r)
          else if c = CHR '']'' then Some ([v], r) else None
      | _ \<Rightarrow> None)"
| "read_members 0 s = None"
| "read_members (Suc n) s =
     (case read_string s of
        Some (name, d # r) \<Rightarrow>
          if d \<noteq> CHR '':'' then None
          else (case read_val n r of
             Some (v, c # r) \<Rightarrow>
               if c = CHR '','' then map_option (\<lambda>(ms, r). ((name, v) # ms, r)) (read_members n r)
               else if c = CHR ''}'' then Some ([(name, v)], r) else None
           | _ \<Rightarrow> None)
      | _ \<Rightarrow> None)"

definition read_json :: "string \<Rightarrow> jval option" where
  "read_json s = (case read_val (length s + 1) s of Some (v, []) \<Rightarrow> Some v | _ \<Rightarrow> None)"

section \<open>The text of a value\<close>

definition lit :: "string \<Rightarrow> string" where "lit t = quoted t []"

fun sep_by :: "string list \<Rightarrow> string" where
  "sep_by [] = []"
| "sep_by [x] = x"
| "sep_by (x # y # xs) = x @ '','' @ sep_by (y # xs)"

fun text_of :: "jval \<Rightarrow> string" where
  "text_of (JStr t) = lit t"
| "text_of (JNum n) = dec_of n"
| "text_of (JArr vs) = ''['' @ sep_by (map text_of vs) @ '']''"
| "text_of (JObj ms) = ''{'' @ sep_by (map (\<lambda>(n, v). lit n @ '':'' @ text_of v) ms) @ ''}''"

definition member_text :: "string \<times> jval \<Rightarrow> string" where
  "member_text m = lit (fst m) @ '':'' @ text_of (snd m)"

definition members_text :: "(string \<times> jval) list \<Rightarrow> Json" where
  "members_text ms = sep_by (map member_text ms)"

lemma quoted_lit: "quoted t body = body @ lit t"
  by (simp add: quoted_def lit_def)

lemma lit_ne [simp]: "lit t \<noteq> []"
  by (simp add: lit_def quoted_def)

lemma sep_by_snoc: "xs \<noteq> [] \<Longrightarrow> sep_by (xs @ [x]) = sep_by xs @ '','' @ x"
  by (induction xs rule: sep_by.induct) simp_all

lemma text_obj: "text_of (JObj ms) = json_str (members_text ms)"
proof -
  have "map (\<lambda>(n, v). lit n @ '':'' @ text_of v) ms = map member_text ms"
    by (auto simp: member_text_def)
  then show ?thesis by (simp only: json_str_def members_text_def text_of.simps)
qed

lemma members_text_Nil [simp]: "members_text [] = []"
  by (simp add: members_text_def)

lemma members_text_snoc:
  "members_text (ms @ [m]) = (if ms = [] then member_text m else members_text ms @ '','' @ member_text m)"
  by (simp add: members_text_def sep_by_snoc)

lemma members_text_ne: "ms \<noteq> [] \<Longrightarrow> members_text ms \<noteq> []"
  by (cases ms rule: rev_cases) (auto simp: members_text_snoc member_text_def)

lemma json_key_members: "json_key n (members_text ms) @ text_of v = members_text (ms @ [(n, v)])"
  using members_text_ne [of ms]
  by (auto simp: json_key_def quoted_lit members_text_snoc member_text_def)

text \<open>Each of the four \<open>add\<close>s appends one member.\<close>

lemma add_string_members: "add_string n t (members_text ms) = members_text (ms @ [(n, JStr t)])"
  using json_key_members [of n ms "JStr t"] by (simp add: add_string_def quoted_lit)

lemma add_number_members: "add_number n w (members_text ms) = members_text (ms @ [(n, JNum (unat w))])"
  using json_key_members [of n ms "JNum (unat w)"] by (simp add: add_number_def dec64_def)

lemma append_strings_lits:
  "append_strings first vs body =
     body @ (if vs = [] then [] else (if first then [] else '','') @ sep_by (map lit vs))"
proof (induction first vs body rule: append_strings.induct)
  case (2 first v vs body)
  then show ?case by (cases vs) (simp_all add: quoted_lit)
qed simp

lemma add_strings_members:
  "add_strings n vs (members_text ms) = members_text (ms @ [(n, JArr (map JStr vs))])"
  using json_key_members [of n ms "JArr (map JStr vs)"]
  by (cases "vs = []") (simp_all add: add_strings_def append_strings_lits comp_def)

lemma append_objects_texts:
  "append_objects first vs body =
     body @ (if vs = [] then [] else (if first then [] else '','') @ sep_by (map json_str vs))"
proof (induction first vs body rule: append_objects.induct)
  case (2 first v vs body)
  then show ?case by (cases vs) simp_all
qed simp

lemma add_objects_members:
  "add_objects n (map members_text mss) (members_text ms) = members_text (ms @ [(n, JArr (map JObj mss))])"
  using json_key_members [of n ms "JArr (map JObj mss)"]
  by (cases "mss = []") (simp_all add: add_objects_def append_objects_texts comp_def text_obj del: text_of.simps(4))

section \<open>Reading back\<close>

lemma hex_val_kHex: "n < 16 \<Longrightarrow> hex_val (kHex ! n) = Some n"
proof -
  assume "n < 16"
  then have "n \<in> set [0..<16]" by simp
  then show ?thesis
    by (simp add: upt_rec) (elim disjE; simp add: kHex_def hex_val_def is_digit_def digit_val_def byte_of_def)
qed

lemma special_chars [simp]:
  "quote_char \<noteq> backslash" "backslash \<noteq> quote_char" "\<not> byte_of quote_char < 32" "\<not> byte_of backslash < 32"
  by (simp_all add: quote_char_def backslash_def byte_of_def)

lemma read_escaped: "read_chars (escape_char c @ s) = map_option (\<lambda>(t, r). (c # t, r)) (read_chars s)"
proof (cases "c = quote_char \<or> c = backslash \<or> \<not> byte_of c < 32")
  case True
  then show ?thesis by (auto simp: escape_char_def)
next
  case False
  then have b: "byte_of c < 256" "byte_of c div 16 < 16" "byte_of c mod 16 < 16" by auto
  have "char_of (16 * (byte_of c div 16) + byte_of c mod 16) = c" by (simp add: byte_of_def)
  moreover have "CHR ''u'' \<noteq> quote_char" "CHR ''u'' \<noteq> backslash" by (simp_all add: quote_char_def backslash_def)
  ultimately show ?thesis using False hex_val_kHex [OF b(2)] hex_val_kHex [OF b(3)]
    by (simp add: escape_char_def)
qed

lemma read_chars_lit: "read_chars (concat (map escape_char t) @ quote_char # s) = Some (t, s)"
  by (induction t) (simp_all add: read_escaped)

lemma read_string_lit: "read_string (lit t @ s) = Some (t, s)"
  by (simp add: read_string_def lit_def quoted_def read_chars_lit)

text \<open>What may stand behind a value.\<close>

definition ends :: "string \<Rightarrow> bool" where
  "ends s \<longleftrightarrow> (case s of [] \<Rightarrow> True | c # r \<Rightarrow> \<not> is_digit c)"

lemma takeWhile_digits: "list_all is_digit ds \<Longrightarrow> ends s \<Longrightarrow> takeWhile is_digit (ds @ s) = ds \<and> dropWhile is_digit (ds @ s) = s"
  by (induction ds) (auto simp: ends_def split: list.splits)

lemma sep_by_Cons: "sep_by (x # xs) = x @ (if xs = [] then [] else '','' @ sep_by xs)"
  by (cases xs) simp_all

lemma length_sep: "length (sep_by xs) = sum_list (map length xs) + (length xs - 1)"
  by (induction xs rule: sep_by.induct) simp_all

text \<open>The reader returns a value's text to the value, given fuel for its length.\<close>

lemma digit_not: "is_digit c \<Longrightarrow> c \<noteq> quote_char"
  by (auto simp: is_digit_def quote_char_def)

lemma text_first: "\<exists>c r. text_of v = c # r \<and> c \<noteq> CHR '']'' \<and> c \<noteq> CHR ''}''"
proof (cases v)
  case (JNum n)
  obtain c r where d: "dec_of n = c # r" by (cases "dec_of n") auto
  then have "is_digit c" using dec_of_digits [of c n] by simp
  then have "c \<noteq> CHR '']'' \<and> c \<noteq> CHR ''}''" by (auto simp: is_digit_def)
  then show ?thesis using JNum d by simp
qed (auto simp: lit_def quoted_def quote_char_def)

lemma member_first: "\<exists>c r. member_text m = c # r \<and> c \<noteq> CHR ''}''"
  by (simp add: member_text_def lit_def quoted_def quote_char_def)

text \<open>The reader on one value, one array and one object, given what it does on what is inside.\<close>

lemma read_number: "ends s \<Longrightarrow> read_val (Suc n) (dec_of k @ s) = Some (JNum k, s)"
proof -
  assume s: "ends s"
  obtain c r where d: "dec_of k = c # r" by (cases "dec_of k") auto
  then have c: "is_digit c" using dec_of_digits [of c k] by simp
  have "takeWhile is_digit (dec_of k @ s) = dec_of k" "dropWhile is_digit (dec_of k @ s) = s"
    using takeWhile_digits [of "dec_of k" s] s by simp_all
  then show ?thesis using c digit_not [OF c] dec_val_dec_of [of k] by (simp add: d)
qed

lemma read_array:
  assumes "vs \<noteq> [] \<Longrightarrow> read_elems n (sep_by (map text_of vs) @ CHR '']'' # s) = Some (vs, s)"
  shows "read_val (Suc n) (text_of (JArr vs) @ s) = Some (JArr vs, s)"
proof (cases "vs = []")
  case False
  then obtain c r where "sep_by (map text_of vs) = c # r" "c \<noteq> CHR '']''"
    using text_first [of "hd vs"] by (cases vs) (auto simp: sep_by_Cons)
  then show ?thesis using assms [OF False] by (simp add: quote_char_def is_digit_def)
qed (simp add: quote_char_def is_digit_def)

lemma read_object:
  assumes "ms \<noteq> [] \<Longrightarrow> read_members n (members_text ms @ CHR ''}'' # s) = Some (ms, s)"
  shows "read_val (Suc n) (text_of (JObj ms) @ s) = Some (JObj ms, s)"
proof (cases "ms = []")
  case False
  then obtain c r where "members_text ms = c # r" "c \<noteq> CHR ''}''"
    using member_first [of "hd ms"] by (cases ms) (auto simp: members_text_def sep_by_Cons)
  then show ?thesis using assms [OF False] unfolding text_obj
    by (simp add: json_str_def quote_char_def is_digit_def)
qed (simp add: quote_char_def is_digit_def)

lemma ends_simps [simp]: "ends (CHR '','' # s)" "ends (CHR '']'' # s)" "ends (CHR ''}'' # s)"
  by (simp_all add: ends_def is_digit_def)

lemma reader_inverts:
  "length (text_of v) < n \<Longrightarrow> ends s \<Longrightarrow> read_val n (text_of v @ s) = Some (v, s)"
  "vs \<noteq> [] \<Longrightarrow> length (sep_by (map text_of vs)) + 1 < n \<Longrightarrow>
     read_elems n (sep_by (map text_of vs) @ CHR '']'' # s) = Some (vs, s)"
  "ms \<noteq> [] \<Longrightarrow> length (members_text ms) + 1 < n \<Longrightarrow>
     read_members n (members_text ms @ CHR ''}'' # s) = Some (ms, s)"
proof (induction n arbitrary: v vs ms s)
  case 0
  { case 1 then show ?case by simp }
  { case 2 then show ?case by simp }
  { case 3 then show ?case by simp }
next
  case (Suc n)
  { case 1
    show ?case
    proof (cases v)
      case (JStr t)
      then show ?thesis by (simp add: lit_def quoted_def read_chars_lit)
    next
      case (JNum k)
      then show ?thesis using read_number [OF 1(2)] by simp
    next
      case (JArr vs)
      show ?thesis unfolding JArr by (rule read_array) (use Suc.IH(2) 1 JArr in simp)
    next
      case (JObj ms)
      show ?thesis unfolding JObj
        by (rule read_object) (use Suc.IH(3) 1(1) [unfolded JObj text_obj] in \<open>simp add: json_str_def\<close>)
    qed }
  { case 2
    then obtain v ws where vs: "vs = v # ws" by (cases vs) auto
    show ?case
      using 2 vs Suc.IH(1) [of v "CHR '']'' # s"] Suc.IH(2) [of ws s]
        Suc.IH(1) [of v "CHR '','' # sep_by (map text_of ws) @ CHR '']'' # s"]
      by (cases "ws = []") (simp_all add: sep_by_Cons) }
  { case 3
    then obtain name v ns where ms: "ms = (name, v) # ns" by (cases ms) auto
    show ?case
      using 3 ms Suc.IH(1) [of v "CHR ''}'' # s"] Suc.IH(3) [of ns s]
        Suc.IH(1) [of v "CHR '','' # members_text ns @ CHR ''}'' # s"]
      by (cases "ns = []") (simp_all add: members_text_def member_text_def read_string_lit sep_by_Cons) }
qed

lemma read_json_text: "read_json (text_of v) = Some v"
  using reader_inverts(1) [of v "length (text_of v) + 1" "[]"]
  by (simp add: read_json_def ends_def del: text_of.simps)

lemma read_json_members: "read_json (json_str (members_text ms)) = Some (JObj ms)"
  using read_json_text [of "JObj ms"] by (simp only: text_obj)

lemmas json_members = add_string_members add_number_members add_strings_members add_objects_members


section \<open>Properties\<close>

text \<open>
  C34: What is built is what is read. Take any object built so far; after a string, a number, an
  array of strings and an array of objects are added to it, its text is a well-formed JSON text and
  reads back as that object with these four members behind the old ones, in order, with the very
  names, characters and numbers that were given: no quote, backslash or control character in a
  name or value can break or forge the structure. The text of an error reads back as its message.
\<close>

theorem json_builder_reads_back:
  "read_json (json_str (add_objects n4 (map members_text mss) (add_strings n3 vs
      (add_number n2 w (add_string n1 t (members_text ms)))))) =
     Some (JObj (ms @ [(n1, JStr t), (n2, JNum (unat w)), (n3, JArr (map JStr vs)),
       (n4, JArr (map JObj mss))]))
   \<and> members_text [] = []
   \<and> read_json (json_error msg) = Some (JObj [(''error'', JStr msg)])"
  using read_json_members [of "[(''error'', JStr msg)]"] add_string_members [of "''error''" msg "[]"]
  by (simp add: json_members read_json_members json_error_def)

end
