(* ===== verification/Links.thy ===== *)
theory Links
  imports Json Cdr Store
begin

text \<open>
  \<open>inc/query/iquery_store.hpp\<close>, \<open>src/query/query_params.cpp\<close> and \<open>src/query/links.cpp\<close>: the read side
  of the store as a record of functions, the parameters of a listing request, the page they cut and
  the peers of a subscriber. A store that cannot be reached answers \<open>None\<close>. A request is the
  argument \<open>req\<close>: the parameters it names. The hash map of \<open>link_weights\<close> is an association list;
  \<open>std::sort\<close> is an insertion sort, and \<open>order_peers_unique\<close> shows that the comparator leaves no
  choice between sorting algorithms.
\<close>

section \<open>The read side of the store\<close>

type_synonym Fields = "(string \<times> string) list"
type_synonym Ranked = "(string \<times> u64) list"

record IQueryStore =
  q_hgetall :: "string \<Rightarrow> Fields option"
  q_hkeys :: "string \<Rightarrow> string list option"
  q_hmget :: "string \<Rightarrow> string list \<Rightarrow> string list option"
  q_dbsize :: "u64 option"
  q_top :: "string \<Rightarrow> u64 \<Rightarrow> u64 \<Rightarrow> (Ranked \<times> u64) option"

text \<open>A response.\<close>

record Result =
  status :: nat
  rbody :: string

definition bad :: "nat \<Rightarrow> string \<Rightarrow> Result" where
  "bad st msg = \<lparr>status = st, rbody = json_error msg\<rparr>"

definition to_num :: "string \<Rightarrow> u64" where
  "to_num value = (case from_chars_u64 value of (Inr v, rest) \<Rightarrow> v | (Inl e, rest) \<Rightarrow> 0)"

lemma to_num_dec64 [simp]: "to_num (dec64 w) = w"
  by (simp add: to_num_def num_simps)

section \<open>Parameters\<close>

datatype Sort = ByDuration | BySms

record QueryParams =
  p_weights :: bool
  p_sort :: Sort
  p_offset :: u64
  p_limit :: u64

definition default_params :: QueryParams where
  "default_params = \<lparr>p_weights = False, p_sort = ByDuration, p_offset = 0, p_limit = 0\<rparr>"

definition kPeerLimit :: u64 where "kPeerLimit = 100"
definition kPeerLimitMax :: u64 where "kPeerLimitMax = 1000"
definition kTopLimit :: u64 where "kTopLimit = 20"
definition kTopLimitMax :: u64 where "kTopLimitMax = 500"
definition kSortDur :: string where "kSortDur = ''dur''"
definition kSortSms :: string where "kSortSms = ''sms''"

definition kJsonVoiceOut :: string where "kJsonVoiceOut = ''voice-out''"
definition kJsonVoiceIn :: string where "kJsonVoiceIn = ''voice-in''"
definition kJsonDataOut :: string where "kJsonDataOut = ''data-out''"
definition kJsonDataIn :: string where "kJsonDataIn = ''data-in''"
definition kJsonSmsOut :: string where "kJsonSmsOut = ''sms-out''"
definition kJsonSmsIn :: string where "kJsonSmsIn = ''sms-in''"
definition kJsonNoans :: string where "kJsonNoans = ''no-answer''"
definition kJsonBusy :: string where "kJsonBusy = ''busy''"
definition kJsonFailed :: string where "kJsonFailed = ''failed''"
definition kJsonDuration :: string where "kJsonDuration = ''duration''"
definition kJsonSms :: string where "kJsonSms = ''sms''"
definition kJsonCalls :: string where "kJsonCalls = ''calls''"
definition kJsonMaxHops :: string where "kJsonMaxHops = ''max-hops''"
definition kJsonMaxVisited :: string where "kJsonMaxVisited = ''max-visited''"

definition param :: "(string \<Rightarrow> string option) \<Rightarrow> string \<Rightarrow> string" where
  "param req name = (case req name of None \<Rightarrow> [] | Some v \<Rightarrow> v)"

definition count_of :: "string \<Rightarrow> u64 option" where
  "count_of t = (case from_chars_u64 t of (Inr v, []) \<Rightarrow> Some v | _ \<Rightarrow> None)"

definition refused :: "string \<Rightarrow> Result" where
  "refused name = bad 400 (''bad '' @ name)"

text \<open>\<open>Inl\<close> is the response of a refusal, \<open>Inr\<close> the parameters.\<close>

definition parseParams ::
    "(string \<Rightarrow> string option) \<Rightarrow> u64 \<Rightarrow> u64 \<Rightarrow> Result + QueryParams" where
  "parseParams req fallback cap =
     (let weights = param req ''weights''; sort = param req ''sort'';
          offset = param req ''offset''; limit = param req ''limit'' in
      if weights \<noteq> [] \<and> weights \<noteq> ''0'' \<and> weights \<noteq> ''1'' then Inl (refused ''weights'')
      else
        let out = default_params\<lparr>p_weights := (weights = ''1'')\<rparr> in
        if sort \<noteq> [] \<and> sort \<noteq> kSortDur \<and> sort \<noteq> kSortSms then Inl (refused ''sort'')
        else
          let out = out\<lparr>p_sort := (if sort = kSortSms then BySms else ByDuration)\<rparr> in
          (case (if offset = [] then Some 0 else count_of offset) of
             None \<Rightarrow> Inl (refused ''offset'')
           | Some off \<Rightarrow>
               (case (if limit = [] then Some fallback else count_of limit) of
                  None \<Rightarrow> Inl (refused ''limit'')
                | Some lim \<Rightarrow> Inr (out\<lparr>p_offset := off, p_limit := min lim cap\<rparr>))))"

text \<open>The page of a listing; offsets and limits are compared with the length as numbers.\<close>

definition page :: "'a list \<Rightarrow> QueryParams \<Rightarrow> 'a list" where
  "page xs params =
     (if length xs \<le> unat (p_offset params) then []
      else
        let rest = length xs - unat (p_offset params);
            taken_n = (if p_limit params = 0 then rest else min (unat (p_limit params)) rest)
        in take taken_n (drop (unat (p_offset params)) xs))"

section \<open>Peers\<close>

record Peer =
  msisdn :: string
  pduration :: u64
  psms :: u64
  pcalls :: u64

definition empty_peer :: Peer where
  "empty_peer = \<lparr>msisdn = [], pduration = 0, psms = 0, pcalls = 0\<rparr>"

definition links_key :: "string \<Rightarrow> string" where
  "links_key m = kLinkPrefix @ m"

definition cut_suffix :: "string \<Rightarrow> string" where
  "cut_suffix field = (case rfind (CHR '':'') field of None \<Rightarrow> field | Some colon \<Rightarrow> take colon field)"

definition link_peers :: "IQueryStore \<Rightarrow> string \<Rightarrow> string list option" where
  "link_peers q m = map_option (\<lambda>fields. remdups_adj (sort (map cut_suffix fields))) (q_hkeys q (links_key m))"

definition weigh :: "string \<times> string \<Rightarrow> (string \<times> Peer) list \<Rightarrow> (string \<times> Peer) list" where
  "weigh = (\<lambda>(field, value) acc.
     case rfind (CHR '':'') field of
       None \<Rightarrow> acc
     | Some colon \<Rightarrow>
         let name = take colon field; suffix = drop colon field in
         upd_default name empty_peer (\<lambda>p.
           let p = p\<lparr>msisdn := name\<rparr> in
           if suffix = kFieldSmsSuffix then p\<lparr>psms := to_num value\<rparr>
           else if suffix = kFieldCntSuffix then p\<lparr>pcalls := to_num value\<rparr>
           else p\<lparr>pduration := to_num value\<rparr>) acc)"

definition link_weights :: "IQueryStore \<Rightarrow> string \<Rightarrow> Peer list option" where
  "link_weights q m = map_option (\<lambda>fields. map snd (fold weigh fields [])) (q_hgetall q (links_key m))"

text \<open>The comparator of \<open>order_peers\<close>: whether the left peer goes first.\<close>

definition peer_before :: "Sort \<Rightarrow> Peer \<Rightarrow> Peer \<Rightarrow> bool" where
  "peer_before srt left right =
     (let leftBy = (if srt = BySms then psms left else pduration left);
          rightBy = (if srt = BySms then psms right else pduration right);
          leftTie = (if srt = BySms then pduration left else psms left);
          rightTie = (if srt = BySms then pduration right else psms right) in
      if leftBy \<noteq> rightBy then rightBy < leftBy
      else if leftTie \<noteq> rightTie then rightTie < leftTie
      else msisdn left < msisdn right)"

fun insert_by :: "('a \<Rightarrow> 'a \<Rightarrow> bool) \<Rightarrow> 'a \<Rightarrow> 'a list \<Rightarrow> 'a list" where
  "insert_by before x [] = [x]"
| "insert_by before x (y # ys) = (if before y x then y # insert_by before x ys else x # y # ys)"

definition order_peers :: "Peer list \<Rightarrow> Sort \<Rightarrow> Peer list" where
  "order_peers peers srt = foldr (insert_by (peer_before srt)) peers []"

section \<open>Lemmas\<close>

text \<open>The two ways a request may go.\<close>

lemma params_cases:
  obtains (bad) name where "parseParams req fallback cap = Inl (refused name)"
    | (good) out off lim where "parseParams req fallback cap = Inr (out\<lparr>p_offset := off, p_limit := min lim cap\<rparr>)"
        "(if param req ''limit'' = [] then Some fallback else count_of (param req ''limit'')) = Some lim"
proof -
  obtain c1 c2 where c: "parseParams req fallback cap =
    (if c1 then Inl (refused ''weights'') else if c2 then Inl (refused ''sort'')
     else case (if param req ''offset'' = [] then Some 0 else count_of (param req ''offset'')) of
       None \<Rightarrow> Inl (refused ''offset'')
     | Some off \<Rightarrow>
         (case (if param req ''limit'' = [] then Some fallback else count_of (param req ''limit'')) of
            None \<Rightarrow> Inl (refused ''limit'')
          | Some lim \<Rightarrow> Inr (default_params\<lparr>p_weights := (param req ''weights'' = ''1''),
              p_sort := (if param req ''sort'' = kSortSms then BySms else ByDuration),
              p_offset := off, p_limit := min lim cap\<rparr>)))"
    unfolding parseParams_def Let_def by blast
  consider (a) "c1" | (b) "\<not> c1" "c2" | (d) "\<not> c1" "\<not> c2" by blast
  then show thesis
  proof cases
    case d
    show thesis
    proof (cases "if param req ''offset'' = [] then Some 0 else count_of (param req ''offset'')")
      case None
      then show thesis using bad c d by simp
    next
      case off: (Some off)
      show thesis
      proof (cases "if param req ''limit'' = [] then Some fallback else count_of (param req ''limit'')")
        case None
        then show thesis using bad c d off by simp
      next
        case (Some lim)
        show thesis by (rule good [OF _ Some]) (use c d off Some in simp)
      qed
    qed
  qed (use bad c in simp_all)
qed

lemma params_limit: "parseParams req fallback cap = Inr p \<Longrightarrow> p_limit p \<le> cap"
  by (cases rule: params_cases [of req fallback cap]) auto

lemma params_refused: "parseParams req fallback cap = Inl r \<Longrightarrow> status r = 400"
  by (cases rule: params_cases [of req fallback cap]) (auto simp: refused_def bad_def)

lemma params_bad_limit:
  assumes "req ''limit'' = Some v" "v \<noteq> []" "count_of v = None"
  shows "\<exists>r. parseParams req fallback cap = Inl r"
  using assms by (cases rule: params_cases [of req fallback cap]) (auto simp: param_def)

text \<open>Pages of one size, put one after the other, are the listing.\<close>

lemma page_slice:
  "page xs p = (if p_limit p = 0 then drop (unat (p_offset p)) xs
     else take (unat (p_limit p)) (drop (unat (p_offset p)) xs))"
  by (simp add: page_def Let_def min_def)

lemma mset_insert_by [simp]: "mset (insert_by before x ys) = add_mset x (mset ys)"
  by (induction ys) auto

lemma peer_before_cases:
  "peer_before srt a b \<or> peer_before srt b a
     \<or> (msisdn a = msisdn b \<and> pduration a = pduration b \<and> psms a = psms b)"
  by (cases srt) (auto simp: peer_before_def Let_def)

lemma peer_before_irrefl [simp]: "\<not> peer_before srt a a"
  by (simp add: peer_before_def)

lemma peer_before_trans: "peer_before srt a b \<Longrightarrow> peer_before srt b c \<Longrightarrow> peer_before srt a c"
  by (cases srt) (auto simp: peer_before_def Let_def split: if_splits)

lemma peer_before_asym: "peer_before srt a b \<Longrightarrow> \<not> peer_before srt b a"
  using peer_before_trans peer_before_irrefl by blast

lemma peer_not_before_trans: "\<not> peer_before srt b a \<Longrightarrow> \<not> peer_before srt c b \<Longrightarrow> \<not> peer_before srt c a"
  by (cases srt) (auto simp: peer_before_def Let_def split: if_splits)

lemma insert_by_sorted:
  "sorted_wrt (\<lambda>a b. \<not> peer_before srt b a) ys \<Longrightarrow>
     sorted_wrt (\<lambda>a b. \<not> peer_before srt b a) (insert_by (peer_before srt) x ys)"
proof (induction ys)
  case (Cons y ys)
  have set: "set (insert_by (peer_before srt) x ys) = insert x (set ys)"
    using mset_insert_by [of "peer_before srt" x ys] by (metis set_mset_add_mset_insert set_mset_mset)
  show ?case
  proof (cases "peer_before srt y x")
    case True
    then show ?thesis using Cons peer_before_asym [OF True] by (simp add: set)
  next
    case False
    then show ?thesis using Cons.prems peer_not_before_trans [of srt y x] by auto
  qed
qed simp

lemma order_peers_mset [simp]: "mset (order_peers peers srt) = mset peers"
  by (induction peers) (simp_all add: order_peers_def)

lemma order_peers_sorted: "sorted_wrt (\<lambda>a b. \<not> peer_before srt b a) (order_peers peers srt)"
  by (induction peers) (simp_all add: order_peers_def insert_by_sorted)

lemma sorted_unique:
  assumes "mset xs = mset ys" "distinct (map msisdn xs)"
    and "sorted_wrt (\<lambda>a b. \<not> peer_before srt b a) xs" "sorted_wrt (\<lambda>a b. \<not> peer_before srt b a) ys"
  shows "xs = ys"
  using assms
proof (induction xs arbitrary: ys)
  case (Cons x xs)
  then obtain y zs where ys: "ys = y # zs" by (cases ys) auto
  have "x = y"
  proof (rule ccontr)
    assume "x \<noteq> y"
    then have "y \<in> set xs" "x \<in> set zs"
      using Cons.prems(1) ys by (metis insert_iff list.simps(15) set_mset_mset)+
    then have "\<not> peer_before srt y x" "\<not> peer_before srt x y" using Cons.prems(3,4) ys by auto
    then have "msisdn x = msisdn y" using peer_before_cases [of srt x y] by auto
    then show False using Cons.prems(2) \<open>y \<in> set xs\<close> by (metis distinct.simps(2) image_eqI list.simps(9) list.set_map)
  qed
  moreover have "xs = zs" using Cons ys \<open>x = y\<close> by simp
  ultimately show ?case using ys by simp
qed simp

text \<open>The peers of a subscriber, as the sorted set of the names before the last colon.\<close>

lemma distinct_adj_sorted: "sorted xs \<Longrightarrow> distinct_adj xs \<Longrightarrow> distinct xs" for xs :: "'a :: linorder list"
proof (induction xs)
  case (Cons x xs)
  show ?case
  proof (cases xs)
    case (Cons y ys)
    with Cons.prems have "x < y" "sorted xs" "distinct_adj xs" by auto
    moreover have "y \<le> z" if "z \<in> set xs" for z using that \<open>sorted xs\<close> Cons by auto
    ultimately show ?thesis using Cons.IH by fastforce
  qed simp
qed simp

lemma distinct_remdups_sorted: "sorted xs \<Longrightarrow> distinct (remdups_adj xs)" for xs :: "'a :: linorder list"
  by (rule distinct_adj_sorted) simp_all

lemma link_peers_spec:
  "link_peers q m = Some ps \<Longrightarrow>
     \<exists>fields. q_hkeys q (links_key m) = Some fields \<and> sorted ps \<and> distinct ps
       \<and> set ps = cut_suffix ` set fields"
  by (auto simp: link_peers_def distinct_remdups_sorted)

section \<open>What the weights are\<close>

text \<open>A field of a link's hash, as the writer names it, and the number a hash holds under a name.\<close>

definition metric_field :: "string \<Rightarrow> bool" where
  "metric_field f \<longleftrightarrow> (\<exists>name. f = name @ kFieldDurSuffix \<or> f = name @ kFieldSmsSuffix \<or> f = name @ kFieldCntSuffix)"

definition stored_num :: "Fields \<Rightarrow> string \<Rightarrow> u64" where
  "stored_num fs f = (case map_of fs f of None \<Rightarrow> 0 | Some v \<Rightarrow> to_num v)"

definition peer_of :: "Fields \<Rightarrow> string \<Rightarrow> Peer" where
  "peer_of fs name = \<lparr>msisdn = name, pduration = stored_num fs (name @ kFieldDurSuffix),
     psms = stored_num fs (name @ kFieldSmsSuffix), pcalls = stored_num fs (name @ kFieldCntSuffix)\<rparr>"

lemma peer_of_name [simp]: "msisdn (peer_of fs name) = name"
  by (simp add: peer_of_def)

lemma suffix_colon:
  "rfind (CHR '':'') (name @ kFieldDurSuffix) = Some (length name)"
  "rfind (CHR '':'') (name @ kFieldSmsSuffix) = Some (length name)"
  "rfind (CHR '':'') (name @ kFieldCntSuffix) = Some (length name)"
  using rfind_last [of "CHR '':''" "''dur''" name] rfind_last [of "CHR '':''" "''sms''" name]
    rfind_last [of "CHR '':''" "''cnt''" name]
  by (simp_all add: kFieldDurSuffix_def kFieldSmsSuffix_def kFieldCntSuffix_def)

lemma cut_suffix_metric [simp]:
  "cut_suffix (name @ kFieldDurSuffix) = name" "cut_suffix (name @ kFieldSmsSuffix) = name"
  "cut_suffix (name @ kFieldCntSuffix) = name"
  by (simp_all add: cut_suffix_def suffix_colon)

lemma suffix_eqs [simp]:
  "kFieldDurSuffix \<noteq> kFieldSmsSuffix" "kFieldDurSuffix \<noteq> kFieldCntSuffix" "kFieldCntSuffix \<noteq> kFieldSmsSuffix"
  "kFieldSmsSuffix \<noteq> kFieldCntSuffix" "kFieldSmsSuffix \<noteq> kFieldDurSuffix" "kFieldCntSuffix \<noteq> kFieldDurSuffix"
  by (simp_all add: kFieldDurSuffix_def kFieldSmsSuffix_def kFieldCntSuffix_def)

lemma name_suffix_eq [simp]:
  "a @ kFieldDurSuffix = b @ kFieldSmsSuffix \<longleftrightarrow> False" "a @ kFieldDurSuffix = b @ kFieldCntSuffix \<longleftrightarrow> False"
  "a @ kFieldSmsSuffix = b @ kFieldDurSuffix \<longleftrightarrow> False" "a @ kFieldSmsSuffix = b @ kFieldCntSuffix \<longleftrightarrow> False"
  "a @ kFieldCntSuffix = b @ kFieldDurSuffix \<longleftrightarrow> False" "a @ kFieldCntSuffix = b @ kFieldSmsSuffix \<longleftrightarrow> False"
  by (simp_all add: kFieldDurSuffix_def kFieldSmsSuffix_def kFieldCntSuffix_def)

lemma stored_num_snoc:
  "f \<notin> fst ` set fs \<Longrightarrow> stored_num (fs @ [(f, v)]) g = (if g = f then to_num v else stored_num fs g)"
  by (auto simp: stored_num_def map_add_def map_of_eq_None_iff [THEN iffD2] split: option.split)

lemma weigh_metric:
  assumes "metric_field f" "f \<notin> fst ` set fs" "\<And>name. (at_default empty_peer acc name)\<lparr>msisdn := name\<rparr> = peer_of fs name"
  shows "(at_default empty_peer (weigh (f, v) acc) name)\<lparr>msisdn := name\<rparr> = peer_of (fs @ [(f, v)]) name
    \<and> msisdn (at_default empty_peer (weigh (f, v) acc) name)
        = (if name = cut_suffix f then name else msisdn (at_default empty_peer acc name))
    \<and> fst ` set (weigh (f, v) acc) = insert (cut_suffix f) (fst ` set acc)
    \<and> (distinct_keys acc \<longrightarrow> distinct_keys (weigh (f, v) acc))"
proof -
  from assms(1) obtain nm where
    "f = nm @ kFieldDurSuffix \<or> f = nm @ kFieldSmsSuffix \<or> f = nm @ kFieldCntSuffix"
    by (auto simp: metric_field_def)
  then show ?thesis using assms(2) assms(3) [of name] assms(3) [of nm]
    by (elim disjE; cases "at_default empty_peer acc nm"; cases "name = nm")
      (simp_all add: weigh_def suffix_colon map_simps peer_of_def stored_num_snoc)
qed

lemma fold_weigh:
  assumes "distinct (map fst fs)" "list_all metric_field (map fst fs)"
  shows "distinct_keys (fold weigh fs [])
    \<and> fst ` set (fold weigh fs []) = cut_suffix ` fst ` set fs
    \<and> (\<forall>name. (at_default empty_peer (fold weigh fs []) name)\<lparr>msisdn := name\<rparr> = peer_of fs name)
    \<and> (\<forall>name \<in> cut_suffix ` fst ` set fs. msisdn (at_default empty_peer (fold weigh fs []) name) = name)"
  using assms
proof (induction fs rule: rev_induct)
  case Nil
  then show ?case by (simp add: stored_num_def map_simps peer_of_def empty_peer_def)
next
  case (snoc x fs)
  obtain f v where x: "x = (f, v)" by (cases x)
  have f: "metric_field f" "f \<notin> fst ` set fs" using snoc.prems by (auto simp: x)
  have ih: "distinct_keys (fold weigh fs [])" "fst ` set (fold weigh fs []) = cut_suffix ` fst ` set fs"
      "\<And>name. (at_default empty_peer (fold weigh fs []) name)\<lparr>msisdn := name\<rparr> = peer_of fs name"
      "\<forall>name \<in> cut_suffix ` fst ` set fs. msisdn (at_default empty_peer (fold weigh fs []) name) = name"
    using snoc by auto
  have eq: "fold weigh (fs @ [x]) [] = weigh (f, v) (fold weigh fs [])" by (simp add: x)
  note w = weigh_metric [OF f ih(3), where v = v]
  show ?case unfolding eq using w ih(1,2,4) by (auto simp: x)
qed

lemma link_weights_spec:
  assumes "q_hgetall q (links_key m) = Some fs" "distinct (map fst fs)" "list_all metric_field (map fst fs)"
    and "link_weights q m = Some ps"
  shows "distinct (map msisdn ps) \<and> msisdn ` set ps = cut_suffix ` fst ` set fs
    \<and> (\<forall>p \<in> set ps. p = peer_of fs (msisdn p))"
proof -
  let ?m = "fold weigh fs []"
  note w = fold_weigh [OF assms(2,3)]
  have ps: "ps = map snd ?m" using assms(1,4) by (simp add: link_weights_def)
  have e: "v = peer_of fs k \<and> msisdn v = k" if "(k, v) \<in> set ?m" for k v
  proof -
    have "map_of ?m k = Some v" using that conjunct1 [OF w] by (simp add: distinct_keys_def)
    then have "at_default empty_peer ?m k = v" by (simp add: at_default_def)
    moreover have "k \<in> fst ` set ?m" using that by force
    then have "k \<in> cut_suffix ` fst ` set fs" using w by blast
    ultimately have "v\<lparr>msisdn := k\<rparr> = peer_of fs k" "msisdn v = k" using w by blast+
    moreover have "v\<lparr>msisdn := k\<rparr> = v" using \<open>msisdn v = k\<close> by (cases v) simp
    ultimately show ?thesis by simp
  qed
  have "map (msisdn \<circ> snd) ?m = map fst ?m"
  proof (rule map_cong [OF refl])
    fix x assume "x \<in> set ?m"
    then have "(fst x, snd x) \<in> set ?m" by simp
    from conjunct2 [OF e [OF this]] show "(msisdn \<circ> snd) x = fst x" unfolding comp_apply .
  qed
  then have names: "map msisdn ps = map fst ?m" by (simp add: ps)
  then have "distinct (map msisdn ps)" using conjunct1 [OF w] by (simp add: distinct_keys_def)
  moreover have "msisdn ` set ps = cut_suffix ` fst ` set fs" using w names by (metis list.set_map)
  moreover have "\<forall>p \<in> set ps. p = peer_of fs (msisdn p)"
  proof
    fix p assume "p \<in> set ps"
    then obtain k where "(k, p) \<in> set ?m" by (auto simp: ps)
    from e [OF this] have "p = peer_of fs k" and k: "msisdn p = k" by blast+
    then show "p = peer_of fs (msisdn p)" unfolding k by blast
  qed
  ultimately show ?thesis by blast
qed

section \<open>Properties\<close>

text \<open>
  The parameters of a listing are checked: a request that names none gets the defaults; a limit
  that is accepted is at most the cap; a value that is not a number or not one of the names
  allowed is refused with status 400.
\<close>

theorem params_checked:
  "parseParams (\<lambda>_. None) fallback cap = Inr \<lparr>p_weights = False, p_sort = ByDuration, p_offset = 0, p_limit = min fallback cap\<rparr>
   \<and> (case parseParams req fallback cap of Inl r \<Rightarrow> status r = 400 | Inr p \<Rightarrow> p_limit p \<le> cap)
   \<and> (\<not> isl (parseParams req fallback cap)) =
       (param req ''weights'' \<in> {[], ''0'', ''1''} \<and> param req ''sort'' \<in> {[], ''dur'', ''sms''}
        \<and> (if param req ''offset'' = [] then Some 0 else count_of (param req ''offset'')) \<noteq> None
        \<and> (if param req ''limit'' = [] then Some fallback else count_of (param req ''limit'')) \<noteq> None)"
proof (intro conjI)
  show "parseParams (\<lambda>_. None) fallback cap
      = Inr \<lparr>p_weights = False, p_sort = ByDuration, p_offset = 0, p_limit = min fallback cap\<rparr>"
    by (simp add: parseParams_def param_def default_params_def Let_def kSortSms_def)
  show "case parseParams req fallback cap of Inl r \<Rightarrow> status r = 400 | Inr p \<Rightarrow> p_limit p \<le> cap"
    using params_refused [of req fallback cap] params_limit [of req fallback cap] by (simp split: sum.split)
  show "(\<not> isl (parseParams req fallback cap)) =
       (param req ''weights'' \<in> {[], ''0'', ''1''} \<and> param req ''sort'' \<in> {[], ''dur'', ''sms''}
        \<and> (if param req ''offset'' = [] then Some 0 else count_of (param req ''offset'')) \<noteq> None
        \<and> (if param req ''limit'' = [] then Some fallback else count_of (param req ''limit'')) \<noteq> None)"
    unfolding parseParams_def Let_def kSortSms_def kSortDur_def
    by (cases "if param req ''offset'' = [] then Some 0 else count_of (param req ''offset'')";
        cases "if param req ''limit'' = [] then Some fallback else count_of (param req ''limit'')"; simp)
qed

text \<open>
  A limit of 0 asks for everything. A request that says limit=0 is accepted whatever the cap is,
  and the page it gets is the whole rest of the listing.
\<close>

theorem zero_limit_is_unbounded:
  "parseParams [''limit'' \<mapsto> ''0''] fallback cap =
     Inr \<lparr>p_weights = False, p_sort = ByDuration, p_offset = 0, p_limit = 0\<rparr>
   \<and> page xs \<lparr>p_weights = False, p_sort = ByDuration, p_offset = 0, p_limit = 0\<rparr> = xs"
proof -
  have z: "dec64 0 = ''0''" by (simp add: dec64_def dec_of.simps num_simps)
  have "count_of ''0'' = Some 0" using from_chars_dec64 [of 0] by (simp add: count_of_def z)
  then show ?thesis
    by (simp add: parseParams_def param_def default_params_def Let_def page_slice kSortSms_def min_def)
qed

lemma take_pages: "concat (map (\<lambda>i. take k (drop (i * k) xs)) [0..<n]) = take (n * k) xs"
proof (induction n)
  case (Suc n)
  have "take (n * k + k) xs = take (n * k) xs @ take k (drop (n * k) xs)" by (rule take_add)
  then show ?case using Suc by (simp add: add.commute)
qed simp

text \<open>
  Pages do not overlap and leave nothing out: a page holds at most \<open>limit\<close> entries, and the
  pages of one size, one behind the other, are the listing, in order.
\<close>

theorem pages_partition:
  assumes "lim \<noteq> 0" "length xs < 2 ^ 64"
  shows "concat (map (\<lambda>i. page xs \<lparr>p_weights = w, p_sort = srt, p_offset = of_nat (i * unat lim), p_limit = lim\<rparr>)
      [0..<length xs div unat lim + 1]) = xs
    \<and> length (page xs \<lparr>p_weights = w, p_sort = srt, p_offset = off, p_limit = lim\<rparr>) \<le> unat lim"
proof
  let ?k = "unat lim" and ?n = "length xs div unat lim + 1"
  have k: "0 < ?k" using assms(1) by (simp add: unat_gt_0)
  have p: "page xs \<lparr>p_weights = w, p_sort = srt, p_offset = of_nat (i * ?k), p_limit = lim\<rparr> = take ?k (drop (i * ?k) xs)"
    if "i \<in> set [0..<?n]" for i
  proof -
    have "i \<le> length xs div ?k" using that by auto
    then have "i * ?k \<le> length xs" by (metis div_times_less_eq_dividend le_trans mult_le_mono1)
    then have "unat (of_nat (i * ?k) :: u64) = i * ?k" using assms(2) by (simp add: unat_of_nat take_bit_nat_eq_self del: of_nat_mult)
    then show ?thesis using assms(1) by (simp add: page_slice del: of_nat_mult)
  qed
  have l: "length xs \<le> ?n * ?k" using k by (simp add: dividend_less_div_times less_imp_le)
  then show "concat (map (\<lambda>i. page xs \<lparr>p_weights = w, p_sort = srt, p_offset = of_nat (i * unat lim), p_limit = lim\<rparr>)
      [0..<?n]) = xs"
  proof -
    have "map (\<lambda>i. page xs \<lparr>p_weights = w, p_sort = srt, p_offset = of_nat (i * ?k), p_limit = lim\<rparr>) [0..<?n]
        = map (\<lambda>i. take ?k (drop (i * ?k) xs)) [0..<?n]" by (rule map_cong [OF refl p])
    then show ?thesis using l by (simp only: take_pages take_all)
  qed
  show "length (page xs \<lparr>p_weights = w, p_sort = srt, p_offset = off, p_limit = lim\<rparr>) \<le> ?k"
    using assms(1) by (simp add: page_slice)
qed

theorem pages_partition_witness:
  "concat (map (\<lambda>i. page [''a'', ''b'', ''c''] \<lparr>p_weights = False, p_sort = ByDuration, p_offset = of_nat (i * unat (2::u64)), p_limit = 2\<rparr>)
      [0..<length [''a'', ''b'', ''c''] div unat (2::u64) + 1]) = [''a'', ''b'', ''c'']
    \<and> length (page [''a'', ''b'', ''c''] \<lparr>p_weights = False, p_sort = ByDuration, p_offset = 1, p_limit = 2\<rparr>) \<le> unat (2::u64)"
  by (rule pages_partition) simp_all

text \<open>
  The weighted listing has one order: the peers come out by the chosen metric, highest first,
  ties by the other metric and then by number; no peer is lost or doubled, and since the numbers
  differ any algorithm that sorts by this comparator gives the same listing, so paging is stable.
\<close>

theorem order_peers_unique:
  "mset (order_peers peers srt) = mset peers
   \<and> sorted_wrt (\<lambda>a b. \<not> peer_before srt b a) (order_peers peers srt)
   \<and> (distinct (map msisdn peers) \<longrightarrow>
       (\<forall>ys. mset ys = mset peers \<longrightarrow> sorted_wrt (\<lambda>a b. \<not> peer_before srt b a) ys \<longrightarrow> ys = order_peers peers srt))"
proof (intro conjI impI allI)
  fix ys
  assume a: "distinct (map msisdn peers)" "mset ys = mset peers" "sorted_wrt (\<lambda>a b. \<not> peer_before srt b a) ys"
  then have "distinct (map msisdn ys)" by (metis mset_map mset_eq_imp_distinct_iff)
  then show "ys = order_peers peers srt"
    using sorted_unique [of ys "order_peers peers srt" srt] a(2,3) order_peers_sorted by simp
qed (simp_all add: order_peers_sorted)

theorem order_peers_unique_witness:
  "[\<lparr>msisdn = ''2'', pduration = 9, psms = 0, pcalls = 1\<rparr>, \<lparr>msisdn = ''1'', pduration = 3, psms = 0, pcalls = 1\<rparr>]
     = order_peers [\<lparr>msisdn = ''1'', pduration = 3, psms = 0, pcalls = 1\<rparr>, \<lparr>msisdn = ''2'', pduration = 9, psms = 0, pcalls = 1\<rparr>] ByDuration"
  using order_peers_unique [of "[\<lparr>msisdn = ''1'', pduration = 3, psms = 0, pcalls = 1\<rparr>, \<lparr>msisdn = ''2'', pduration = 9, psms = 0, pcalls = 1\<rparr>]" ByDuration]
  by (simp add: peer_before_def)

text \<open>
  The peers of a subscriber are read back from the fields its hash holds: the names before the
  last colon, each once, in ascending order; and with weights each peer comes once, with the
  numbers stored under its three fields, 0 for one that is missing.
\<close>

theorem links_read_back:
  assumes "q_hgetall q (links_key m) = Some fs" "q_hkeys q (links_key m) = Some (map fst fs)"
    and "distinct (map fst fs)" "list_all metric_field (map fst fs)"
  shows "\<exists>names ps. link_peers q m = Some names \<and> link_weights q m = Some ps
    \<and> sorted names \<and> distinct names \<and> set names = cut_suffix ` fst ` set fs
    \<and> distinct (map msisdn ps) \<and> set ps = peer_of fs ` set names"
proof -
  obtain names where n: "link_peers q m = Some names" using assms(2) by (simp add: link_peers_def)
  obtain ps where p: "link_weights q m = Some ps" using assms(1) by (simp add: link_weights_def)
  from link_peers_spec [OF n] assms(2) have s: "sorted names" "distinct names" "set names = cut_suffix ` fst ` set fs"
    by auto
  note w = link_weights_spec [OF assms(1,3,4) p]
  have d: "distinct (map msisdn ps)" and m: "msisdn ` set ps = set names"
    using conjunct1 [OF w] conjunct1 [OF conjunct2 [OF w]] s(3) by simp_all
  have "set ps = (\<lambda>p. peer_of fs (msisdn p)) ` set ps"
    by (rule set_eqI) (metis (no_types, lifting) conjunct2 [OF conjunct2 [OF w]] image_iff)
  then have e: "set ps = peer_of fs ` set names" unfolding m [symmetric] image_image .
  show ?thesis by (intro exI [of _ names] exI [of _ ps] conjI n p s d e)
qed

definition toy_query :: IQueryStore where
  "toy_query = \<lparr>q_hgetall = (\<lambda>k. Some (if k = ''link:1'' then [(''2:dur'', ''60''), (''2:cnt'', ''1'')] else [])),
     q_hkeys = (\<lambda>k. Some (if k = ''link:1'' then [''2:dur'', ''2:cnt''] else [])),
     q_hmget = (\<lambda>k fs. Some (map (\<lambda>_. []) fs)), q_dbsize = Some 1, q_top = (\<lambda>b off n. Some ([], 0))\<rparr>"

theorem links_read_back_witness:
  "\<exists>names ps. link_peers toy_query ''1'' = Some names \<and> link_weights toy_query ''1'' = Some ps
    \<and> sorted names \<and> distinct names \<and> set names = cut_suffix ` fst ` set [(''2:dur'', ''60''), (''2:cnt'', ''1'')]
    \<and> distinct (map msisdn ps) \<and> set ps = peer_of [(''2:dur'', ''60''), (''2:cnt'', ''1'')] ` set names"
proof (rule links_read_back)
  have "metric_field (''2'' @ kFieldDurSuffix)" "metric_field (''2'' @ kFieldCntSuffix)"
    by (simp only: metric_field_def, blast)+
  then show "list_all metric_field (map fst [(''2:dur'', ''60''), (''2:cnt'', ''1'')])"
    by (simp add: kFieldDurSuffix_def kFieldCntSuffix_def)
qed (simp_all add: toy_query_def links_key_def kLinkPrefix_def)

end
