(* ===== verification/PathService.thy ===== *)
theory PathService
  imports Links
begin

text \<open>
  \<open>src/query/services/path_service.cpp\<close>: the search for a path between two subscribers, from both
  ends at once, bounded by the number of hops and by the number of subscribers it may visit. Index 0
  of the two trails and frontiers is \<open>False\<close> (grown from the first party), index 1 is \<open>True\<close>. The
  store stands still for the time of the search here; \<open>LivePath\<close> lets it change between two reads. The specification is the relation
  \<open>linked\<close> and its powers: a path of \<open>n\<close> hops is a pair of \<open>linked ^^ n\<close>. The two loops of \<open>walk\<close>
  climb the trails without a bound in the code, so they are partial functions, \<open>None\<close> for a climb
  that meets a missing entry (\<open>at\<close> throws) or does not end; \<open>path_answers\<close> shows it never happens.
\<close>

section \<open>The search\<close>

type_synonym Trail = "string \<Rightarrow> string option"

record Search =
  seen :: "bool \<Rightarrow> Trail"
  frontier :: "bool \<Rightarrow> string list"
  visited :: u64

datatype Stop = Unavailable | GaveUp | Exhausted | Meet string "bool \<Rightarrow> Trail"

text \<open>The bounds, \<open>cfg.query\<close>.\<close>

record QueryCfg =
  max_hops :: u64
  max_visited :: u64

text \<open>The loop over the peers of one node.\<close>

fun expand :: "u64 \<Rightarrow> bool \<Rightarrow> string \<Rightarrow> string list \<Rightarrow> Search \<Rightarrow> Stop + Search" where
  "expand cap side node [] st = Inr st"
| "expand cap side node (peer # peers) st =
     (if seen st side peer \<noteq> None then expand cap side node peers st
      else
        let st = st\<lparr>visited := visited st + 1\<rparr> in
        if cap < visited st then Inl GaveUp
        else
          let st = st\<lparr>seen := (seen st)(side := (seen st side)(peer \<mapsto> node))\<rparr> in
          if seen st (\<not> side) peer \<noteq> None then Inl (Meet peer (seen st))
          else expand cap side node peers
                 (st\<lparr>frontier := (frontier st)(side := frontier st side @ [peer])\<rparr>))"

text \<open>The loop over the \<open>width\<close> nodes a frontier held; it always holds one (\<open>layer_width\<close>).\<close>

fun layer :: "IQueryStore \<Rightarrow> u64 \<Rightarrow> bool \<Rightarrow> nat \<Rightarrow> Search \<Rightarrow> Stop + Search" where
  "layer q cap side 0 st = Inr st"
| "layer q cap side (Suc width) st =
     (case frontier st side of
        [] \<Rightarrow> Inr st
      | node # rest \<Rightarrow>
          let st = st\<lparr>frontier := (frontier st)(side := rest)\<rparr> in
          (case link_peers q node of
             None \<Rightarrow> Inl Unavailable
           | Some peers \<Rightarrow>
               (case expand cap side node peers st of
                  Inl stop \<Rightarrow> Inl stop
                | Inr st \<Rightarrow> layer q cap side width st)))"

definition narrower :: "Search \<Rightarrow> bool" where
  "narrower st = (\<not> length (frontier st False) \<le> length (frontier st True))"

text \<open>The loop over the hops, its first argument the hops left.\<close>

fun search :: "IQueryStore \<Rightarrow> u64 \<Rightarrow> nat \<Rightarrow> Search \<Rightarrow> Stop" where
  "search q cap 0 st = Exhausted"
| "search q cap (Suc hop) st =
     (let side = narrower st; width = length (frontier st side) in
      case layer q cap side width st of
        Inl stop \<Rightarrow> stop
      | Inr st \<Rightarrow> if frontier st side = [] then Exhausted else search q cap hop st)"

definition start :: "string \<Rightarrow> string \<Rightarrow> Search" where
  "start from to =
     \<lparr>seen = (\<lambda>side. if side then [to \<mapsto> to] else [from \<mapsto> from]),
      frontier = (\<lambda>side. if side then [to] else [from]), visited = 0\<rparr>"

section \<open>The answer\<close>

partial_function (option) climb :: "Trail \<Rightarrow> string \<Rightarrow> string list \<Rightarrow> string list option" where
  "climb head node path =
     (case head node of
        None \<Rightarrow> None
      | Some parent \<Rightarrow> if parent = node then Some (path @ [node]) else climb head parent (path @ [node]))"

partial_function (option) descend :: "Trail \<Rightarrow> string \<Rightarrow> string list \<Rightarrow> string list option" where
  "descend tail node path =
     (if node = last path then Some path
      else
        case tail node of
          None \<Rightarrow> None
        | Some parent \<Rightarrow> if parent = node then Some (path @ [node]) else descend tail parent (path @ [node]))"

definition walk :: "Trail \<Rightarrow> Trail \<Rightarrow> string \<Rightarrow> string list option" where
  "walk head tail meet =
     (case climb head meet [] of
        None \<Rightarrow> None
      | Some path \<Rightarrow> (case tail meet of None \<Rightarrow> None | Some node \<Rightarrow> descend tail node (rev path)))"

text \<open>\<open>values.resize\<close>.\<close>

definition resize :: "nat \<Rightarrow> string list \<Rightarrow> string list" where
  "resize n vs = take n (vs @ replicate n [])"

text \<open>The service has a \<open>to_num\<close> of its own, the same as that of the links.\<close>

definition hop_num :: "string \<Rightarrow> u64" where
  "hop_num value = (case from_chars_u64 value of (Inr v, rest) \<Rightarrow> v | (Inl e, rest) \<Rightarrow> 0)"

lemma hop_num_eq [simp]: "hop_num = to_num"
  by (rule ext) (simp add: hop_num_def to_num_def)

definition hop_json :: "string \<Rightarrow> string \<Rightarrow> string list \<Rightarrow> Json" where
  "hop_json a b vs =
     add_number kJsonSms (hop_num (vs ! 1)) (add_number kJsonCalls (hop_num (vs ! 2))
       (add_number kJsonDuration (hop_num (vs ! 0)) (add_string ''to'' b (add_string ''from'' a []))))"

fun hops :: "IQueryStore \<Rightarrow> string list \<Rightarrow> Json list option" where
  "hops q (a # b # route) =
     (case q_hmget q (kLinkPrefix @ a) [b @ kFieldDurSuffix, b @ kFieldSmsSuffix, b @ kFieldCntSuffix] of
        None \<Rightarrow> None
      | Some vs \<Rightarrow> map_option (\<lambda>out. hop_json a b (resize 3 vs) # out) (hops q (b # route)))"
| "hops q route = Some []"

definition found :: "IQueryStore \<Rightarrow> string list \<Rightarrow> bool \<Rightarrow> Result" where
  "found q route weights =
     (let json = add_strings ''path'' route [] in
      if weights then
        (case hops q route of
           None \<Rightarrow> \<lparr>status = 503, rbody = json_error ''store unavailable''\<rparr>
         | Some carried \<Rightarrow> \<lparr>status = 200, rbody = json_str (add_objects ''hops'' carried json)\<rparr>)
      else \<lparr>status = 200, rbody = json_str json\<rparr>)"

definition notFound :: "QueryCfg \<Rightarrow> string" where
  "notFound cfg = json_str (add_number kJsonMaxVisited (max_visited cfg)
     (add_number kJsonMaxHops (max_hops cfg) (add_string ''error'' ''path not found'' [])))"

text \<open>\<open>PathService::path\<close>; \<open>None\<close> stands for a walk that does not come back.\<close>

definition path :: "IQueryStore \<Rightarrow> QueryCfg \<Rightarrow> string \<Rightarrow> string \<Rightarrow> bool \<Rightarrow> Result option" where
  "path q cfg first second weights =
     (if first = second then Some (found q [first] weights)
      else
        case search q (max_visited cfg) (unat (max_hops cfg)) (start first second) of
          Unavailable \<Rightarrow> Some \<lparr>status = 503, rbody = json_error ''store unavailable''\<rparr>
        | GaveUp \<Rightarrow> Some \<lparr>status = 404, rbody = notFound cfg\<rparr>
        | Exhausted \<Rightarrow> Some \<lparr>status = 404, rbody = notFound cfg\<rparr>
        | Meet peer trails \<Rightarrow> map_option (\<lambda>route. found q route weights) (walk (trails False) (trails True) peer))"

section \<open>The specification\<close>

definition linked :: "IQueryStore \<Rightarrow> (string \<times> string) set" where
  "linked q = {(a, b). \<exists>ps. link_peers q a = Some ps \<and> b \<in> set ps}"

definition ball :: "(string \<times> string) set \<Rightarrow> string \<Rightarrow> nat \<Rightarrow> string set" where
  "ball E r d = {v. \<exists>n \<le> d. (r, v) \<in> E ^^ n}"

lemma ball_0 [simp]: "ball E r 0 = {r}"
  by (auto simp: ball_def)

lemma ball_Suc: "ball E r (Suc d) = ball E r d \<union> E `` ball E r d"
proof (intro set_eqI iffI)
  fix v assume "v \<in> ball E r (Suc d)"
  then obtain n where n: "n \<le> Suc d" "(r, v) \<in> E ^^ n" by (auto simp: ball_def)
  show "v \<in> ball E r d \<union> E `` ball E r d"
  proof (cases n)
    case (Suc m)
    then obtain w where "(r, w) \<in> E ^^ m" "(w, v) \<in> E" using n(2) by auto
    then show ?thesis using n(1) Suc by (auto simp: ball_def)
  qed (use n in \<open>auto simp: ball_def intro: exI [of _ 0]\<close>)
next
  fix v assume "v \<in> ball E r d \<union> E `` ball E r d"
  then consider n where "n \<le> d" "(r, v) \<in> E ^^ n" | n w where "n \<le> d" "(r, w) \<in> E ^^ n" "(w, v) \<in> E"
    by (auto simp: ball_def)
  then show "v \<in> ball E r (Suc d)"
  proof cases
    case 2
    then have "Suc n \<le> Suc d" "(r, v) \<in> E ^^ Suc n" by auto
    then show ?thesis unfolding ball_def by blast
  qed (auto simp: ball_def intro: le_SucI)
qed

text \<open>
  A route of at most \<open>n\<close> hops: from one end to the other, every subscriber once, and two neighbours
  on it are in contact (one is among the peers of the other).
\<close>

definition valid_route :: "(string \<times> string) set \<Rightarrow> string \<Rightarrow> string \<Rightarrow> nat \<Rightarrow> string list \<Rightarrow> bool" where
  "valid_route E first second n route \<longleftrightarrow>
     route \<noteq> [] \<and> hd route = first \<and> last route = second \<and> distinct route \<and> length route \<le> n + 1
     \<and> successively (\<lambda>a b. (a, b) \<in> E \<or> (b, a) \<in> E) route"

text \<open>What a trail says of a subscriber: the way back to the root.\<close>

inductive grown :: "(string \<times> string) set \<Rightarrow> Trail \<Rightarrow> string \<Rightarrow> string \<Rightarrow> string list \<Rightarrow> bool"
  for E t r where
  root: "t r = Some r \<Longrightarrow> grown E t r r [r]"
| step: "t v = Some p \<Longrightarrow> (p, v) \<in> E \<Longrightarrow> grown E t r p xs \<Longrightarrow> v \<notin> set xs \<Longrightarrow> grown E t r v (v # xs)"

inductive_cases grownE: "grown E t r v xs"

lemma grown_facts:
  "grown E t r v xs \<Longrightarrow> xs \<noteq> [] \<and> hd xs = v \<and> last xs = r \<and> distinct xs \<and> set xs \<subseteq> dom t
     \<and> successively (\<lambda>a b. (b, a) \<in> E) xs"
  by (induction rule: grown.induct) (auto simp: successively_Cons)

lemma grown_relpow: "grown E t r v xs \<Longrightarrow> (r, v) \<in> E ^^ (length xs - 1)"
proof (induction rule: grown.induct)
  case (step v p xs)
  then obtain n where "length xs = Suc n" using grown_facts [OF step(3)] by (cases xs) auto
  then show ?case using step by auto
qed simp

lemma climb_grown: "grown E t r v xs \<Longrightarrow> climb t v acc = Some (acc @ xs)"
proof (induction arbitrary: acc rule: grown.induct)
  case root
  then show ?case by (subst climb.simps) simp
next
  case (step v p xs)
  then have "p \<noteq> v" using grown_facts [OF step(3)] by (metis hd_in_set)
  then show ?case using step by (subst climb.simps) simp
qed

lemma descend_grown: "grown E t r v xs \<Longrightarrow> last acc \<notin> set xs \<Longrightarrow> descend t v acc = Some (acc @ xs)"
proof (induction arbitrary: acc rule: grown.induct)
  case root
  then show ?case by (subst descend.simps) auto
next
  case (step v p xs)
  then have "p \<noteq> v" "v \<noteq> last acc" using grown_facts [OF step(3)] by (metis hd_in_set, auto)
  then show ?case using step by (subst descend.simps) simp
qed

lemma walk_grown:
  assumes "grown E h r m xs" "grown E' t r' m ys" "set xs \<inter> set ys = {m}"
  shows "walk h t m = Some (rev xs @ tl ys)"
proof -
  obtain xs' where xs: "xs = m # xs'" using grown_facts [OF assms(1)] by (cases xs) auto
  have c: "climb h m [] = Some xs" using climb_grown [OF assms(1)] by simp
  from assms(2) show ?thesis
  proof (cases rule: grown.cases)
    case root
    then show ?thesis using c xs by (subst walk_def, subst descend.simps) simp
  next
    case (step p zs)
    then have "descend t p (rev xs) = Some (rev xs @ zs)" using xs by (intro descend_grown) auto
    then show ?thesis using c step xs by (simp add: walk_def)
  qed
qed

section \<open>One node\<close>

text \<open>What the loop over the peers of a node leaves behind: some new peers, hanging off the node.\<close>

definition with_new :: "string \<Rightarrow> string list \<Rightarrow> Trail \<Rightarrow> Trail" where
  "with_new node new t = (\<lambda>v. if v \<in> set new then Some node else t v)"

lemma with_new_simps [simp]:
  "with_new node [] t = t" "dom (with_new node new t) = set new \<union> dom t"
  "with_new node new (t(v \<mapsto> node)) = with_new node (v # new) t"
  by (auto simp: with_new_def dom_def fun_eq_iff split: if_splits)

definition expanded ::
    "u64 \<Rightarrow> bool \<Rightarrow> string \<Rightarrow> string list \<Rightarrow> Search \<Rightarrow> string list \<Rightarrow> Stop + Search \<Rightarrow> bool" where
  "expanded cap side node peers st new res \<longleftrightarrow>
     set new \<subseteq> set peers \<and> distinct new \<and> set new \<inter> dom (seen st side) = {}
     \<and> set new \<inter> dom (seen st (\<not> side)) = {}
     \<and> (case res of
          Inr st' \<Rightarrow> set peers \<subseteq> dom (with_new node new (seen st side))
            \<and> st' = \<lparr>seen = (seen st)(side := with_new node new (seen st side)),
                frontier = (frontier st)(side := frontier st side @ new),
                visited = visited st + of_nat (length new)\<rparr>
        | Inl stop \<Rightarrow>
            (\<exists>peer \<in> set peers. peer \<notin> dom (with_new node new (seen st side))
              \<and> (stop = GaveUp \<and> cap < visited st + of_nat (length new) + 1
                 \<or> stop = Meet peer ((seen st)(side := (with_new node new (seen st side))(peer \<mapsto> node)))
                    \<and> peer \<in> dom (seen st (\<not> side)))))"

lemma expand_spec: "\<exists>new. expanded cap side node peers st new (expand cap side node peers st)"
proof (induction peers arbitrary: st)
  case Nil
  show ?case by (rule exI [of _ "[]"]) (simp add: expanded_def)
next
  case (Cons peer peers)
  let ?t = "seen st side"
  show ?case
  proof (cases "?t peer = None")
    case False
    obtain new where "expanded cap side node peers st new (expand cap side node peers st)" using Cons by blast
    then have "expanded cap side node (peer # peers) st new (expand cap side node peers st)"
      using False by (auto simp: expanded_def split: sum.splits)
    then show ?thesis using False by auto
  next
    case fresh: True
    show ?thesis
    proof (cases "cap < visited st + 1 \<or> seen st (\<not> side) peer \<noteq> None")
      case True
      then show ?thesis using fresh
        by (intro exI [of _ "[]"]) (auto simp: expanded_def Let_def)
    next
      case False
      define st1 where "st1 = \<lparr>seen = (seen st)(side := ?t(peer \<mapsto> node)),
        frontier = (frontier st)(side := frontier st side @ [peer]), visited = visited st + 1\<rparr>"
      obtain new where "expanded cap side node peers st1 new (expand cap side node peers st1)" using Cons by blast
      then have "expanded cap side node (peer # peers) st (peer # new) (expand cap side node peers st1)"
        using False fresh by (auto simp: expanded_def st1_def add.assoc split: sum.splits)
      moreover have "expand cap side node (peer # peers) st = expand cap side node peers st1"
        using False fresh by (cases st) (simp add: st1_def Let_def)
      ultimately show ?thesis by metis
    qed
  qed
qed

lemma grown_with_new:
  "grown E t r v xs \<Longrightarrow> set new \<inter> dom t = {} \<Longrightarrow> grown E (with_new node new t) r v xs"
proof (induction rule: grown.induct)
  case root
  then show ?case by (intro grown.root) (auto simp: with_new_def)
next
  case (step v p xs)
  then show ?case by (intro grown.step) (auto simp: with_new_def)
qed

lemma grown_upd: "grown E t r v xs \<Longrightarrow> u \<notin> dom t \<Longrightarrow> grown E (t(u \<mapsto> w)) r v xs"
  using grown_with_new [of E t r v xs "[u]" w] by (simp add: with_new_def fun_upd_def cong: if_cong)

lemma grown_new:
  assumes "grown E t r node xs" "(node, v) \<in> E" "v \<in> set new" "set new \<inter> dom t = {}"
  shows "grown E (with_new node new t) r v (v # xs)"
proof (rule grown.step [OF _ assms(2)])
  show "v \<notin> set xs" using grown_facts [OF assms(1)] assms(3,4) by blast
qed (use assms in \<open>auto simp: with_new_def intro: grown_with_new [unfolded with_new_def]\<close>)

section \<open>One side of the search\<close>

text \<open>
  What holds of a side between two layers: every subscriber of the trail has its way back of at
  most \<open>d\<close> hops, whoever is not on the frontier has all its peers on the trail, and the trail holds
  everybody within \<open>d\<close> hops. While a layer is worked off, \<open>n\<close> is the number of old nodes left.
\<close>

definition side_ok :: "(string \<times> string) set \<Rightarrow> string \<Rightarrow> nat \<Rightarrow> Trail \<Rightarrow> string list \<Rightarrow> bool" where
  "side_ok E r d t fr \<longleftrightarrow>
     (\<forall>v \<in> dom t. \<exists>xs. grown E t r v xs \<and> length xs \<le> d + 1)
     \<and> set fr \<subseteq> dom t \<and> (\<forall>v \<in> dom t - set fr. E `` {v} \<subseteq> dom t) \<and> ball E r d \<subseteq> dom t"

definition side_mid :: "(string \<times> string) set \<Rightarrow> string \<Rightarrow> nat \<Rightarrow> Trail \<Rightarrow> nat \<Rightarrow> string list \<Rightarrow> bool" where
  "side_mid E r d t n fr \<longleftrightarrow>
     (\<forall>v \<in> dom t. \<exists>xs. grown E t r v xs \<and> length xs \<le> d + 2)
     \<and> (\<forall>v \<in> set (take n fr). \<exists>xs. grown E t r v xs \<and> length xs \<le> d + 1)
     \<and> set fr \<subseteq> dom t \<and> (\<forall>v \<in> dom t - set fr. E `` {v} \<subseteq> dom t)
     \<and> ball E r d \<subseteq> dom t \<and> (\<forall>v \<in> ball E r d. v \<in> set (take n fr) \<or> E `` {v} \<subseteq> dom t)
     \<and> n \<le> length fr"

lemma side_ok_mid: "side_ok E r d t fr \<Longrightarrow> side_mid E r d t (length fr) fr"
  unfolding side_ok_def side_mid_def by (fastforce intro: le_SucI)

lemma side_mid_ok: "side_mid E r d t 0 fr \<Longrightarrow> side_ok E r (Suc d) t fr"
  unfolding side_ok_def side_mid_def by (auto simp: ball_Suc)

lemma side_mid_step:
  assumes m: "side_mid E r d t (Suc n) (node # rest)" and e: "E `` {node} = set peers"
    and new: "set new \<subseteq> set peers" "set new \<inter> dom t = {}" and all: "set peers \<subseteq> dom (with_new node new t)"
  shows "side_mid E r d (with_new node new t) n (rest @ new)"
proof -
  let ?t = "with_new node new t"
  note keep = grown_with_new [OF _ new(2)]
  obtain xs where xs: "grown E t r node xs" "length xs \<le> d + 1" using m by (auto simp: side_mid_def)
  have n: "n \<le> length rest" using m by (simp add: side_mid_def)
  have "\<exists>xs. grown E ?t r v xs \<and> length xs \<le> d + 2" if "v \<in> dom ?t" for v
  proof (cases "v \<in> set new")
    case True
    then have "(node, v) \<in> E" using e new(1) by blast
    then show ?thesis using grown_new [OF xs(1) _ True new(2)] xs(2) by (intro exI [of _ "v # xs"]) simp
  next
    case False
    then have "v \<in> dom t" using that by simp
    then show ?thesis using m keep unfolding side_mid_def by blast
  qed
  moreover have "\<exists>xs. grown E ?t r v xs \<and> length xs \<le> d + 1" if "v \<in> set (take n (rest @ new))" for v
  proof -
    have "v \<in> set (take (Suc n) (node # rest))" using that n by simp
    then show ?thesis using m keep unfolding side_mid_def by blast
  qed
  moreover have "set (rest @ new) \<subseteq> dom ?t" using m by (auto simp: side_mid_def)
  moreover have "E `` {v} \<subseteq> dom ?t" if "v \<in> dom ?t - set (rest @ new)" for v
  proof (cases "v = node")
    case False
    then have "v \<in> dom t - set (node # rest)" using that by auto
    then have "E `` {v} \<subseteq> dom t" using m unfolding side_mid_def by blast
    then show ?thesis by auto
  qed (use e all in simp)
  moreover have "ball E r d \<subseteq> dom ?t" using m by (auto simp: side_mid_def)
  moreover have "v \<in> set (take n (rest @ new)) \<or> E `` {v} \<subseteq> dom ?t" if b: "v \<in> ball E r d" for v
  proof (cases "v = node")
    case False
    have "v \<in> set (take (Suc n) (node # rest)) \<or> E `` {v} \<subseteq> dom t" using m b unfolding side_mid_def by blast
    then show ?thesis using False n by auto
  qed (use e all in simp)
  moreover have "n \<le> length (rest @ new)" using n by simp
  ultimately show ?thesis unfolding side_mid_def by blast
qed

section \<open>One layer and the whole search\<close>

definition apart :: "Search \<Rightarrow> bool" where
  "apart st \<longleftrightarrow> dom (seen st False) \<inter> dom (seen st True) = {}"

lemma apart_side: "apart st \<longleftrightarrow> dom (seen st side) \<inter> dom (seen st (\<not> side)) = {}"
  by (cases side) (auto simp: apart_def)

text \<open>The two trails hold a way of \<open>n\<close> hops through \<open>m\<close>; the two ends are more than \<open>n\<close> apart.\<close>

definition met :: "(string \<times> string) set \<Rightarrow> (bool \<Rightarrow> string) \<Rightarrow> nat \<Rightarrow> string \<Rightarrow> (bool \<Rightarrow> Trail) \<Rightarrow> bool" where
  "met E root n m tr \<longleftrightarrow>
     (\<exists>xs ys. grown E (tr False) (root False) m xs \<and> grown E (tr True) (root True) m ys
        \<and> set xs \<inter> set ys = {m} \<and> length xs + length ys \<le> n + 2)"

definition far :: "(string \<times> string) set \<Rightarrow> (bool \<Rightarrow> string) \<Rightarrow> nat \<Rightarrow> bool" where
  "far E root n \<longleftrightarrow> (\<exists>i j. i + j = n \<and> ball E (root False) i \<inter> ball E (root True) j = {})"

lemma metI:
  "grown E (tr side) (root side) m xs \<Longrightarrow> grown E (tr (\<not> side)) (root (\<not> side)) m ys \<Longrightarrow>
     set xs \<inter> set ys = {m} \<Longrightarrow> length xs + length ys \<le> n + 2 \<Longrightarrow> met E root n m tr"
  unfolding met_def
  by (cases side) (force simp: Int_commute add.commute intro: exI [of _ ys] exI [of _ xs])+

lemma farI:
  "ball E (root side) i \<inter> ball E (root (\<not> side)) j = {} \<Longrightarrow> i + j = n \<Longrightarrow> far E root n"
  unfolding far_def
  by (cases side) (force simp: Int_commute add.commute intro: exI [of _ i] exI [of _ j])+

lemma linked_image: "link_peers q a = Some ps \<Longrightarrow> linked q `` {a} = set ps"
  by (auto simp: linked_def)

lemma side_mid_meet:
  assumes m: "side_mid E r d t (Suc n) (node # rest)" and e: "(node, peer) \<in> E"
    and new: "set new \<inter> dom t = {}" and fresh: "peer \<notin> dom (with_new node new t)"
  shows "\<exists>zs. grown E ((with_new node new t)(peer \<mapsto> node)) r peer (peer # zs)
    \<and> length zs \<le> d + 1 \<and> set zs \<subseteq> dom t"
proof -
  obtain xs where xs: "grown E t r node xs" "length xs \<le> d + 1" using m by (auto simp: side_mid_def)
  have "grown E ((with_new node new t)(peer \<mapsto> node)) r node xs"
    by (rule grown_upd [OF grown_with_new [OF xs(1) new] fresh])
  moreover have "set xs \<subseteq> dom t" using grown_facts [OF xs(1)] by blast
  moreover have "peer \<notin> set xs" using fresh \<open>set xs \<subseteq> dom t\<close> by auto
  ultimately show ?thesis using xs(2) e by (intro exI [of _ xs]) (auto intro: grown.step)
qed

lemma layer_spec:
  assumes "side_mid (linked q) (root side) d (seen st side) width (frontier st side)"
    and "side_ok (linked q) (root (\<not> side)) d' (seen st (\<not> side)) (frontier st (\<not> side))"
    and "apart st"
  shows "case layer q cap side width st of
      Inr st' \<Rightarrow> side_mid (linked q) (root side) d (seen st' side) 0 (frontier st' side)
        \<and> seen st' (\<not> side) = seen st (\<not> side) \<and> frontier st' (\<not> side) = frontier st (\<not> side) \<and> apart st'
    | Inl (Meet m tr) \<Rightarrow> met (linked q) root (d + d' + 1) m tr
    | Inl Exhausted \<Rightarrow> False
    | Inl _ \<Rightarrow> True"
  using assms
proof (induction width arbitrary: st)
  case (Suc width)
  let ?t = "seen st side" and ?o = "seen st (\<not> side)"
  obtain node rest where fr: "frontier st side = node # rest"
    using Suc.prems(1) unfolding side_mid_def by (cases "frontier st side") auto
  note mid = Suc.prems(1) [unfolded fr]
  let ?st = "st\<lparr>frontier := (frontier st)(side := rest)\<rparr>"
  show ?case
  proof (cases "link_peers q node")
    case (Some peers)
    note E = linked_image [OF Some]
    obtain new where n: "expanded cap side node peers ?st new (expand cap side node peers ?st)"
      using expand_spec by blast
    then have nw: "set new \<subseteq> set peers" "set new \<inter> dom ?t = {}" "set new \<inter> dom ?o = {}"
      by (simp_all add: expanded_def)
    have ap: "dom ?t \<inter> dom ?o = {}" using Suc.prems(3) apart_side by blast
    show ?thesis
    proof (cases "expand cap side node peers ?st")
      case (Inr st1)
      then have s1: "seen st1 = (seen st)(side := with_new node new ?t)"
          "frontier st1 = (frontier st)(side := rest @ new)" "set peers \<subseteq> dom (with_new node new ?t)"
        using n by (simp_all add: expanded_def)
      have "side_mid (linked q) (root side) d (seen st1 side) width (frontier st1 side)"
        using side_mid_step [OF mid E nw(1,2) s1(3)] s1(1,2) by simp
      moreover have o: "seen st1 (\<not> side) = ?o" "frontier st1 (\<not> side) = frontier st (\<not> side)" using s1 by auto
      moreover have "apart st1" unfolding apart_side [of st1 side] using s1(1) nw(3) ap by auto
      moreover have "layer q cap side (Suc width) st = layer q cap side width st1"
        using fr Some Inr by (simp add: Let_def)
      ultimately show ?thesis using Suc.IH [of st1, unfolded o] Suc.prems(2) by simp
    next
      case (Inl stop)
      then obtain peer where p: "peer \<in> set peers" "peer \<notin> dom (with_new node new ?t)"
        "stop = GaveUp \<or> stop = Meet peer ((seen st)(side := (with_new node new ?t)(peer \<mapsto> node)))
          \<and> peer \<in> dom ?o"
        using n by (auto simp: expanded_def)
      have l: "layer q cap side (Suc width) st = Inl stop" using fr Some Inl by (simp add: Let_def)
      show ?thesis
      proof (cases "stop = GaveUp")
        case False
        define tr where "tr = (seen st)(side := (with_new node new ?t)(peer \<mapsto> node))"
        have s: "stop = Meet peer tr" "peer \<in> dom ?o" using p(3) False by (simp_all add: tr_def)
        obtain zs where z: "grown (linked q) (tr side) (root side) peer (peer # zs)" "length zs \<le> d + 1" "set zs \<subseteq> dom ?t"
          using side_mid_meet [OF mid _ nw(2) p(2)] E p(1) unfolding tr_def by fastforce
        obtain ys where y: "grown (linked q) ?o (root (\<not> side)) peer ys" "length ys \<le> d' + 1"
          using Suc.prems(2) s(2) unfolding side_ok_def by blast
        have "set ys \<subseteq> dom ?o" "peer \<in> set ys" using grown_facts [OF y(1)] hd_in_set by blast+
        then have "set (peer # zs) \<inter> set ys = {peer}" using z(3) ap by auto
        moreover have "tr (\<not> side) = ?o" by (simp add: tr_def)
        ultimately have "met (linked q) root (d + d' + 1) peer tr"
          using z y by (intro metI [of _ tr side root peer "peer # zs" ys]) auto
        then show ?thesis using l s by simp
      qed (simp add: l del: layer.simps)
    qed
  qed (simp add: fr)
qed simp

lemma side_ok_closed:
  assumes "side_ok E r d t []"
  shows "ball E r k \<subseteq> dom t"
proof (induction k)
  case 0
  have "r \<in> ball E r d" by (auto simp: ball_def intro: exI [of _ 0])
  then show ?case using assms unfolding side_ok_def by auto
next
  case (Suc k)
  then show ?case using assms unfolding side_ok_def ball_Suc by (auto simp: subset_iff)
qed

lemma far_apart:
  assumes ok: "\<And>side. side_ok E (root side) (d side) (seen st side) (frontier st side)" and "apart st"
  shows "far E root (d False + d True)"
proof (rule farI [of _ _ False])
  have "ball E (root False) (d False) \<subseteq> dom (seen st False)" "ball E (root True) (d True) \<subseteq> dom (seen st True)"
    using ok [of False] ok [of True] unfolding side_ok_def by simp_all
  then show "ball E (root False) (d False) \<inter> ball E (root (\<not> False)) (d True) = {}"
    using assms(2) unfolding apart_def by auto
qed simp

lemma search_spec:
  assumes "\<And>side. side_ok (linked q) (root side) (d side) (seen st side) (frontier st side)" "apart st"
  shows "case search q cap hop st of
      Meet m tr \<Rightarrow> \<exists>n \<le> d False + d True + hop. 0 < n \<and> met (linked q) root n m tr \<and> far (linked q) root (n - 1)
    | Exhausted \<Rightarrow> far (linked q) root (d False + d True + hop)
    | _ \<Rightarrow> True"
  using assms
proof (induction hop arbitrary: st d)
  case 0
  have "far (linked q) root (d False + d True)" by (rule far_apart [OF 0])
  then show ?case by simp
next
  case (Suc hop)
  define side where "side = narrower st"
  have dd: "d side + d (\<not> side) = d False + d True" by (cases side) simp_all
  let ?l = "layer q cap side (length (frontier st side)) st"
  note ls = layer_spec [where st = st and side = side and d = "d side" and d' = "d (\<not> side)" and cap = cap,
      OF side_ok_mid [OF Suc.prems(1)] Suc.prems]
  have far0: "far (linked q) root (d False + d True)" by (rule far_apart [OF Suc.prems])
  have unf: "search q cap (Suc hop) st = (case ?l of Inl stop \<Rightarrow> stop
      | Inr st \<Rightarrow> if frontier st side = [] then Exhausted else search q cap hop st)"
    by (simp only: side_def Let_def search.simps)
  show ?case
  proof (cases ?l)
    case (Inl stop)
    then show ?thesis using ls far0 unf dd
      by (cases stop) (auto intro!: exI [of _ "d False + d True + 1"])
  next
    case (Inr st')
    define d1 where "d1 = d(side := Suc (d side))"
    have s1: "seen st' (\<not> side) = seen st (\<not> side)" "frontier st' (\<not> side) = frontier st (\<not> side)" "apart st'"
      and mid: "side_mid (linked q) (root side) (d side) (seen st' side) 0 (frontier st' side)"
      using ls Inr by simp_all
    have ok: "side_ok (linked q) (root s) (d1 s) (seen st' s) (frontier st' s)" for s
      using side_mid_ok [OF mid] Suc.prems(1) [of "\<not> side"] s1 unfolding d1_def by (cases "s = side") auto
    have dd1: "d1 False + d1 True = Suc (d False + d True)" by (cases side) (simp_all add: d1_def)
    show ?thesis
    proof (cases "frontier st' side = []")
      case True
      have "ball (linked q) (root side) (d side + hop + 1) \<subseteq> dom (seen st' side)"
        by (rule side_ok_closed) (use ok [of side] True in simp)
      moreover have "ball (linked q) (root (\<not> side)) (d (\<not> side)) \<subseteq> dom (seen st' (\<not> side))"
        using ok [of "\<not> side"] unfolding side_ok_def d1_def by simp
      ultimately have "far (linked q) root (d False + d True + Suc hop)"
        using s1(3) [unfolded apart_side [of st' side]] dd
        by (intro farI [of _ _ side "d side + hop + 1" "d (\<not> side)"]) auto
      then show ?thesis using unf Inr True by simp
    next
      case False
      then have "search q cap (Suc hop) st = search q cap hop st'" using unf Inr by simp
      moreover have "d1 False + d1 True + hop = d False + d True + Suc hop" using dd1 by simp
      ultimately show ?thesis using Suc.IH [of d1 st', OF ok s1(3)] by (simp only:)
    qed
  qed
qed

lemma start_ok: "side_ok E (if side then second else first) 0 (seen (start first second) side) (frontier (start first second) side)"
  by (cases side) (auto simp: side_ok_def start_def intro!: exI [of _ "[_]"] grown.root)

lemma start_apart: "first \<noteq> second \<Longrightarrow> apart (start first second)"
  by (simp add: apart_def start_def)

lemma met_route:
  assumes "met E (\<lambda>side. if side then second else first) n m tr"
  shows "\<exists>route. walk (tr False) (tr True) m = Some route \<and> valid_route E first second n route"
proof -
  obtain xs ys where g: "grown E (tr False) first m xs" "grown E (tr True) second m ys"
    and i: "set xs \<inter> set ys = {m}" and l: "length xs + length ys \<le> n + 2"
    using assms by (auto simp: met_def)
  obtain zs where zs: "ys = m # zs" using grown_facts [OF g(2)] by (cases ys) auto
  have w: "walk (tr False) (tr True) m = Some (rev xs @ zs)" using walk_grown [OF g i] zs by simp
  note X = grown_facts [OF g(1)] and Y = grown_facts [OF g(2)]
  have "successively (\<lambda>a b. (a, b) \<in> E \<or> (b, a) \<in> E) (rev xs)"
    using X by (auto simp: successively_rev intro: successively_mono)
  moreover have "successively (\<lambda>a b. (a, b) \<in> E \<or> (b, a) \<in> E) (m # zs)"
    using Y zs by (auto intro: successively_mono)
  moreover have "last (rev xs) = m" using X by (simp add: last_rev)
  ultimately have "successively (\<lambda>a b. (a, b) \<in> E \<or> (b, a) \<in> E) (rev xs @ zs)"
    by (auto simp: successively_append_iff successively_Cons)
  moreover have "last (rev xs @ zs) = second" using Y zs \<open>last (rev xs) = m\<close> by (cases zs) auto
  moreover have "distinct (rev xs @ zs)" using X Y zs i by auto
  ultimately have "valid_route E first second n (rev xs @ zs)"
    using X l zs unfolding valid_route_def by (simp add: hd_append hd_rev)
  then show ?thesis using w by blast
qed

lemma valid_route_mono: "valid_route E a b n r \<Longrightarrow> n \<le> k \<Longrightarrow> valid_route E a b k r"
  by (auto simp: valid_route_def)

text \<open>The store has no say in who is how far when its links go both ways.\<close>

lemma relpow_sym: "sym E \<Longrightarrow> (a, b) \<in> E ^^ n \<Longrightarrow> (b, a) \<in> E ^^ n"
proof (induction n arbitrary: b)
  case (Suc n)
  then obtain c where "(a, c) \<in> E ^^ n" "(c, b) \<in> E" by auto
  then have "(b, c) \<in> E" "(c, a) \<in> E ^^ n" using Suc by (auto dest: symD)
  then show ?case by (meson relpow_Suc_I2)
qed simp

lemma far_spec:
  assumes "sym E" "far E (\<lambda>side. if side then second else first) n" "k \<le> n"
  shows "(first, second) \<notin> E ^^ k"
proof
  assume k: "(first, second) \<in> E ^^ k"
  obtain i j where ij: "i + j = n" "ball E first i \<inter> ball E second j = {}"
    using assms(2) by (auto simp: far_def)
  have "(first, second) \<in> E ^^ (min i k) O E ^^ (k - min i k)"
    using k by (simp flip: relpow_add)
  then obtain c where c: "(first, c) \<in> E ^^ (min i k)" "(c, second) \<in> E ^^ (k - min i k)" by blast
  have "min i k \<le> i" "k - min i k \<le> j" using ij(1) assms(3) by auto
  then have "c \<in> ball E first i" "c \<in> ball E second j"
    using c(1) relpow_sym [OF assms(1) c(2)] unfolding ball_def by blast+
  then show False using ij(2) by blast
qed

text \<open>How many subscribers the search visits.\<close>

definition counted :: "string set \<Rightarrow> Search \<Rightarrow> bool" where
  "counted S st \<longleftrightarrow>
     (\<forall>side. set (frontier st side) \<subseteq> dom (seen st side) \<and> dom (seen st side) \<subseteq> S \<and> dom (seen st side) \<noteq> {})
     \<and> apart st \<and> visited st + 2 = of_nat (card (dom (seen st False) \<union> dom (seen st True)))"

lemma dom_union_side: "dom (f False) \<union> dom (f True) = dom (f side) \<union> dom (f (\<not> side))" for f :: "bool \<Rightarrow> Trail"
  by (cases side) auto

text \<open>What the expansion of one node adds, counted.\<close>

lemma counted_expand:
  assumes "counted S st" "finite S" "frontier st side = node # rest" "set peers \<subseteq> S"
    and "expanded cap side node peers (st\<lparr>frontier := (frontier st)(side := rest)\<rparr>) new res"
  shows "set new \<union> (dom (seen st side) \<union> dom (seen st (\<not> side))) \<subseteq> S"
    and "2 \<le> card (set new \<union> (dom (seen st side) \<union> dom (seen st (\<not> side))))"
    and "visited st + of_nat (length new) + 2
      = of_nat (card (set new \<union> (dom (seen st side) \<union> dom (seen st (\<not> side)))))"
proof -
  let ?t = "dom (seen st side)" and ?o = "dom (seen st (\<not> side))"
  have nw: "set new \<subseteq> S" "distinct new" "set new \<inter> (?t \<union> ?o) = {}"
    using assms(4,5) by (auto simp: expanded_def)
  have v: "visited st + 2 = of_nat (card (?t \<union> ?o))" and sub: "?t \<subseteq> S" "?o \<subseteq> S"
    and ap: "?t \<inter> ?o = {}" and ne: "?t \<noteq> {}" "?o \<noteq> {}"
    using assms(1) unfolding counted_def dom_union_side [of "seen st" side] apart_side [of st side] by blast+
  show "set new \<union> (?t \<union> ?o) \<subseteq> S" using sub nw(1) by blast
  have fin: "finite (?t \<union> ?o)" using sub assms(2) finite_subset by blast
  have c: "card (set new \<union> (?t \<union> ?o)) = length new + card (?t \<union> ?o)"
    using card_Un_disjoint [OF _ fin nw(3)] nw(2) by (simp add: distinct_card)
  then show "visited st + of_nat (length new) + 2 = of_nat (card (set new \<union> (?t \<union> ?o)))"
    using v by (simp add: algebra_simps)
  have "card ?t \<noteq> 0" "card ?o \<noteq> 0" using fin ne by auto
  then have "2 \<le> card (?t \<union> ?o)" using fin ap by (simp add: card_Un_disjoint)
  then show "2 \<le> card (set new \<union> (?t \<union> ?o))" using c by simp
qed

lemma counted_grows:
  assumes "counted S st" "finite S" "frontier st side = node # rest" "set peers \<subseteq> S"
    and n: "expanded cap side node peers (st\<lparr>frontier := (frontier st)(side := rest)\<rparr>) new (Inr st1)"
  shows "counted S st1"
proof -
  note C = counted_expand [OF assms]
  have s1: "seen st1 = (seen st)(side := with_new node new (seen st side))"
      "frontier st1 = (frontier st)(side := rest @ new)" "visited st1 = visited st + of_nat (length new)"
    and nw: "set new \<inter> (dom (seen st side) \<union> dom (seen st (\<not> side))) = {}"
    using n by (auto simp: expanded_def)
  have fs: "set (frontier st s) \<subseteq> dom (seen st s)" "dom (seen st s) \<subseteq> S" "dom (seen st s) \<noteq> {}"
    and ap: "dom (seen st side) \<inter> dom (seen st (\<not> side)) = {}" for s
    using assms(1) unfolding counted_def apart_side [of st side] by blast+
  show ?thesis
    unfolding counted_def dom_union_side [of "seen st1" side] apart_side [of st1 side]
  proof (intro conjI allI)
    fix s
    show "set (frontier st1 s) \<subseteq> dom (seen st1 s)" "dom (seen st1 s) \<subseteq> S" "dom (seen st1 s) \<noteq> {}"
      using s1(1,2) fs(1) [of side] C(1) fs [of s] assms(3) by (cases "s = side"; auto)+
    show "dom (seen st1 side) \<inter> dom (seen st1 (\<not> side)) = {}" using s1(1) nw ap by auto
    show "visited st1 + 2 = of_nat (card (dom (seen st1 side) \<union> dom (seen st1 (\<not> side))))"
      using s1 C(3) by (simp add: Un_assoc)
  qed
qed

lemma counted_below_cap:
  assumes "counted S st" "finite S" "card S \<le> unat cap" "frontier st side = node # rest" "set peers \<subseteq> S"
    and "expanded cap side node peers (st\<lparr>frontier := (frontier st)(side := rest)\<rparr>) new res"
  shows "\<not> cap < visited st + of_nat (length new) + 1"
proof -
  note C = counted_expand [OF assms(1,2,4-)]
  let ?all = "set new \<union> (dom (seen st side) \<union> dom (seen st (\<not> side)))"
  have "visited st + of_nat (length new) + 1 = of_nat (card ?all - 1)"
    using C(2,3) by (simp add: of_nat_diff algebra_simps)
  moreover have "unat (of_nat (card ?all - 1) :: u64) \<le> unat cap"
    using card_mono [OF assms(2) C(1)] assms(3) by (simp add: unat_of_nat)
  ultimately show ?thesis by (simp add: word_less_nat_alt)
qed

lemma counted_layer:
  assumes "counted S st" "finite S" "card S \<le> unat cap"
    and "\<And>v. v \<in> S \<Longrightarrow> \<exists>ps. link_peers q v = Some ps \<and> set ps \<subseteq> S"
  shows "layer q cap side width st \<noteq> Inl GaveUp \<and> layer q cap side width st \<noteq> Inl Unavailable
    \<and> (\<forall>st'. layer q cap side width st = Inr st' \<longrightarrow> counted S st')"
  using assms(1)
proof (induction width arbitrary: st)
  case (Suc width)
  show ?case
  proof (cases "frontier st side")
    case (Cons node rest)
    let ?st = "st\<lparr>frontier := (frontier st)(side := rest)\<rparr>"
    have "node \<in> set (frontier st side)" using Cons by simp
    then have "node \<in> S" using Suc.prems unfolding counted_def by blast
    then obtain peers where p: "link_peers q node = Some peers" "set peers \<subseteq> S" using assms(4) by blast
    have l: "layer q cap side (Suc width) st =
        (case expand cap side node peers ?st of Inl stop \<Rightarrow> Inl stop | Inr st \<Rightarrow> layer q cap side width st)"
      using Cons p by (simp add: Let_def)
    obtain new where n: "expanded cap side node peers ?st new (expand cap side node peers ?st)"
      using expand_spec by blast
    show ?thesis
    proof (cases "expand cap side node peers ?st")
      case (Inr st1)
      then show ?thesis
        using counted_grows [OF Suc.prems assms(2) Cons p(2) n [unfolded Inr]] Suc.IH [of st1] l by simp
    next
      case (Inl stop)
      then have "stop \<noteq> GaveUp" "stop \<noteq> Unavailable"
        using n counted_below_cap [OF Suc.prems assms(2,3) Cons p(2) n] by (auto simp: expanded_def)
      then show ?thesis using l Inl by simp
    qed
  qed (use Suc.prems in simp)
qed simp

lemma counted_search:
  assumes "counted S st" "finite S" "card S \<le> unat cap"
    and "\<And>v. v \<in> S \<Longrightarrow> \<exists>ps. link_peers q v = Some ps \<and> set ps \<subseteq> S"
  shows "search q cap hop st \<noteq> GaveUp \<and> search q cap hop st \<noteq> Unavailable"
  using assms(1)
proof (induction hop arbitrary: st)
  case (Suc hop)
  let ?l = "layer q cap (narrower st) (length (frontier st (narrower st))) st"
  have "?l \<noteq> Inl GaveUp \<and> ?l \<noteq> Inl Unavailable \<and> (\<forall>st'. ?l = Inr st' \<longrightarrow> counted S st')"
    by (rule counted_layer [OF Suc.prems assms(2-4)])
  then show ?case using Suc.IH by (auto simp: Let_def split: sum.split)
qed simp

lemma counted_start:
  assumes "first \<noteq> second" "first \<in> S" "second \<in> S"
  shows "counted S (start first second)"
  using assms start_apart [OF assms(1)] by (auto simp: counted_def start_def split: if_splits)

lemma search_start:
  assumes "first \<noteq> second"
  shows "case search q cap hop (start first second) of
      Meet m tr \<Rightarrow> \<exists>n \<le> hop. \<exists>route. walk (tr False) (tr True) m = Some route
        \<and> valid_route (linked q) first second n route
        \<and> 0 < n \<and> far (linked q) (\<lambda>side. if side then second else first) (n - 1)
    | Exhausted \<Rightarrow> far (linked q) (\<lambda>side. if side then second else first) hop
    | _ \<Rightarrow> True"
  using search_spec [where root = "\<lambda>side. if side then second else first" and d = "\<lambda>_. 0" and q = q
      and cap = cap and hop = hop, OF start_ok start_apart [OF assms]]
  by (cases "search q cap hop (start first second)") (use met_route in fastforce)+

lemma route_relpow:
  "sym E \<Longrightarrow> route \<noteq> [] \<Longrightarrow> successively (\<lambda>a b. (a, b) \<in> E \<or> (b, a) \<in> E) route \<Longrightarrow>
     (hd route, last route) \<in> E ^^ (length route - 1)"
proof (induction route)
  case (Cons a route)
  show ?case
  proof (cases route)
    case (Cons b bs)
    then have "(a, b) \<in> E" "(b, last route) \<in> E ^^ length bs" using Cons.IH Cons.prems by (auto dest: symD)
    then show ?thesis using Cons using relpow_Suc_I2 [of a b E] by (simp del: relpow.simps(2))
  qed simp
qed simp

lemma path_returns:
  "\<exists>r. path q cfg first second weights = Some r
     \<and> (r = \<lparr>status = 404, rbody = notFound cfg\<rparr> \<or> r = bad 503 ''store unavailable''
        \<or> (\<exists>route. valid_route (linked q) first second (unat (max_hops cfg)) route \<and> r = found q route weights))"
proof (cases "first = second")
  case True
  then have "valid_route (linked q) first second (unat (max_hops cfg)) [first]" by (simp add: valid_route_def)
  then show ?thesis using True by (auto simp: path_def)
next
  case False
  note s = search_start [OF False, where q = q and cap = "max_visited cfg" and hop = "unat (max_hops cfg)"]
  show ?thesis
  proof (cases "search q (max_visited cfg) (unat (max_hops cfg)) (start first second)")
    case (Meet m tr)
    then obtain n route where "n \<le> unat (max_hops cfg)" "walk (tr False) (tr True) m = Some route"
      "valid_route (linked q) first second n route" using s by auto
    then have "valid_route (linked q) first second (unat (max_hops cfg)) route" using valid_route_mono by blast
    moreover have "path q cfg first second weights = Some (found q route weights)"
      using False Meet \<open>walk _ _ m = Some route\<close> by (simp add: path_def)
    ultimately show ?thesis by blast
  qed (use False in \<open>simp_all add: path_def bad_def\<close>)
qed

text \<open>
  C23: Every request is answered, whatever the store holds: the two climbs of a met search end and
  find every entry they look up. What is answered is the 404 body with the bounds, the 503 body, or a
  route from the first subscriber to the second, nobody twice on it, neighbours on it in contact, and
  at most \<open>max_hops\<close> hops long.
\<close>

theorem path_answers:
  "\<exists>r. path q cfg first second weights = Some r
     \<and> (r = \<lparr>status = 404, rbody = notFound cfg\<rparr> \<or> r = bad 503 ''store unavailable''
        \<or> (\<exists>route. valid_route (linked q) first second (unat (max_hops cfg)) route \<and> r = found q route weights))"
  by (rule path_returns)

lemma path_shortest_rule:
  assumes "sym (linked q)" "finite S" "card S \<le> unat (max_visited cfg)" "first \<in> S" "second \<in> S"
    and "\<And>v. v \<in> S \<Longrightarrow> \<exists>ps. link_peers q v = Some ps \<and> set ps \<subseteq> S"
  shows "if \<exists>n \<le> unat (max_hops cfg). (first, second) \<in> linked q ^^ n
    then \<exists>route. path q cfg first second weights = Some (found q route weights)
      \<and> valid_route (linked q) first second (unat (max_hops cfg)) route
      \<and> (\<forall>n. (first, second) \<in> linked q ^^ n \<longrightarrow> length route \<le> n + 1)
    else path q cfg first second weights = Some \<lparr>status = 404, rbody = notFound cfg\<rparr>"
proof (cases "first = second")
  case True
  then have "valid_route (linked q) first second (unat (max_hops cfg)) [first]" by (simp add: valid_route_def)
  moreover have "\<exists>n \<le> unat (max_hops cfg). (first, second) \<in> linked q ^^ n" using True by (auto intro: exI [of _ 0])
  ultimately show ?thesis using True by (auto simp: path_def intro!: exI [of _ "[first]"])
next
  case False
  let ?h = "unat (max_hops cfg)"
  note s = search_start [OF False, where q = q and cap = "max_visited cfg" and hop = ?h]
  note c = counted_search [OF counted_start [OF False assms(4,5)] assms(2,3,6), where hop = ?h]
  show ?thesis
  proof (cases "search q (max_visited cfg) ?h (start first second)")
    case Exhausted
    then have "(first, second) \<notin> linked q ^^ n" if "n \<le> ?h" for n
      using s far_spec [OF assms(1) _ that] by simp
    then show ?thesis using False Exhausted by (auto simp: path_def)
  next
    case (Meet m tr)
    then obtain n route where n: "n \<le> ?h" "0 < n" and w: "walk (tr False) (tr True) m = Some route"
      and v: "valid_route (linked q) first second n route"
      and f: "far (linked q) (\<lambda>side. if side then second else first) (n - 1)" using s by auto
    have "length route \<le> k + 1" if "(first, second) \<in> linked q ^^ k" for k
    proof -
      have "\<not> k \<le> n - 1" using far_spec [OF assms(1) f] that by blast
      then have "n \<le> k" using n(2) by linarith
      then show ?thesis using v unfolding valid_route_def by simp
    qed
    moreover have "\<exists>k \<le> ?h. (first, second) \<in> linked q ^^ k"
      using route_relpow [OF assms(1), of route] v n(1) unfolding valid_route_def
      by (intro exI [of _ "length route - 1"]) auto
    ultimately show ?thesis using False Meet w valid_route_mono [OF v n(1)] by (auto simp: path_def)
  qed (use c in simp_all)
qed

text \<open>
  C5: The search misses nothing and takes no detour: in a store whose links go both ways and which
  answers, over a part of at most \<open>max_visited\<close> subscribers that the links do not leave, two
  subscribers that are within \<open>max_hops\<close> hops get a shortest route between them, and two that
  are not get the 404.
\<close>

theorem path_shortest:
  assumes "sym (linked q)" "finite S" "card S \<le> unat (max_visited cfg)" "first \<in> S" "second \<in> S"
    and "\<And>v. v \<in> S \<Longrightarrow> \<exists>ps. link_peers q v = Some ps \<and> set ps \<subseteq> S"
  shows "if \<exists>n \<le> unat (max_hops cfg). (first, second) \<in> linked q ^^ n
    then \<exists>route. path q cfg first second weights = Some (found q route weights)
      \<and> valid_route (linked q) first second (unat (max_hops cfg)) route
      \<and> (\<forall>n. (first, second) \<in> linked q ^^ n \<longrightarrow> length route \<le> n + 1)
    else path q cfg first second weights = Some \<lparr>status = 404, rbody = notFound cfg\<rparr>"
  using assms by (rule path_shortest_rule)

definition chain_store :: IQueryStore where
  "chain_store = \<lparr>q_hgetall = (\<lambda>k. Some []),
     q_hkeys = (\<lambda>k. Some (if k = ''link:1'' then [''2:dur'', ''2:cnt''] else if k = ''link:2'' then [''1:dur'', ''3:sms'']
       else if k = ''link:3'' then [''2:sms''] else [])),
     q_hmget = (\<lambda>k fs. Some (map (\<lambda>_. []) fs)), q_dbsize = Some 3, q_top = (\<lambda>b off n. Some ([], 0))\<rparr>"

lemma chain_peers:
  "link_peers chain_store v = Some (if v = ''1'' then [''2''] else if v = ''2'' then [''1'', ''3'']
     else if v = ''3'' then [''2''] else [])"
proof -
  have c: "cut_suffix ''2:dur'' = ''2''" "cut_suffix ''2:cnt'' = ''2''" "cut_suffix ''1:dur'' = ''1''"
    "cut_suffix ''3:sms'' = ''3''" "cut_suffix ''2:sms'' = ''2''" by code_simp+
  have l: "(''1'' :: string) < ''3''" by code_simp
  show ?thesis using l by (simp add: link_peers_def chain_store_def links_key_def kLinkPrefix_def c)
qed

theorem path_shortest_witness:
  "\<exists>route. path chain_store \<lparr>max_hops = 6, max_visited = 100\<rparr> ''1'' ''3'' False = Some (found chain_store route False)
      \<and> valid_route (linked chain_store) ''1'' ''3'' 6 route \<and> length route \<le> 3"
proof -
  have l: "linked chain_store = {(''1'', ''2''), (''2'', ''1''), (''2'', ''3''), (''3'', ''2'')}"
    by (auto simp: linked_def chain_peers split: if_splits)
  have two: "(''1'', ''3'') \<in> linked chain_store ^^ 2" by (auto simp: l numeral_2_eq_2)
  then have near: "\<exists>n \<le> unat (6 :: u64). (''1'', ''3'') \<in> linked chain_store ^^ n" by (intro exI [of _ 2]) simp
  have sy: "sym (linked chain_store)" by (auto simp: l sym_def)
  have cl: "\<exists>ps. link_peers chain_store v = Some ps \<and> set ps \<subseteq> {''1'', ''2'', ''3''}" for v
    by (auto simp: chain_peers)
  have "\<exists>route. path chain_store \<lparr>max_hops = 6, max_visited = 100\<rparr> ''1'' ''3'' False = Some (found chain_store route False)
      \<and> valid_route (linked chain_store) ''1'' ''3'' (unat (6 :: u64)) route
      \<and> (\<forall>n. (''1'', ''3'') \<in> linked chain_store ^^ n \<longrightarrow> length route \<le> n + 1)"
    using path_shortest [of chain_store "{''1'', ''2'', ''3''}" "\<lparr>max_hops = 6, max_visited = 100\<rparr>" "''1''" "''3''" False,
        OF sy _ _ _ _ cl] near by simp
  then show ?thesis using two by fastforce
qed

end
