(* ===== verification/Services.thy ===== *)
theory Services
  imports PathService
begin

text \<open>
  \<open>src/query/services/query_service.cpp\<close>, \<open>rank_service.cpp\<close> and \<open>stats_service.cpp\<close>: the services that
  look one subscriber, operator or link up, page its peers or a board, and report on the store. The
  lemmas say what each body reads back as: the numbers the store holds under the fs asked
  for, 0 for a field it does not hold, and the page of the listing with the size of the whole.
\<close>

section \<open>Looking one entity up\<close>

definition kSubFields :: "(string \<times> string) list" where
  "kSubFields =
     [(kFieldVoiceOut, kJsonVoiceOut), (kFieldVoiceIn, kJsonVoiceIn), (kFieldDataTx, kJsonDataOut),
      (kFieldDataRx, kJsonDataIn), (kFieldSmsOut, kJsonSmsOut), (kFieldSmsIn, kJsonSmsIn),
      (kFieldNoans, kJsonNoans), (kFieldBusy, kJsonBusy), (kFieldFailed, kJsonFailed)]"

definition kOpFields :: "(string \<times> string) list" where
  "kOpFields =
     [(kFieldVoiceOut, kJsonVoiceOut), (kFieldVoiceIn, kJsonVoiceIn),
      (kFieldSmsOut, kJsonSmsOut), (kFieldSmsIn, kJsonSmsIn)]"

text \<open>The service's own \<open>to_num\<close>, the same as that of the links.\<close>

definition entity_num :: "string \<Rightarrow> u64" where
  "entity_num value = (case from_chars_u64 value of (Inr v, rest) \<Rightarrow> v | (Inl e, rest) \<Rightarrow> 0)"

lemma entity_num_eq [simp]: "entity_num = to_num"
  by (rule ext) (simp add: entity_num_def to_num_def)

fun field_num :: "Fields \<Rightarrow> string \<Rightarrow> u64" where
  "field_num [] f = 0"
| "field_num ((key, v) # rest) f = (if key = f then entity_num v else field_num rest f)"

text \<open>The loop \<open>for (field, name) json.add(name, field_num(fs, field))\<close>.\<close>

definition add_fields :: "(string \<times> string) list \<Rightarrow> Fields \<Rightarrow> Json \<Rightarrow> Json" where
  "add_fields names fs json = foldl (\<lambda>json (f, name). add_number name (field_num fs f) json) json names"

definition query_msisdn :: "IQueryStore \<Rightarrow> string \<Rightarrow> Result" where
  "query_msisdn q m =
     (case q_hgetall q (kSubPrefix @ m) of
        None \<Rightarrow> bad 503 ''store unavailable''
      | Some fs \<Rightarrow>
          if fs = [] then bad 404 ''subscriber not found''
          else \<lparr>status = 200, rbody = json_str (add_fields kSubFields fs (add_string ''msisdn'' m []))\<rparr>)"

definition query_op :: "IQueryStore \<Rightarrow> string \<Rightarrow> Result" where
  "query_op q mccmnc =
     (case q_hgetall q (kOpPrefix @ mccmnc) of
        None \<Rightarrow> bad 503 ''store unavailable''
      | Some fs \<Rightarrow>
          if fs = [] then bad 404 ''operator not found''
          else \<lparr>status = 200, rbody = json_str (add_fields kOpFields fs (add_string ''mccmnc'' mccmnc []))\<rparr>)"

definition peer_json :: "Peer \<Rightarrow> Json" where
  "peer_json p = add_number kJsonSms (psms p) (add_number kJsonCalls (pcalls p)
     (add_number kJsonDuration (pduration p) (add_string ''msisdn'' (msisdn p) [])))"

text \<open>The members every page starts with.\<close>

definition page_head :: "string \<Rightarrow> nat \<Rightarrow> QueryParams \<Rightarrow> Json" where
  "page_head m n params = add_number ''limit'' (p_limit params) (add_number ''offset'' (p_offset params)
     (add_number ''count'' (of_nat n) (add_string ''msisdn'' m [])))"

definition weighted :: "IQueryStore \<Rightarrow> string \<Rightarrow> QueryParams \<Rightarrow> Result" where
  "weighted q m params =
     (case link_weights q m of
        None \<Rightarrow> bad 503 ''store unavailable''
      | Some all_peers \<Rightarrow>
          if all_peers = [] then bad 404 ''subscriber not found''
          else
            let ordered = order_peers all_peers (p_sort params);
                peers = map peer_json (page ordered params)
            in \<lparr>status = 200, rbody = json_str (add_objects ''peers'' peers
                 (add_string ''sort'' (if p_sort params = BySms then kSortSms else kSortDur)
                   (page_head m (length ordered) params)))\<rparr>)"

definition peers :: "IQueryStore \<Rightarrow> string \<Rightarrow> QueryParams \<Rightarrow> Result" where
  "peers q m params =
     (if p_weights params then weighted q m params
      else
        case link_peers q m of
          None \<Rightarrow> bad 503 ''store unavailable''
        | Some all_peers \<Rightarrow>
            if all_peers = [] then bad 404 ''subscriber not found''
            else \<lparr>status = 200, rbody = json_str (add_strings ''peers'' (page all_peers params)
                   (page_head m (length all_peers) params))\<rparr>)"

definition query_link :: "IQueryStore \<Rightarrow> string \<Rightarrow> string \<Rightarrow> Result" where
  "query_link q first second =
     (case q_hmget q (kLinkPrefix @ first)
             [second @ kFieldDurSuffix, second @ kFieldSmsSuffix, second @ kFieldCntSuffix] of
        None \<Rightarrow> bad 503 ''store unavailable''
      | Some vs \<Rightarrow>
          let vs = resize 3 vs in
          if vs ! 0 = [] \<and> vs ! 1 = [] \<and> vs ! 2 = [] then bad 404 ''link not found''
          else \<lparr>status = 200, rbody = json_str (add_number kJsonSms (entity_num (vs ! 1))
                 (add_number kJsonCalls (entity_num (vs ! 2)) (add_number kJsonDuration (entity_num (vs ! 0))
                   (add_string ''second-party'' second (add_string ''first-party'' first [])))))\<rparr>)"

section \<open>Boards\<close>

definition kBoards :: "(string \<times> string) list" where
  "kBoards = [(''voice'', kVoiceBoard), (''sms'', kSmsBoard), (''data'', kDataBoard), (''fail'', kFailBoard),
     (''op-voice'', kOpVoiceBoard), (''op-sms'', kOpSmsBoard)]"

fun board_key :: "(string \<times> string) list \<Rightarrow> string \<Rightarrow> string" where
  "board_key [] board = []"
| "board_key ((name, key) # rest) board = (if name = board then key else board_key rest board)"

definition keyOf :: "string \<Rightarrow> string" where
  "keyOf board = board_key kBoards board"

definition entry_json :: "string \<times> u64 \<Rightarrow> Json" where
  "entry_json = (\<lambda>(ident, score). add_number ''score'' score (add_string ''id'' ident []))"

definition rank_top :: "IQueryStore \<Rightarrow> string \<Rightarrow> QueryParams \<Rightarrow> Result" where
  "rank_top q board params =
     (let key = keyOf board in
      if key = [] then bad 400 ''no such board''
      else case q_top q key (p_offset params) (p_limit params) of
        None \<Rightarrow> bad 503 ''store unavailable''
      | Some (ranked, n) \<Rightarrow>
          \<lparr>status = 200, rbody = json_str (add_objects ''entries'' (map entry_json ranked)
            (add_number ''limit'' (p_limit params) (add_number ''offset'' (p_offset params)
              (add_number ''count'' n (add_string ''board'' board [])))))\<rparr>)"

section \<open>The store as a whole\<close>

definition kTotalFields :: "string list" where
  "kTotalFields =
     [kFieldRecords, kFieldMocCnt, kFieldMtcCnt, kFieldSmsMoCnt, kFieldSmsMtCnt, kFieldDataCnt, kFieldNoansCnt, kFieldBusyCnt,
      kFieldFailedCnt, kFieldMocDur, kFieldMtcDur, kFieldDataDur, kFieldDataRx, kFieldDataTx]"

text \<open>This service parses the number where it finds the field.\<close>

fun stats_num :: "Fields \<Rightarrow> string \<Rightarrow> u64" where
  "stats_num [] f = 0"
| "stats_num ((key, v) # rest) f =
     (if key = f then (case from_chars_u64 v of (Inr out, p) \<Rightarrow> out | (Inl e, p) \<Rightarrow> 0) else stats_num rest f)"

definition reported :: "string \<Rightarrow> string" where
  "reported f = map (\<lambda>c. if c = CHR ''_'' then CHR ''-'' else c) f"

definition health :: "IQueryStore \<Rightarrow> QueryCfg \<Rightarrow> Result" where
  "health q cfg =
     (let (up, keys) = (case q_dbsize q of None \<Rightarrow> (False, 0) | Some n \<Rightarrow> (True, n)) in
      \<lparr>status = 200, rbody = json_str
        (add_number kJsonMaxVisited (max_visited cfg) (add_number kJsonMaxHops (max_hops cfg)
          (add_number ''keys'' (if up then keys else 0)
            (add_string ''store'' (if up then ''up'' else ''down'') (add_string ''status'' ''ok'' [])))))\<rparr>)"

definition totals :: "IQueryStore \<Rightarrow> Result" where
  "totals q =
     (case q_hgetall q kTotalKey of
        None \<Rightarrow> bad 503 ''store unavailable''
      | Some fs \<Rightarrow> \<lparr>status = 200,
          rbody = json_str (foldl (\<lambda>json f. add_number (reported f) (stats_num fs f) json) [] kTotalFields)\<rparr>)"

lemma stats_num_eq: "stats_num fs f = field_num fs f"
  by (induction fs f rule: stats_num.induct) (simp_all add: to_num_def)

lemma totals_fold: "foldl (\<lambda>json f. add_number (reported f) (stats_num fs f) json) json ns
    = add_fields (map (\<lambda>f. (f, reported f)) ns) fs json"
  by (simp add: add_fields_def foldl_map stats_num_eq)

section \<open>What the bodies read back as\<close>

lemma field_num_stored: "field_num fs f = stored_num fs f"
  by (induction fs) (auto simp: stored_num_def)

lemma add_fields_members:
  "add_fields names fs (members_text ms) =
     members_text (ms @ map (\<lambda>(f, name). (name, JNum (unat (stored_num fs f)))) names)"
  unfolding add_fields_def
  by (induction names arbitrary: ms) (auto simp: add_number_members field_num_stored)

text \<open>A body that is a well-formed JSON object.\<close>

definition json_body :: "Result \<Rightarrow> (string \<times> jval) list \<Rightarrow> bool" where
  "json_body r ms \<longleftrightarrow> rbody r = json_str (members_text ms)"

lemma json_body_reads: "json_body r ms \<Longrightarrow> read_json (rbody r) = Some (JObj ms)"
  by (simp add: json_body_def read_json_members)

lemma start_members: "add_string n t [] = members_text [(n, JStr t)]" "add_number n w [] = members_text [(n, JNum (unat w))]"
  "add_strings n vs [] = members_text [(n, JArr (map JStr vs))]"
  using add_string_members [of n t "[]"] add_number_members [of n w "[]"] add_strings_members [of n vs "[]"] by simp_all

lemma error_body: "json_body (bad st msg) [(''error'', JStr msg)]"
  by (simp add: json_body_def bad_def json_error_def start_members)

lemma bad_reads [simp]: "read_json (rbody (bad st msg)) = Some (JObj [(''error'', JStr msg)])" "status (bad st msg) = st"
  using json_body_reads [OF error_body] by (simp_all add: bad_def)

definition peer_members :: "Peer \<Rightarrow> (string \<times> jval) list" where
  "peer_members p = [(''msisdn'', JStr (msisdn p)), (kJsonDuration, JNum (unat (pduration p))),
     (kJsonCalls, JNum (unat (pcalls p))), (kJsonSms, JNum (unat (psms p)))]"

definition page_members :: "string \<Rightarrow> nat \<Rightarrow> QueryParams \<Rightarrow> (string \<times> jval) list" where
  "page_members m n params = [(''msisdn'', JStr m), (''count'', JNum (unat (of_nat n :: u64))),
     (''offset'', JNum (unat (p_offset params))), (''limit'', JNum (unat (p_limit params)))]"

definition hop_members :: "string \<Rightarrow> string \<Rightarrow> string list \<Rightarrow> (string \<times> jval) list" where
  "hop_members a b vs = [(''from'', JStr a), (''to'', JStr b), (kJsonDuration, JNum (unat (to_num (vs ! 0)))),
     (kJsonCalls, JNum (unat (to_num (vs ! 2)))), (kJsonSms, JNum (unat (to_num (vs ! 1))))]"

lemma member_texts:
  "peer_json p = members_text (peer_members p)"
  "page_head m n params = members_text (page_members m n params)"
  "hop_json a b vs = members_text (hop_members a b vs)"
  "entry_json (i, w) = members_text [(''id'', JStr i), (''score'', JNum (unat w))]"
  by (simp_all add: peer_json_def peer_members_def page_head_def page_members_def hop_json_def hop_members_def
      entry_json_def start_members add_string_members add_number_members)

lemma map_members: "(\<And>x. f x = members_text (g x)) \<Longrightarrow> map f xs = map members_text (map g xs)"
  by simp

text \<open>The hops of a route, as they are read back.\<close>

fun route_hops :: "IQueryStore \<Rightarrow> string list \<Rightarrow> (string \<times> jval) list list" where
  "route_hops q (a # b # route) =
     hop_members a b (resize 3 (the (q_hmget q (kLinkPrefix @ a)
       [b @ kFieldDurSuffix, b @ kFieldSmsSuffix, b @ kFieldCntSuffix]))) # route_hops q (b # route)"
| "route_hops q route = []"

lemma hops_members: "hops q route = Some hs \<Longrightarrow> hs = map members_text (route_hops q route)"
  by (induction q route arbitrary: hs rule: hops.induct) (auto simp: member_texts split: option.splits)

lemma found_reads:
  "(status (found q route w), read_json (rbody (found q route w))) =
     (if \<not> w then (200, Some (JObj [(''path'', JArr (map JStr route))]))
      else if hops q route = None then (503, Some (JObj [(''error'', JStr ''store unavailable'')]))
      else (200, Some (JObj [(''path'', JArr (map JStr route)), (''hops'', JArr (map JObj (route_hops q route)))])))"
proof (cases "hops q route")
  case None
  then show ?thesis
    by (simp add: found_def start_members read_json_members json_error_def)
next
  case (Some hs)
  then show ?thesis using hops_members [OF Some]
    by (simp add: found_def start_members read_json_members add_objects_members)
qed

lemma notFound_reads:
  "read_json (notFound cfg) = Some (JObj [(''error'', JStr ''path not found''),
     (kJsonMaxHops, JNum (unat (max_hops cfg))), (kJsonMaxVisited, JNum (unat (max_visited cfg)))])"
  by (simp add: notFound_def start_members add_number_members read_json_members)

lemma resize_empty: "list_all (\<lambda>v. v = []) (resize 3 vs) \<longleftrightarrow> resize 3 vs ! 0 = [] \<and> resize 3 vs ! 1 = [] \<and> resize 3 vs ! 2 = []"
proof -
  have "length (resize 3 vs) = 3" by (simp add: resize_def)
  then obtain x y z where "resize 3 vs = [x, y, z]" by (auto simp: numeral_3_eq_3 length_Suc_conv)
  then show ?thesis by (simp add: numeral_2_eq_2)
qed

lemma board_key_map: "board_key bs board = (case map_of bs board of None \<Rightarrow> [] | Some key \<Rightarrow> key)"
  by (induction bs) auto

lemma keyOf_spec: "(keyOf board = []) = (map_of kBoards board = None)" "map_of kBoards board = Some key \<Longrightarrow> keyOf board = key"
  by (auto simp: keyOf_def board_key_map kBoards_def kVoiceBoard_def kSmsBoard_def kDataBoard_def kFailBoard_def
      kOpVoiceBoard_def kOpSmsBoard_def split: if_splits)

lemma entries_text: "map entry_json ranked = map members_text (map (\<lambda>(i, w). [(''id'', JStr i), (''score'', JNum (unat w))]) ranked)"
  by (induction ranked) (auto simp: member_texts)

lemma entities_read:
  "(status (query_msisdn q m), read_json (rbody (query_msisdn q m))) =
     (case q_hgetall q (kSubPrefix @ m) of
        None \<Rightarrow> (503, Some (JObj [(''error'', JStr ''store unavailable'')]))
      | Some [] \<Rightarrow> (404, Some (JObj [(''error'', JStr ''subscriber not found'')]))
      | Some fs \<Rightarrow> (200, Some (JObj ((''msisdn'', JStr m)
          # map (\<lambda>(f, name). (name, JNum (unat (stored_num fs f)))) kSubFields))))
   \<and> (status (query_op q m), read_json (rbody (query_op q m))) =
     (case q_hgetall q (kOpPrefix @ m) of
        None \<Rightarrow> (503, Some (JObj [(''error'', JStr ''store unavailable'')]))
      | Some [] \<Rightarrow> (404, Some (JObj [(''error'', JStr ''operator not found'')]))
      | Some fs \<Rightarrow> (200, Some (JObj ((''mccmnc'', JStr m)
          # map (\<lambda>(f, name). (name, JNum (unat (stored_num fs f)))) kOpFields))))"
  by (simp add: query_msisdn_def query_op_def start_members add_fields_members read_json_members
      split: option.split list.split)

lemma totals_read:
  "(status (totals q), read_json (rbody (totals q))) =
     (case q_hgetall q kTotalKey of
        None \<Rightarrow> (503, Some (JObj [(''error'', JStr ''store unavailable'')]))
      | Some fs \<Rightarrow> (200, Some (JObj (map (\<lambda>f. (reported f, JNum (unat (stored_num fs f)))) kTotalFields))))"
  using add_fields_members [of "map (\<lambda>f. (f, reported f)) kTotalFields" _ "[]"]
  by (simp add: totals_def totals_fold start_members read_json_members comp_def split: option.split)

lemma peers_read:
  "(status (peers q m params), read_json (rbody (peers q m params))) =
     (if p_weights params then
        (case link_weights q m of
           None \<Rightarrow> (503, Some (JObj [(''error'', JStr ''store unavailable'')]))
         | Some [] \<Rightarrow> (404, Some (JObj [(''error'', JStr ''subscriber not found'')]))
         | Some ps \<Rightarrow> (200, Some (JObj (page_members m (length ps) params
             @ [(''sort'', JStr (if p_sort params = BySms then ''sms'' else ''dur'')),
                (''peers'', JArr (map (JObj \<circ> peer_members) (page (order_peers ps (p_sort params)) params)))]))))
      else
        (case link_peers q m of
           None \<Rightarrow> (503, Some (JObj [(''error'', JStr ''store unavailable'')]))
         | Some [] \<Rightarrow> (404, Some (JObj [(''error'', JStr ''subscriber not found'')]))
         | Some ps \<Rightarrow> (200, Some (JObj (page_members m (length ps) params
             @ [(''peers'', JArr (map JStr (page ps params)))])))))"
proof -
  have l: "length (order_peers ps srt) = length ps" for ps srt
    using order_peers_mset [of ps srt] mset_eq_length by blast
  have p: "map peer_json xs = map members_text (map peer_members xs)" for xs by (simp add: member_texts)
  show ?thesis
    by (simp add: peers_def weighted_def Let_def member_texts(2) p l add_strings_members add_string_members
        add_objects_members read_json_members kSortSms_def kSortDur_def
        split: option.split list.split del: map_map) (simp add: comp_def)
qed

lemma links_read:
  "(status (query_link q a b), read_json (rbody (query_link q a b))) =
     (case q_hmget q (kLinkPrefix @ a) [b @ kFieldDurSuffix, b @ kFieldSmsSuffix, b @ kFieldCntSuffix] of
        None \<Rightarrow> (503, Some (JObj [(''error'', JStr ''store unavailable'')]))
      | Some vs \<Rightarrow>
          if list_all (\<lambda>v. v = []) (resize 3 vs) then (404, Some (JObj [(''error'', JStr ''link not found'')]))
          else (200, Some (JObj [(''first-party'', JStr a), (''second-party'', JStr b),
            (kJsonDuration, JNum (unat (to_num (resize 3 vs ! 0)))), (kJsonCalls, JNum (unat (to_num (resize 3 vs ! 2)))),
            (kJsonSms, JNum (unat (to_num (resize 3 vs ! 1))))])))
   \<and> (status (rank_top q board params), read_json (rbody (rank_top q board params))) =
     (case map_of kBoards board of
        None \<Rightarrow> (400, Some (JObj [(''error'', JStr ''no such board'')]))
      | Some key \<Rightarrow>
          (case q_top q key (p_offset params) (p_limit params) of
             None \<Rightarrow> (503, Some (JObj [(''error'', JStr ''store unavailable'')]))
           | Some (ranked, n) \<Rightarrow> (200, Some (JObj [(''board'', JStr board), (''count'', JNum (unat n)),
               (''offset'', JNum (unat (p_offset params))), (''limit'', JNum (unat (p_limit params))),
               (''entries'', JArr (map (\<lambda>(i, w). JObj [(''id'', JStr i), (''score'', JNum (unat w))]) ranked))]))))"
proof
  show "(status (query_link q a b), read_json (rbody (query_link q a b))) =
     (case q_hmget q (kLinkPrefix @ a) [b @ kFieldDurSuffix, b @ kFieldSmsSuffix, b @ kFieldCntSuffix] of
        None \<Rightarrow> (503, Some (JObj [(''error'', JStr ''store unavailable'')]))
      | Some vs \<Rightarrow>
          if list_all (\<lambda>v. v = []) (resize 3 vs) then (404, Some (JObj [(''error'', JStr ''link not found'')]))
          else (200, Some (JObj [(''first-party'', JStr a), (''second-party'', JStr b),
            (kJsonDuration, JNum (unat (to_num (resize 3 vs ! 0)))), (kJsonCalls, JNum (unat (to_num (resize 3 vs ! 2)))),
            (kJsonSms, JNum (unat (to_num (resize 3 vs ! 1))))])))"
    by (simp add: query_link_def Let_def resize_empty start_members add_string_members add_number_members
        read_json_members split: option.split)
  show "(status (rank_top q board params), read_json (rbody (rank_top q board params))) =
     (case map_of kBoards board of
        None \<Rightarrow> (400, Some (JObj [(''error'', JStr ''no such board'')]))
      | Some key \<Rightarrow>
          (case q_top q key (p_offset params) (p_limit params) of
             None \<Rightarrow> (503, Some (JObj [(''error'', JStr ''store unavailable'')]))
           | Some (ranked, n) \<Rightarrow> (200, Some (JObj [(''board'', JStr board), (''count'', JNum (unat n)),
               (''offset'', JNum (unat (p_offset params))), (''limit'', JNum (unat (p_limit params))),
               (''entries'', JArr (map (\<lambda>(i, w). JObj [(''id'', JStr i), (''score'', JNum (unat w))]) ranked))]))))"
    by (simp add: rank_top_def Let_def keyOf_spec entries_text start_members add_string_members add_number_members
        add_objects_members read_json_members case_prod_unfold
        split: option.split del: map_map) (simp add: comp_def)
qed

section \<open>Properties\<close>

text \<open>
  C30: A subscriber and an operator are reported with what the store holds: when the store does not
  answer the status is 503, when the key holds nothing it is 404, and otherwise the body is read
  back as the number asked for and one number per field, the stored value or 0, under its name.
\<close>

theorem entities_reported:
  "(status (query_msisdn q m), read_json (rbody (query_msisdn q m))) =
     (case q_hgetall q (kSubPrefix @ m) of
        None \<Rightarrow> (503, Some (JObj [(''error'', JStr ''store unavailable'')]))
      | Some [] \<Rightarrow> (404, Some (JObj [(''error'', JStr ''subscriber not found'')]))
      | Some fs \<Rightarrow> (200, Some (JObj ((''msisdn'', JStr m)
          # map (\<lambda>(f, name). (name, JNum (unat (stored_num fs f)))) kSubFields))))
   \<and> (status (query_op q m), read_json (rbody (query_op q m))) =
     (case q_hgetall q (kOpPrefix @ m) of
        None \<Rightarrow> (503, Some (JObj [(''error'', JStr ''store unavailable'')]))
      | Some [] \<Rightarrow> (404, Some (JObj [(''error'', JStr ''operator not found'')]))
      | Some fs \<Rightarrow> (200, Some (JObj ((''mccmnc'', JStr m)
          # map (\<lambda>(f, name). (name, JNum (unat (stored_num fs f)))) kOpFields))))"
  by (rule entities_read)

text \<open>
  The peers of a subscriber as its hash names them; when one of them goes before another, by the
  stored numbers; how one is written; and what is left of a list from a position on, at most so many
  of it, or all with 0.
\<close>

definition peer_names :: "Fields \<Rightarrow> string set" where
  "peer_names fs = {n. n @ '':dur'' \<in> fst ` set fs \<or> n @ '':sms'' \<in> fst ` set fs \<or> n @ '':cnt'' \<in> fst ` set fs}"

definition busier :: "Fields \<Rightarrow> Sort \<Rightarrow> string \<Rightarrow> string \<Rightarrow> bool" where
  "busier fs srt a b \<longleftrightarrow>
     (let (by, tie) = (case srt of ByDuration \<Rightarrow> ('':dur'', '':sms'') | BySms \<Rightarrow> ('':sms'', '':dur'')) in
      stored_num fs (b @ by) < stored_num fs (a @ by)
      \<or> stored_num fs (b @ by) = stored_num fs (a @ by)
        \<and> (stored_num fs (b @ tie) < stored_num fs (a @ tie) \<or> stored_num fs (b @ tie) = stored_num fs (a @ tie) \<and> a < b))"

definition peer_entry :: "Fields \<Rightarrow> string \<Rightarrow> jval" where
  "peer_entry fs n = JObj [(''msisdn'', JStr n), (''duration'', JNum (unat (stored_num fs (n @ '':dur'')))),
     (''calls'', JNum (unat (stored_num fs (n @ '':cnt'')))), (''sms'', JNum (unat (stored_num fs (n @ '':sms''))))]"

definition window :: "nat \<Rightarrow> nat \<Rightarrow> 'a list \<Rightarrow> 'a list" where
  "window off lim xs = (if lim = 0 then drop off xs else take lim (drop off xs))"

lemma page_window: "page xs params = window (unat (p_offset params)) (unat (p_limit params)) xs"
  by (simp add: page_slice window_def unat_eq_0)

lemma map_window: "map f (window off lim xs) = window off lim (map f xs)"
  by (simp add: window_def take_map drop_map)

lemma peer_names_cut: "list_all metric_field (map fst fs) \<Longrightarrow> cut_suffix ` fst ` set fs = peer_names fs"
proof (rule set_eqI, rule iffI)
  fix n assume a: "list_all metric_field (map fst fs)" "n \<in> cut_suffix ` fst ` set fs"
  then obtain f where f: "f \<in> fst ` set fs" "n = cut_suffix f" "metric_field f" unfolding list_all_iff by auto
  then obtain name where "f = name @ kFieldDurSuffix \<or> f = name @ kFieldSmsSuffix \<or> f = name @ kFieldCntSuffix"
    by (auto simp: metric_field_def)
  then show "n \<in> peer_names fs" using f(1,2)
    unfolding peer_names_def kFieldDurSuffix_def [symmetric] kFieldSmsSuffix_def [symmetric] kFieldCntSuffix_def [symmetric]
    by (elim disjE) simp_all
next
  fix n assume "n \<in> peer_names fs"
  then show "n \<in> cut_suffix ` fst ` set fs"
    unfolding peer_names_def kFieldDurSuffix_def [symmetric] kFieldSmsSuffix_def [symmetric] kFieldCntSuffix_def [symmetric]
    using cut_suffix_metric by (metis (mono_tags, lifting) image_eqI mem_Collect_eq)
qed

lemma busier_before: "peer_before srt (peer_of fs a) (peer_of fs b) \<longleftrightarrow> busier fs srt a b"
  by (cases srt) (auto simp: peer_before_def busier_def peer_of_def Let_def kFieldDurSuffix_def kFieldSmsSuffix_def)

lemma busier_total: "a \<noteq> b \<Longrightarrow> busier fs srt a b \<or> busier fs srt b a"
  by (cases srt) (auto simp: busier_def)

lemma strictly_listed: "sorted_wrt (\<lambda>a b. \<not> busier fs srt b a) ns \<Longrightarrow> distinct ns \<Longrightarrow> sorted_wrt (busier fs srt) ns"
proof (induction ns)
  case (Cons n ns)
  have "busier fs srt n y" if "y \<in> set ns" for y using that Cons.prems busier_total [of n y fs srt] by auto
  then show ?case using Cons by simp
qed simp

lemma peer_entry_members: "JObj (peer_members (peer_of fs n)) = peer_entry fs n"
  by (simp add: peer_members_def peer_entry_def peer_of_def kJsonDuration_def kJsonCalls_def kJsonSms_def
      kFieldDurSuffix_def kFieldSmsSuffix_def kFieldCntSuffix_def)

text \<open>The names in the order the weights are listed.\<close>

lemma peers_listed:
  assumes "q_hgetall q (links_key m) = Some fs" "q_hkeys q (links_key m) = Some (map fst fs)"
    and "distinct (map fst fs)" "list_all metric_field (map fst fs)"
  shows "link_peers q m = Some (sorted_list_of_set (peer_names fs))
    \<and> (\<exists>ps ns. link_weights q m = Some ps \<and> length ps = length ns \<and> mset ns = mset (sorted_list_of_set (peer_names fs))
        \<and> sorted_wrt (busier fs srt) ns \<and> order_peers ps srt = map (peer_of fs) ns)"
proof -
  obtain names ps where n: "link_peers q m = Some names" "link_weights q m = Some ps" "sorted names" "distinct names"
      "set names = cut_suffix ` fst ` set fs" "distinct (map msisdn ps)" "set ps = peer_of fs ` set names"
    using links_read_back [OF assms] by blast
  have names: "names = sorted_list_of_set (peer_names fs)"
    using n(3,4) n(5) [unfolded peer_names_cut [OF assms(4)]] sorted_list_of_set.idem_if_sorted_distinct by metis
  let ?o = "order_peers ps srt"
  let ?ns = "map msisdn ?o"
  have so: "set ?o = set ps" by (metis order_peers_mset set_mset_mset)
  have "p = peer_of fs (msisdn p)" if "p \<in> set ?o" for p using that so n(7) by auto
  then have o: "?o = map (peer_of fs) ?ns" by (simp add: map_idI)
  have ms: "mset ?ns = mset (map msisdn ps)" by (metis mset_map order_peers_mset)
  have d: "distinct ?ns" using n(6) ms mset_eq_imp_distinct_iff by blast
  have "set ?ns = set names" using so n(7) by (auto simp: image_image)
  then have mn: "mset ?ns = mset names" using d n(4) set_eq_iff_mset_eq_distinct by blast
  have "sorted_wrt (\<lambda>a b. \<not> busier fs srt b a) ?ns"
    using order_peers_sorted [of srt ps] unfolding busier_before [symmetric] sorted_wrt_map
    by (rule sorted_wrt_mono_rel [rotated]) (use so n(7) in auto)
  then have "sorted_wrt (busier fs srt) ?ns"
    using d by (rule strictly_listed)
  moreover have "length ps = length ?ns" using ms by (metis length_map size_mset)
  ultimately show ?thesis using n(1,2) mn o names by metis
qed

text \<open>
  C31: The peers of a subscriber are paged from the whole listing. For a store that answers for the hash of
  the subscriber, with each field once and every field that of a metric: it is 404 when the hash is
  empty; otherwise the body holds the number of peers, the offset and the limit asked for, and of the
  listing exactly the entries from the offset on, at most the limit of them (all of them with 0). The
  listing is the names the fields begin with, each once, in ascending order; or with weights those
  same names each with its three stored numbers, the higher number of the metric first (of the calls'
  duration, or of the messages), then the higher number of the other metric, then the smaller name
  first. It is 503 when the store does not answer.
\<close>

theorem peers_reported:
  assumes "q_hgetall q (''link:'' @ m) = answer" "q_hkeys q (''link:'' @ m) = map_option (map fst) answer"
    and "case answer of None \<Rightarrow> True | Some fs \<Rightarrow> distinct (map fst fs) \<and> list_all metric_field (map fst fs)"
  shows "case answer of
      None \<Rightarrow> (status (peers q m params), read_json (rbody (peers q m params)))
        = (503, Some (JObj [(''error'', JStr ''store unavailable'')]))
    | Some fs \<Rightarrow>
        let names = sorted_list_of_set (peer_names fs); off = unat (p_offset params); lim = unat (p_limit params);
            body = [(''msisdn'', JStr m), (''count'', JNum (length names mod 2 ^ 64)),
              (''offset'', JNum off), (''limit'', JNum lim)]
        in if fs = [] then (status (peers q m params), read_json (rbody (peers q m params)))
              = (404, Some (JObj [(''error'', JStr ''subscriber not found'')]))
           else if p_weights params then
             \<exists>ns. mset ns = mset names \<and> sorted_wrt (busier fs (p_sort params)) ns
               \<and> (status (peers q m params), read_json (rbody (peers q m params)))
                 = (200, Some (JObj (body @ [(''sort'', JStr (case p_sort params of BySms \<Rightarrow> ''sms'' | ByDuration \<Rightarrow> ''dur'')),
                     (''peers'', JArr (window off lim (map (peer_entry fs) ns)))])))
           else (status (peers q m params), read_json (rbody (peers q m params)))
             = (200, Some (JObj (body @ [(''peers'', JArr (window off lim (map JStr names)))])))"
proof (cases answer)
  case None
  then show ?thesis using assms(1,2) peers_read [of q m params]
    by (simp add: link_weights_def link_peers_def links_key_def kLinkPrefix_def)
next
  case (Some fs)
  have fs: "q_hgetall q (links_key m) = Some fs" "q_hkeys q (links_key m) = Some (map fst fs)"
      "distinct (map fst fs)" "list_all metric_field (map fst fs)"
    using assms Some by (simp_all add: links_key_def kLinkPrefix_def)
  obtain ps ns where l: "link_peers q m = Some (sorted_list_of_set (peer_names fs))" "link_weights q m = Some ps"
      "length ps = length ns" "mset ns = mset (sorted_list_of_set (peer_names fs))"
      "sorted_wrt (busier fs (p_sort params)) ns" "order_peers ps (p_sort params) = map (peer_of fs) ns"
    using peers_listed [OF fs, of "p_sort params"] by blast
  define names where "names = sorted_list_of_set (peer_names fs)"
  note l = l [folded names_def]
  have len: "length ns = length names" using l(4) mset_eq_length by blast
  have "finite (peer_names fs)" unfolding peer_names_cut [OF fs(4), symmetric] by simp
  then have e: "names = [] \<longleftrightarrow> fs = []" using peer_names_cut [OF fs(4)] by (auto simp: names_def)
  then have e': "ps = [] \<longleftrightarrow> fs = []" using l(3) len by auto
  have u: "unat (of_nat k :: u64) = k mod 2 ^ 64" for k by (simp add: unat_of_nat take_bit_eq_mod)
  have w: "map (JObj \<circ> peer_members) (page (map (peer_of fs) ns) params)
      = window (unat (p_offset params)) (unat (p_limit params)) (map (peer_entry fs) ns)"
    by (simp add: page_window map_window comp_def peer_entry_members)
  have s: "JStr (if srt = BySms then ''sms'' else ''dur'') = JStr (case srt of BySms \<Rightarrow> ''sms'' | ByDuration \<Rightarrow> ''dur'')" for srt
    by (cases srt) simp_all
  note r = peers_read [of q m params, unfolded l(1,2) option.case]
  show ?thesis
  proof (cases "fs = []")
    case True
    then show ?thesis using r e e' by (simp add: Some)
  next
    case False
    then obtain n names' p ps' where c: "names = n # names'" "ps = p # ps'" using e e' by (cases names; cases ps) auto
    have r1: "(status (peers q m params), read_json (rbody (peers q m params))) = (200, Some (JObj (page_members m (length ps) params
             @ [(''sort'', JStr (if p_sort params = BySms then ''sms'' else ''dur'')),
                (''peers'', JArr (map (JObj \<circ> peer_members) (page (order_peers ps (p_sort params)) params)))])))" if "p_weights params"
      using r that c by simp
    have r2: "(status (peers q m params), read_json (rbody (peers q m params))) = (200, Some (JObj (page_members m (length names) params
             @ [(''peers'', JArr (map JStr (page names params)))])))" if "\<not> p_weights params"
      using r that c by simp
    show ?thesis
    proof (cases "p_weights params")
      case True
      show ?thesis unfolding Some option.case Let_def names_def [symmetric] if_not_P [OF False] if_P [OF True]
        by (intro exI [of _ ns] conjI l(4,5)) (use r1 [OF True] in \<open>simp add: l(3,6) w len s page_members_def u\<close>)
    next
      case w0: False
      show ?thesis unfolding Some option.case Let_def names_def [symmetric] if_not_P [OF False] if_not_P [OF w0] using r2 [OF w0]
        by (simp add: page_members_def u page_window map_window)
    qed
  qed
qed

theorem peers_reported_witness:
  "let fs = [(''2:dur'', ''60''), (''2:cnt'', ''1'')]; names = sorted_list_of_set (peer_names fs) in
   \<exists>ns. mset ns = mset names \<and> sorted_wrt (busier fs ByDuration) ns
     \<and> (status (peers toy_query ''1'' \<lparr>p_weights = True, p_sort = ByDuration, p_offset = 0, p_limit = 5\<rparr>),
         read_json (rbody (peers toy_query ''1'' \<lparr>p_weights = True, p_sort = ByDuration, p_offset = 0, p_limit = 5\<rparr>)))
       = (200, Some (JObj ([(''msisdn'', JStr ''1''), (''count'', JNum (length names mod 2 ^ 64)),
              (''offset'', JNum 0), (''limit'', JNum 5)] @ [(''sort'', JStr ''dur''),
            (''peers'', JArr (window 0 5 (map (peer_entry fs) ns)))])))"
proof -
  let ?fs = "[(''2:dur'', ''60''), (''2:cnt'', ''1'')]"
  have "metric_field (''2'' @ kFieldDurSuffix)" "metric_field (''2'' @ kFieldCntSuffix)"
    by (simp only: metric_field_def, blast)+
  then have "list_all metric_field (map fst ?fs)" by (simp add: kFieldDurSuffix_def kFieldCntSuffix_def)
  then show ?thesis
    using peers_reported [of toy_query "''1''" "Some ?fs" "\<lparr>p_weights = True, p_sort = ByDuration, p_offset = 0, p_limit = 5\<rparr>"]
    by (simp add: toy_query_def Let_def)
qed

text \<open>
  C32: A link is reported with its three numbers, a missing one as 0, and not found when the
  store holds none of the three; a board with the page the store returned and the number of its
  members, and only a board that exists is looked up.
\<close>

theorem links_and_boards_reported:
  "(status (query_link q a b), read_json (rbody (query_link q a b))) =
     (case q_hmget q (kLinkPrefix @ a) [b @ kFieldDurSuffix, b @ kFieldSmsSuffix, b @ kFieldCntSuffix] of
        None \<Rightarrow> (503, Some (JObj [(''error'', JStr ''store unavailable'')]))
      | Some vs \<Rightarrow>
          if list_all (\<lambda>v. v = []) (resize 3 vs) then (404, Some (JObj [(''error'', JStr ''link not found'')]))
          else (200, Some (JObj [(''first-party'', JStr a), (''second-party'', JStr b),
            (kJsonDuration, JNum (unat (to_num (resize 3 vs ! 0)))), (kJsonCalls, JNum (unat (to_num (resize 3 vs ! 2)))),
            (kJsonSms, JNum (unat (to_num (resize 3 vs ! 1))))])))
   \<and> (status (rank_top q board params), read_json (rbody (rank_top q board params))) =
     (case map_of kBoards board of
        None \<Rightarrow> (400, Some (JObj [(''error'', JStr ''no such board'')]))
      | Some key \<Rightarrow>
          (case q_top q key (p_offset params) (p_limit params) of
             None \<Rightarrow> (503, Some (JObj [(''error'', JStr ''store unavailable'')]))
           | Some (ranked, n) \<Rightarrow> (200, Some (JObj [(''board'', JStr board), (''count'', JNum (unat n)),
               (''offset'', JNum (unat (p_offset params))), (''limit'', JNum (unat (p_limit params))),
               (''entries'', JArr (map (\<lambda>(i, w). JObj [(''id'', JStr i), (''score'', JNum (unat w))]) ranked))]))))"
  by (rule links_read)

text \<open>
  The health of the service is reported even when the store is down, with the bounds the path
  search runs under; the totals are the fourteen stored counters under their names, with dashes for
  underscores; a path that was found is reported as its route and, when asked for, with what
  each hop of it carries in the store.
\<close>

theorem stats_and_paths_reported:
  "(status (health q cfg), read_json (rbody (health q cfg))) =
     (200, Some (JObj [(''status'', JStr ''ok''), (''store'', JStr (if q_dbsize q = None then ''down'' else ''up'')),
       (''keys'', JNum (case q_dbsize q of None \<Rightarrow> 0 | Some n \<Rightarrow> unat n)),
       (''max-hops'', JNum (unat (max_hops cfg))), (''max-visited'', JNum (unat (max_visited cfg)))]))
   \<and> (status (totals q), read_json (rbody (totals q))) =
     (case q_hgetall q kTotalKey of
        None \<Rightarrow> (503, Some (JObj [(''error'', JStr ''store unavailable'')]))
      | Some fs \<Rightarrow> (200, Some (JObj (map (\<lambda>f. (reported f, JNum (unat (stored_num fs f)))) kTotalFields))))
   \<and> (status (found q route w), read_json (rbody (found q route w))) =
     (if \<not> w then (200, Some (JObj [(''path'', JArr (map JStr route))]))
      else if hops q route = None then (503, Some (JObj [(''error'', JStr ''store unavailable'')]))
      else (200, Some (JObj [(''path'', JArr (map JStr route)), (''hops'', JArr (map JObj (route_hops q route)))])))"
  using found_reads [of q route w] add_fields_members [of "map (\<lambda>f. (f, reported f)) kTotalFields" _ "[]"]
  by (simp add: health_def totals_def totals_fold Let_def start_members add_string_members add_number_members read_json_members
      kJsonMaxHops_def kJsonMaxVisited_def comp_def split: option.split)

section \<open>Every body is an object\<close>

text \<open>Every answer has one of the five statuses and a body that is a JSON object.\<close>

definition answers_ok :: "Result \<Rightarrow> bool" where
  "answers_ok r \<longleftrightarrow> status r \<in> {200, 400, 404, 503} \<and> (\<exists>ms. read_json (rbody r) = Some (JObj ms))"

lemma answers_pair: "(status r, read_json (rbody r)) = (n, Some (JObj ms)) \<Longrightarrow> n \<in> {200, 400, 404, 503} \<Longrightarrow> answers_ok r"
  by (auto simp: answers_ok_def)

lemma bad_ok: "st \<in> {200, 400, 404, 503} \<Longrightarrow> answers_ok (bad st msg)"
  by (auto simp: answers_ok_def)

lemma members_ok: "answers_ok \<lparr>status = 200, rbody = json_str (members_text ms)\<rparr>"
  by (simp add: answers_ok_def read_json_members)

lemma refused_ok: "parseParams req fallback cap = Inl r \<Longrightarrow> answers_ok r"
  by (cases rule: params_cases [of req fallback cap]) (auto simp: refused_def intro: bad_ok)

lemma objects_text: "map peer_json ps = map members_text (map peer_members ps)"
  by (simp add: member_texts)

lemma add_fields_start: "add_fields names fs [] = members_text (map (\<lambda>(f, name). (name, JNum (unat (stored_num fs f)))) names)"
  using add_fields_members [of names fs "[]"] by simp

lemmas as_members = start_members add_fields_start add_string_members add_number_members add_strings_members add_objects_members
  add_fields_members member_texts(2) objects_text entries_text

lemma services_ok:
  "answers_ok (query_msisdn q m)" "answers_ok (query_op q m)" "answers_ok (peers q m params)"
  "answers_ok (query_link q m n)" "answers_ok (rank_top q board params)" "answers_ok (health q cfg)"
  "answers_ok (totals q)"
  by (simp_all add: query_msisdn_def query_op_def peers_def weighted_def query_link_def rank_top_def health_def
      totals_def totals_fold Let_def as_members bad_ok members_ok split: option.split del: map_map)

lemma found_ok: "answers_ok (found q route w)"
  using found_reads [of q route w] by (auto simp: answers_ok_def split: if_splits)

lemma notFound_ok: "answers_ok \<lparr>status = 404, rbody = notFound cfg\<rparr>"
  by (simp add: answers_ok_def notFound_reads)

end
