(* ===== verification/Gateway.thy ===== *)
theory Gateway
  imports Services
begin

text \<open>
  \<open>src/query/http_gateway.cpp\<close>: the routes, the handlers behind them and the life of the server.
  cpp-httplib is outside the sources: of it the model uses that a GET is given to the handler of the
  first route whose regular expression matches the whole path, that a path no route matches gets
  status 404, and that the error handler sees every response of status 400 or more. A request is its
  path and the map of its parameters; binding a port is an answer of the environment.
\<close>

section \<open>Routes\<close>

datatype handler =
  H_msisdn string | H_operator string | H_links string | H_link string string | H_path string string
| H_health | H_totals | H_top string

fun strip_prefix :: "string \<Rightarrow> string \<Rightarrow> string option" where
  "strip_prefix [] p = Some p"
| "strip_prefix (c # cs) (d # p) = (if c = d then strip_prefix cs p else None)"
| "strip_prefix (c # cs) [] = None"

text \<open>\<open>prefix([class]+)\<close> and \<open>prefix(\d+)/(\d+)\<close>, matched against the whole path.\<close>

definition one_group :: "(char \<Rightarrow> bool) \<Rightarrow> string \<Rightarrow> string \<Rightarrow> string option" where
  "one_group cls prefix p =
     (case strip_prefix prefix p of
        None \<Rightarrow> None
      | Some g \<Rightarrow> if g \<noteq> [] \<and> list_all cls g then Some g else None)"

definition two_groups :: "string \<Rightarrow> string \<Rightarrow> (string \<times> string) option" where
  "two_groups prefix p =
     (case strip_prefix prefix p of
        None \<Rightarrow> None
      | Some r \<Rightarrow>
          (case dropWhile is_digit r of
             [] \<Rightarrow> None
           | c # b \<Rightarrow>
               if c = CHR ''/'' \<and> takeWhile is_digit r \<noteq> [] \<and> b \<noteq> [] \<and> list_all is_digit b
               then Some (takeWhile is_digit r, b) else None))"

definition board_char :: "char \<Rightarrow> bool" where
  "board_char c \<longleftrightarrow> c = CHR ''-'' \<or> (97 \<le> byte_of c \<and> byte_of c \<le> 122)"

text \<open>The routes in the order they are registered.\<close>

definition query_routes :: "string \<Rightarrow> handler option list" where
  "query_routes p =
     [map_option H_msisdn (one_group is_digit ''/query/msisdn/'' p),
      map_option H_operator (one_group is_digit ''/query/operator/'' p),
      map_option H_links (one_group is_digit ''/query/link/'' p),
      map_option (\<lambda>(a, b). H_link a b) (two_groups ''/query/link/'' p),
      map_option (\<lambda>(a, b). H_path a b) (two_groups ''/query/path/'' p)]"

definition stats_routes :: "string \<Rightarrow> handler option list" where
  "stats_routes p =
     [if p = ''/query/health'' then Some H_health else None,
      if p = ''/query/totals'' then Some H_totals else None]"

definition rank_routes :: "string \<Rightarrow> handler option list" where
  "rank_routes p = [map_option H_top (one_group board_char ''/query/top/'' p)]"

definition routes :: "string \<Rightarrow> handler option list" where
  "routes p = query_routes p @ stats_routes p @ rank_routes p"

definition route :: "string \<Rightarrow> handler option" where
  "route p = (case filter (\<lambda>h. h \<noteq> None) (routes p) of [] \<Rightarrow> None | h # hs \<Rightarrow> h)"

section \<open>Handlers\<close>

definition with_params ::
    "(string \<Rightarrow> string option) \<Rightarrow> u64 \<Rightarrow> u64 \<Rightarrow> (QueryParams \<Rightarrow> Result option) \<Rightarrow> Result option" where
  "with_params req fallback cap f =
     (case parseParams req fallback cap of Inl refusal \<Rightarrow> Some refusal | Inr params \<Rightarrow> f params)"

text \<open>\<open>None\<close> is a handler that throws or does not come back.\<close>

definition handle :: "IQueryStore \<Rightarrow> QueryCfg \<Rightarrow> (string \<Rightarrow> string option) \<Rightarrow> handler \<Rightarrow> Result option" where
  "handle q cfg req h =
     (case h of
        H_msisdn m \<Rightarrow> Some (query_msisdn q m)
      | H_operator m \<Rightarrow> Some (query_op q m)
      | H_links m \<Rightarrow> with_params req kPeerLimit kPeerLimitMax (\<lambda>params. Some (peers q m params))
      | H_link a b \<Rightarrow> Some (query_link q a b)
      | H_path a b \<Rightarrow> with_params req kPeerLimit kPeerLimitMax (\<lambda>params. path q cfg a b (p_weights params))
      | H_health \<Rightarrow> Some (health q cfg)
      | H_totals \<Rightarrow> Some (totals q)
      | H_top b \<Rightarrow> with_params req kTopLimit kTopLimitMax (\<lambda>params. Some (rank_top q b params)))"

definition on_error :: "Result \<Rightarrow> Result" where
  "on_error res = (if status res \<ge> 400 \<and> rbody res = [] then res\<lparr>rbody := json_error ''no such route''\<rparr> else res)"

definition on_exception :: "Result \<Rightarrow> Result" where
  "on_exception res = res\<lparr>status := 500, rbody := json_error ''internal error''\<rparr>"

definition respond :: "IQueryStore \<Rightarrow> QueryCfg \<Rightarrow> string \<Rightarrow> (string \<Rightarrow> string option) \<Rightarrow> Result" where
  "respond q cfg p req =
     on_error
       (case route p of
          None \<Rightarrow> \<lparr>status = 404, rbody = []\<rparr>
        | Some h \<Rightarrow>
            (case handle q cfg req h of
               None \<Rightarrow> on_exception \<lparr>status = 200, rbody = []\<rparr>
             | Some res \<Rightarrow> res))"

section \<open>The life of the server\<close>

record HttpGateway =
  g_port :: int
  g_host :: string
  g_running :: bool

definition new_gateway :: "int \<Rightarrow> string \<Rightarrow> HttpGateway" where
  "new_gateway port host = \<lparr>g_port = port, g_host = host, g_running = False\<rparr>"

definition gateway_port :: "HttpGateway \<Rightarrow> int" where
  "gateway_port g = g_port g"

definition gateway_start :: "int \<Rightarrow> (int \<Rightarrow> bool) \<Rightarrow> HttpGateway \<Rightarrow> bool \<times> HttpGateway" where
  "gateway_start any_port bind g =
     (if g_running g then (True, g)
      else
        let bound = (if g_port g = 0 then any_port else if bind (g_port g) then g_port g else - 1) in
        if bound \<le> 0 then (False, g)
        else (True, g\<lparr>g_port := bound, g_running := True\<rparr>))"

definition gateway_stop :: "HttpGateway \<Rightarrow> HttpGateway" where
  "gateway_stop g = (if \<not> g_running g then g else g\<lparr>g_running := False\<rparr>)"

definition gateway_destroy :: "HttpGateway \<Rightarrow> HttpGateway" where
  "gateway_destroy g = gateway_stop g"

text \<open>The line logged for each request, and the one for a handler that threw.\<close>

definition access_line :: "string \<Rightarrow> string \<Rightarrow> Result \<Rightarrow> string" where
  "access_line meth p res = meth @ '' '' @ p @ '' -> '' @ dec_of (status res)"

definition threw_line :: "string \<Rightarrow> string" where
  "threw_line p = ''handler threw on '' @ p"

section \<open>Which route a path takes\<close>

lemma strip_prefix_iff: "strip_prefix pre p = Some r \<longleftrightarrow> p = pre @ r"
  by (induction pre p rule: strip_prefix.induct) auto

lemma one_group_iff: "one_group cls pre p = Some g \<longleftrightarrow> p = pre @ g \<and> g \<noteq> [] \<and> list_all cls g"
proof (cases "strip_prefix pre p")
  case None
  then show ?thesis using strip_prefix_iff [of pre p g] by (auto simp: one_group_def)
next
  case (Some r)
  then show ?thesis using strip_prefix_iff [of pre p r] by (auto simp: one_group_def)
qed

lemma slash_no_digit [simp]: "\<not> is_digit (CHR ''/'')"
  by (simp add: is_digit_def)

lemma digits_slash:
  assumes "list_all is_digit a"
  shows "takeWhile is_digit (a @ CHR ''/'' # b) = a" "dropWhile is_digit (a @ CHR ''/'' # b) = CHR ''/'' # b"
  using assms by (induction a) simp_all

lemma two_groups_iff:
  "two_groups pre p = Some (a, b) \<longleftrightarrow>
     p = pre @ a @ CHR ''/'' # b \<and> a \<noteq> [] \<and> b \<noteq> [] \<and> list_all is_digit a \<and> list_all is_digit b"
proof
  assume "two_groups pre p = Some (a, b)"
  then obtain r where r: "p = pre @ r" "dropWhile is_digit r = CHR ''/'' # b" "a = takeWhile is_digit r"
    "a \<noteq> []" "b \<noteq> []" "list_all is_digit b"
    by (auto simp: two_groups_def strip_prefix_iff split: option.splits list.splits if_splits)
  then have "r = a @ CHR ''/'' # b" by (metis takeWhile_dropWhile_id)
  moreover have "list_all is_digit a" using r(3) by (auto simp: list_all_iff dest: set_takeWhileD)
  ultimately show "p = pre @ a @ CHR ''/'' # b \<and> a \<noteq> [] \<and> b \<noteq> [] \<and> list_all is_digit a \<and> list_all is_digit b"
    using r by simp
next
  assume a: "p = pre @ a @ CHR ''/'' # b \<and> a \<noteq> [] \<and> b \<noteq> [] \<and> list_all is_digit a \<and> list_all is_digit b"
  then have "strip_prefix pre p = Some (a @ CHR ''/'' # b)" by (simp add: strip_prefix_iff)
  then show "two_groups pre p = Some (a, b)" using a digits_slash [of a b] by (simp add: two_groups_def)
qed

text \<open>The path a handler is reached by, and the arguments it may have.\<close>

fun path_of :: "handler \<Rightarrow> string" where
  "path_of (H_msisdn m) = ''/query/msisdn/'' @ m"
| "path_of (H_operator m) = ''/query/operator/'' @ m"
| "path_of (H_links m) = ''/query/link/'' @ m"
| "path_of (H_link a b) = ''/query/link/'' @ a @ ''/'' @ b"
| "path_of (H_path a b) = ''/query/path/'' @ a @ ''/'' @ b"
| "path_of H_health = ''/query/health''"
| "path_of H_totals = ''/query/totals''"
| "path_of (H_top b) = ''/query/top/'' @ b"

definition number :: "string \<Rightarrow> bool" where
  "number t \<longleftrightarrow> t \<noteq> [] \<and> list_all is_digit t"

fun args_ok :: "handler \<Rightarrow> bool" where
  "args_ok (H_msisdn m) = number m"
| "args_ok (H_operator m) = number m"
| "args_ok (H_links m) = number m"
| "args_ok (H_link a b) = (number a \<and> number b)"
| "args_ok (H_path a b) = (number a \<and> number b)"
| "args_ok (H_top b) = (b \<noteq> [] \<and> list_all board_char b)"
| "args_ok h = True"

lemma eq_map_option: "Some x = map_option f opt \<longleftrightarrow> (\<exists>y. opt = Some y \<and> x = f y)"
  by (cases opt) auto

lemma routes_spec: "Some h \<in> set (routes p) \<longleftrightarrow> p = path_of h \<and> args_ok h"
  by (cases h) (auto simp: routes_def query_routes_def stats_routes_def rank_routes_def eq_map_option
      one_group_iff two_groups_iff number_def)

lemma no_slash:
  "list_all is_digit m \<Longrightarrow> (m = a @ CHR ''/'' # b) = False" "list_all is_digit m \<Longrightarrow> (a @ CHR ''/'' # b = m) = False"
  by auto

lemma split_unique:
  assumes "a @ CHR ''/'' # b = c @ CHR ''/'' # d" "list_all is_digit a" "list_all is_digit c"
  shows "a = c \<and> b = d"
  using digits_slash [OF assms(2), of b] digits_slash [OF assms(3), of d] assms(1) by simp

lemma path_unique: "path_of h = path_of h' \<Longrightarrow> args_ok h \<Longrightarrow> args_ok h' \<Longrightarrow> h = h'"
  by (cases h; cases h')
    (auto simp: number_def no_slash dest: split_unique)

lemma route_iff: "route p = Some h \<longleftrightarrow> p = path_of h \<and> args_ok h"
proof -
  have one: "x = y" if "Some x \<in> set (routes p)" "Some y \<in> set (routes p)" for x y
    using that path_unique by (simp add: routes_spec)
  show ?thesis
  proof (cases "filter (\<lambda>h. h \<noteq> None) (routes p)")
    case Nil
    then have "Some h \<notin> set (routes p)" by (auto simp: filter_empty_conv)
    then show ?thesis using Nil by (simp add: route_def routes_spec)
  next
    case (Cons x xs)
    then have "x \<in> set (filter (\<lambda>h. h \<noteq> None) (routes p))" by simp
    then obtain y where y: "x = Some y" "Some y \<in> set (routes p)" by auto
    then show ?thesis using Cons one [of y h] by (auto simp: route_def routes_spec [symmetric])
  qed
qed

lemma handle_ok: "\<exists>r. handle q cfg req h = Some r \<and> answers_ok r"
proof -
  have p: "\<exists>r. path q cfg a b w = Some r \<and> answers_ok r" for a b w
    using path_returns [of q cfg a b w] by (auto intro: found_ok notFound_ok bad_ok)
  show ?thesis
    by (cases h) (auto simp: handle_def with_params_def services_ok refused_ok p split: sum.split)
qed

lemma answers_body: "answers_ok r \<Longrightarrow> rbody r \<noteq> []"
  by (auto simp: answers_ok_def read_json_def)

section \<open>Properties\<close>

text \<open>
  C18: Every GET is answered: whatever the path, the parameters and the store, the response has
  status 200, 400, 404 or 503 and its body is a JSON object; no handler throws (500 never happens),
  and a path without a route gets the 404 body that says so.
\<close>

theorem gateway_answers:
  "status (respond q cfg p req) \<in> {200, 400, 404, 503}
   \<and> (\<exists>ms. read_json (rbody (respond q cfg p req)) = Some (JObj ms))
   \<and> (if route p = None then status (respond q cfg p req) = 404
        \<and> read_json (rbody (respond q cfg p req)) = Some (JObj [(''error'', JStr ''no such route'')])
      else \<exists>h r. route p = Some h \<and> handle q cfg req h = Some r \<and> respond q cfg p req = r)"
proof (cases "route p")
  case None
  have "json_error ''no such route'' = rbody (bad 404 ''no such route'')" by (simp add: bad_def)
  then show ?thesis using None by (simp add: respond_def on_error_def)
next
  case (Some h)
  obtain r where r: "handle q cfg req h = Some r" "answers_ok r" using handle_ok by blast
  then have "respond q cfg p req = r" using Some answers_body by (simp add: respond_def on_error_def)
  then show ?thesis using Some r by (auto simp: answers_ok_def)
qed

text \<open>
  C29: The routes are unambiguous and let nothing but numbers and board names through: a path is
  given to a handler exactly when it is that handler's path and its arguments are non-empty runs of
  digits, or of lower-case letters and dashes for a board; no path fits two routes, so the order
  they are registered in does not matter.
\<close>

theorem routes_unambiguous:
  "(route p = Some h) = (p = path_of h \<and> args_ok h)
   \<and> (route p = Some h) = (Some h \<in> set (routes p))"
  by (simp add: route_iff routes_spec)

text \<open>
  The server starts once and stops once: a start that cannot bind leaves it stopped, one that can
  serves the port asked for, or the one it was given for 0; while it runs another start changes
  nothing, and a stop leaves the port as it is.
\<close>

theorem gateway_lifecycle:
  "case gateway_start any_port bind g of (good, g') \<Rightarrow>
     g_running g' = good
     \<and> gateway_start any_port' bind' g' = (if good then (True, g') else gateway_start any_port' bind' g)
     \<and> (if g_running g then g' = g
        else if good then g_port g' > 0 \<and> (if g_port g = 0 then g_port g' = any_port else g_port g' = g_port g \<and> bind (g_port g))
        else g' = g)
     \<and> gateway_stop g' = g'\<lparr>g_running := False\<rparr> \<and> gateway_stop (gateway_stop g') = gateway_stop g'
     \<and> \<not> g_running (gateway_destroy g') \<and> gateway_port (gateway_stop g') = gateway_port g'"
  by (auto simp: gateway_destroy_def gateway_port_def gateway_start_def gateway_stop_def Let_def split: if_splits prod.splits)

end
