(* ===== verification/RedisQuery.thy ===== *)
theory RedisQuery
  imports RedisStore Links
begin

text \<open>
  \<open>src/query/redis_query.cpp\<close>: the read side of the store over a Redis connection. The connection is
  the one of \<open>RedisStore\<close>; what \<open>redisCommandArgv\<close> answers is the argument \<open>ask\<close>. The locale
  \<open>query_server\<close> lists what the commands are documented to return for the data of a server; over such
  a server the object is exactly the view \<open>db_view\<close> of that data. Scores travel as texts of doubles:
  \<open>strtod\<close> and the cast to an integer are modelled for the non-negative decimal texts Redis writes.
\<close>

section \<open>Replies\<close>

type_synonym 'w asker = "string list \<Rightarrow> 'w \<Rightarrow> reply option \<times> 'w"

definition command :: "'w env \<Rightarrow> 'w asker \<Rightarrow> string list \<Rightarrow> 'w RS \<Rightarrow> reply option \<times> 'w RS" where
  "command E ask argv s =
     (let (have, s) = conn_get E s in
      if \<not> have then (None, s)
      else
        let (r, w) = ask argv (world s); s = s\<lparr>world := w\<rparr> in
        case r of
          None \<Rightarrow> (None, conn_drop s)
        | Some (RError e) \<Rightarrow> (None, s)
        | Some a \<Rightarrow> (Some a, s))"

definition element_str :: "reply \<Rightarrow> string" where
  "element_str r = (case r of RString t \<Rightarrow> t | _ \<Rightarrow> [])"

text \<open>
  \<open>strtod\<close> on \<open>digits[.digits][e[+-]digits]\<close>: the number as a fraction, rounded to the nearest double,
  ties to even; \<open>double_floor\<close> is the integer part of that double. A text that starts with no
  number gives 0; a negative score cannot come up, since boards are only ever added to.
\<close>

definition half_even :: "nat \<Rightarrow> nat \<Rightarrow> nat" where
  "half_even n d = (let q = n div d; r = n mod d in if d < 2 * r \<or> (2 * r = d \<and> odd q) then q + 1 else q)"

fun bits :: "nat \<Rightarrow> nat" where
  "bits n = (if n = 0 then 0 else Suc (bits (n div 2)))"

declare bits.simps [simp del]

definition double_floor :: "nat \<Rightarrow> nat \<Rightarrow> nat" where
  "double_floor n d =
     (let b = bits (n div d) in
      if b \<le> 53 then half_even (n * 2 ^ (53 - b)) d div 2 ^ (53 - b)
      else half_even n (d * 2 ^ (b - 53)) * 2 ^ (b - 53))"

text \<open>The exponent: its sign and its digits.\<close>

definition read_exponent :: "string \<Rightarrow> bool \<times> nat" where
  "read_exponent t =
     (case t of
        c # r \<Rightarrow>
          if c \<noteq> CHR ''e'' then (False, 0)
          else (case r of
             s # ds \<Rightarrow>
               if s = CHR ''-'' then (True, dec_val (takeWhile is_digit ds))
               else if s = CHR ''+'' then (False, dec_val (takeWhile is_digit ds))
               else (False, dec_val (takeWhile is_digit r))
           | [] \<Rightarrow> (False, 0))
      | [] \<Rightarrow> (False, 0))"

definition strtod :: "string \<Rightarrow> nat \<times> nat" where
  "strtod t =
     (let whole = takeWhile is_digit t; r = dropWhile is_digit t;
          (part, r) = (case r of
             c # r' \<Rightarrow> if c = CHR ''.'' then (takeWhile is_digit r', dropWhile is_digit r') else ([], r)
           | [] \<Rightarrow> ([], r));
          (negative, ex) = read_exponent r;
          mant = dec_val (whole @ part)
      in if negative then (mant, 10 ^ (length part + ex)) else (mant * 10 ^ ex, 10 ^ length part))"

definition element_score :: "reply \<Rightarrow> u64" where
  "element_score r = (case r of RString t \<Rightarrow> (case strtod t of (n, d) \<Rightarrow> of_nat (double_floor n d)) | _ \<Rightarrow> 0)"

text \<open>The elements of an array reply, two by two.\<close>

fun reply_pairs :: "(reply \<Rightarrow> 'v) \<Rightarrow> reply list \<Rightarrow> (string \<times> 'v) list" where
  "reply_pairs f (a # b # rest) = (element_str a, f b) # reply_pairs f rest"
| "reply_pairs f rest = []"

section \<open>The reads\<close>

definition redis_hgetall :: "'w env \<Rightarrow> 'w asker \<Rightarrow> string \<Rightarrow> 'w RS \<Rightarrow> Fields option \<times> 'w RS" where
  "redis_hgetall E ask key s =
     (case command E ask [''HGETALL'', key] s of
        (None, s) \<Rightarrow> (None, s)
      | (Some (RArray es), s) \<Rightarrow> (Some (reply_pairs element_str es), s)
      | (Some r, s) \<Rightarrow> (Some [], s))"

definition redis_hkeys :: "'w env \<Rightarrow> 'w asker \<Rightarrow> string \<Rightarrow> 'w RS \<Rightarrow> string list option \<times> 'w RS" where
  "redis_hkeys E ask key s =
     (case command E ask [''HKEYS'', key] s of
        (None, s) \<Rightarrow> (None, s)
      | (Some (RArray es), s) \<Rightarrow> (Some (map element_str es), s)
      | (Some r, s) \<Rightarrow> (Some [], s))"

definition redis_hmget :: "'w env \<Rightarrow> 'w asker \<Rightarrow> string \<Rightarrow> string list \<Rightarrow> 'w RS \<Rightarrow> string list option \<times> 'w RS" where
  "redis_hmget E ask key names s =
     (if names = [] then (Some [], s)
      else
        case command E ask (''HMGET'' # key # names) s of
          (None, s) \<Rightarrow> (None, s)
        | (Some (RArray es), s) \<Rightarrow> (Some (map element_str es), s)
        | (Some r, s) \<Rightarrow> (Some [], s))"

definition redis_dbsize :: "'w env \<Rightarrow> 'w asker \<Rightarrow> 'w RS \<Rightarrow> u64 option \<times> 'w RS" where
  "redis_dbsize E ask s =
     (case command E ask [''DBSIZE''] s of
        (None, s) \<Rightarrow> (None, s)
      | (Some (RInteger n), s) \<Rightarrow> (Some (of_int n), s)
      | (Some r, s) \<Rightarrow> (Some 0, s))"

definition redis_top ::
    "'w env \<Rightarrow> 'w asker \<Rightarrow> string \<Rightarrow> u64 \<Rightarrow> u64 \<Rightarrow> 'w RS \<Rightarrow> (Ranked \<times> u64) option \<times> 'w RS" where
  "redis_top E ask board off lim s =
     (case command E ask [''ZCARD'', board] s of
        (None, s) \<Rightarrow> (None, s)
      | (Some zc, s) \<Rightarrow>
          let members = (case zc of RInteger n \<Rightarrow> of_int n | _ \<Rightarrow> 0);
              first = dec64 off;
              stop = (if lim = 0 then ''-1'' else dec64 (off + lim - 1)) in
          (case command E ask [''ZREVRANGE'', board, first, stop, ''WITHSCORES''] s of
             (None, s) \<Rightarrow> (None, s)
           | (Some (RArray es), s) \<Rightarrow> (Some (reply_pairs element_score es, members), s)
           | (Some r, s) \<Rightarrow> (Some ([], members), s)))"

text \<open>The object as its user sees it in one state of the connection.\<close>

definition redis_query :: "'w env \<Rightarrow> 'w asker \<Rightarrow> 'w RS \<Rightarrow> IQueryStore" where
  "redis_query E ask s =
     \<lparr>q_hgetall = (\<lambda>k. fst (redis_hgetall E ask k s)), q_hkeys = (\<lambda>k. fst (redis_hkeys E ask k s)),
      q_hmget = (\<lambda>k fs. fst (redis_hmget E ask k fs s)), q_dbsize = fst (redis_dbsize E ask s),
      q_top = (\<lambda>b off lim. fst (redis_top E ask b off lim s))\<rparr>"

section \<open>The data of a server\<close>

text \<open>Hashes, boards with their members from the highest score down, and the number of keys.\<close>

record redis_db =
  hashes :: "string \<Rightarrow> Fields"
  boards :: "string \<Rightarrow> (string \<times> nat) list"
  db_keys :: nat

text \<open>The members of a board between two positions, as the two bounds of the command name them.\<close>

definition board_range :: "(string \<times> nat) list \<Rightarrow> u64 \<Rightarrow> u64 \<Rightarrow> (string \<times> nat) list option" where
  "board_range ms off lim =
     (if 2 ^ 63 \<le> unat off then None
      else if lim = 0 then Some (drop (unat off) ms)
      else if 2 ^ 63 \<le> unat (off + lim - 1) then None
      else Some (drop (unat off) (take (unat (off + lim - 1) + 1) ms)))"

definition db_view :: "redis_db \<Rightarrow> IQueryStore" where
  "db_view db =
     \<lparr>q_hgetall = (\<lambda>k. Some (hashes db k)), q_hkeys = (\<lambda>k. Some (map fst (hashes db k))),
      q_hmget = (\<lambda>k fs. Some (map (\<lambda>f. case map_of (hashes db k) f of None \<Rightarrow> [] | Some v \<Rightarrow> v) fs)),
      q_dbsize = Some (of_nat (db_keys db)),
      q_top = (\<lambda>b off lim. map_option (\<lambda>ms. (map (\<lambda>(m, n). (m, of_nat n)) ms, of_nat (length (boards db b))))
        (board_range (boards db b) off lim))\<rparr>"

text \<open>
  What a reachable server documents for each command; a bound of \<open>ZREVRANGE\<close> that does not fit a
  signed 64-bit integer is an error, and the last bound -1 stands for the last member. Scores below
  \<open>2 ^ 53\<close> are written as their digits.
\<close>

locale query_server =
  fixes E :: "'w env" and ask :: "'w asker" and db :: redis_db and good :: "'w RS \<Rightarrow> bool"
  assumes connected: "good s \<Longrightarrow> conn_get E s = (have, s') \<Longrightarrow> have \<and> good s'"
    and asked: "good s \<Longrightarrow> ask argv (world s) = (r, w) \<Longrightarrow> good (s\<lparr>world := w\<rparr>)"
    and hgetall_reply: "good s \<Longrightarrow>
      fst (ask [''HGETALL'', k] (world s)) = Some (RArray (concat (map (\<lambda>(f, v). [RString f, RString v]) (hashes db k))))"
    and hkeys_reply: "good s \<Longrightarrow>
      fst (ask [''HKEYS'', k] (world s)) = Some (RArray (map (RString \<circ> fst) (hashes db k)))"
    and hmget_reply: "good s \<Longrightarrow> fs \<noteq> [] \<Longrightarrow>
      fst (ask (''HMGET'' # k # fs) (world s)) =
        Some (RArray (map (\<lambda>f. case map_of (hashes db k) f of None \<Rightarrow> RNil | Some v \<Rightarrow> RString v) fs))"
    and dbsize_reply: "good s \<Longrightarrow> fst (ask [''DBSIZE''] (world s)) = Some (RInteger (int (db_keys db)))"
    and zcard_reply: "good s \<Longrightarrow> fst (ask [''ZCARD'', b] (world s)) = Some (RInteger (int (length (boards db b))))"
    and zrevrange_last: "good s \<Longrightarrow> i < 2 ^ 63 \<Longrightarrow>
      fst (ask [''ZREVRANGE'', b, dec_of i, ''-1'', ''WITHSCORES''] (world s)) =
        Some (RArray (concat (map (\<lambda>(m, n). [RString m, RString (dec_of n)]) (drop i (boards db b)))))"
    and zrevrange_range: "good s \<Longrightarrow> i < 2 ^ 63 \<Longrightarrow> j < 2 ^ 63 \<Longrightarrow>
      fst (ask [''ZREVRANGE'', b, dec_of i, dec_of j, ''WITHSCORES''] (world s)) =
        Some (RArray (concat (map (\<lambda>(m, n). [RString m, RString (dec_of n)]) (drop i (take (j + 1) (boards db b))))))"
    and zrevrange_bounds: "good s \<Longrightarrow> 2 ^ 63 \<le> i \<or> 2 ^ 63 \<le> j \<Longrightarrow>
      \<exists>e. fst (ask [''ZREVRANGE'', b, dec_of i, dec_of j, ''WITHSCORES''] (world s)) = Some (RError e)"
    and zrevrange_start: "good s \<Longrightarrow> 2 ^ 63 \<le> i \<Longrightarrow>
      \<exists>e. fst (ask [''ZREVRANGE'', b, dec_of i, ''-1'', ''WITHSCORES''] (world s)) = Some (RError e)"
    and scores_exact: "(m, n) \<in> set (boards db b) \<Longrightarrow> n < 2 ^ 53"

section \<open>Scores\<close>

lemma bits_0 [simp]: "bits 0 = 0"
  by (simp add: bits.simps)

lemma bits_bounds: "n < 2 ^ bits n \<and> (n \<noteq> 0 \<longrightarrow> 2 ^ (bits n - 1) \<le> n)"
proof (induction n rule: bits.induct)
  case (1 n)
  show ?case
  proof (cases "n = 0")
    case False
    note IH = 1 [OF False]
    have b: "bits n = Suc (bits (n div 2))" using False by (simp add: bits.simps [of n])
    have "n < 2 * 2 ^ bits (n div 2)" using IH by linarith
    moreover have "2 ^ bits (n div 2) \<le> n"
    proof (cases "n div 2 = 0")
      case True
      then show ?thesis using False by (simp add: bits.simps [of 0])
    next
      case nz: False
      then have "bits (n div 2) \<noteq> 0" by (simp add: bits.simps [of "n div 2"])
      then have "(2 :: nat) ^ bits (n div 2) = 2 * 2 ^ (bits (n div 2) - 1)" by (metis Suc_pred' bot_nat_0.not_eq_extremum power_Suc)
      then show ?thesis using IH nz by linarith
    qed
    ultimately show ?thesis using b by simp
  qed (simp add: bits.simps)
qed

lemma half_even_exact: "0 < d \<Longrightarrow> half_even (n * d) d = n"
  by (simp add: half_even_def)

lemma half_even_near: "0 < d \<Longrightarrow> 2 * (half_even n d * d) \<le> 2 * n + d \<and> 2 * n \<le> 2 * (half_even n d * d) + d"
proof -
  assume d: "0 < d"
  define q r where "q = n div d" and "r = n mod d"
  have n: "n = q * d + r" and m: "r < d" using d by (simp_all add: q_def r_def)
  have "half_even n d = (if d < 2 * r \<or> (2 * r = d \<and> odd q) then q + 1 else q)"
    by (simp add: half_even_def q_def r_def Let_def)
  then show ?thesis using n m by (simp add: algebra_simps)
qed

lemma double_floor_exact: "n < 2 ^ 53 \<Longrightarrow> double_floor n 1 = n"
proof -
  assume a: "n < 2 ^ 53"
  have "bits n \<le> 53"
  proof (rule ccontr)
    assume "\<not> bits n \<le> 53"
    then have "n \<noteq> 0" by (cases "n = 0") simp_all
    moreover have "(2 :: nat) ^ 53 \<le> 2 ^ (bits n - 1)"
      using \<open>\<not> bits n \<le> 53\<close> by (intro power_increasing) simp_all
    ultimately show False using bits_bounds [of n] a by linarith
  qed
  then show ?thesis using half_even_exact [of 1 "n * 2 ^ (53 - bits n)"] by (simp add: double_floor_def Let_def)
qed

text \<open>The relative error of a larger number is at most \<open>1 / 2 ^ 53\<close>.\<close>

lemma double_floor_near: "double_floor n 1 * 2 ^ 53 \<le> n * (2 ^ 53 + 1) \<and> n * (2 ^ 53 - 1) \<le> double_floor n 1 * 2 ^ 53"
proof (cases "bits n \<le> 53")
  case True
  then have "double_floor n 1 = n" using half_even_exact [of 1 "n * 2 ^ (53 - bits n)"] by (simp add: double_floor_def Let_def)
  then show ?thesis by simp
next
  case False
  let ?d = "2 ^ (bits n - 53) :: nat"
  have f: "double_floor n 1 = half_even n ?d * ?d" using False by (simp add: double_floor_def Let_def)
  have "n \<noteq> 0" using False by (cases "n = 0") simp_all
  then have "2 ^ (bits n - 1) \<le> n" using bits_bounds by blast
  moreover have "bits n - 1 = (bits n - 53) + 52" using False by simp
  then have "(2 :: nat) ^ (bits n - 1) = ?d * 2 ^ 52" by (simp only: power_add)
  ultimately have "?d * 2 ^ 52 \<le> n" by simp
  then show ?thesis using half_even_near [of ?d n] unfolding f by (simp add: algebra_simps)
qed

lemma bits_power: "bits (2 ^ k) = Suc k"
  by (induction k) (simp_all add: bits.simps [of "Suc 0"] bits.simps [of "2 * n" for n])

text \<open>At the border between the numbers a double holds exactly and the others.\<close>

lemma double_floor_border: "double_floor (2 ^ 53) 1 = 2 ^ 53" "double_floor (2 ^ 53 + 1) 1 = 2 ^ 53"
proof -
  have b: "bits (2 ^ 53) = 54" "bits (2 ^ 53 + 1) = 54"
    using bits_power [of 53] bits_power [of 52] bits.simps [of "2 ^ 53 + 1"] by simp_all
  show "double_floor (2 ^ 53) 1 = 2 ^ 53" "double_floor (2 ^ 53 + 1) 1 = 2 ^ 53"
    using b by (simp_all add: double_floor_def half_even_def)
qed

lemma strtod_digits: "strtod (dec_of n) = (n, 1)"
proof -
  have "list_all is_digit (dec_of n)" by simp
  then have "takeWhile is_digit (dec_of n) = dec_of n" "dropWhile is_digit (dec_of n) = []"
    by (auto simp: list_all_iff)
  then show ?thesis by (simp add: strtod_def read_exponent_def)
qed

lemma element_score_exact: "n < 2 ^ 53 \<Longrightarrow> element_score (RString (dec_of n)) = of_nat n"
  using double_floor_exact [of n] by (simp add: element_score_def strtod_digits del: One_nat_def)

section \<open>The view\<close>

lemma reply_pairs_concat:
  "reply_pairs f (concat (map (\<lambda>(a, b). [RString a, g b]) xs)) = map (\<lambda>(a, b). (a, f (g b))) xs"
  by (induction xs) (auto simp: element_str_def)

context query_server
begin

text \<open>A command whose answer is not an error is answered, and the connection stays good.\<close>

lemma command_answer:
  assumes "good s" "\<And>s. good s \<Longrightarrow> fst (ask argv (world s)) = Some r" "\<forall>e. r \<noteq> RError e"
  obtains s' where "command E ask argv s = (Some r, s')" "good s'"
proof -
  obtain have_ctx s1 where c: "conn_get E s = (have_ctx, s1)" by (cases "conn_get E s")
  note g = connected [OF assms(1) c]
  obtain a w where a: "ask argv (world s1) = (a, w)" by (cases "ask argv (world s1)")
  have "a = Some r" using assms(2) [of s1] g a by simp
  moreover have "good (s1\<lparr>world := w\<rparr>)" using asked [OF _ a] g by blast
  ultimately show thesis using that [of "s1\<lparr>world := w\<rparr>"] c a g assms(3)
    by (cases r) (simp_all add: command_def)
qed

lemma command_error:
  assumes "good s" "\<And>s. good s \<Longrightarrow> \<exists>e. fst (ask argv (world s)) = Some (RError e)"
  obtains s' where "command E ask argv s = (None, s')" "good s'"
proof -
  obtain have_ctx s1 where c: "conn_get E s = (have_ctx, s1)" by (cases "conn_get E s")
  note g = connected [OF assms(1) c]
  obtain a w where a: "ask argv (world s1) = (a, w)" by (cases "ask argv (world s1)")
  obtain e where "a = Some (RError e)" using assms(2) [of s1] g a by auto
  moreover have "good (s1\<lparr>world := w\<rparr>)" using asked [OF _ a] g by blast
  ultimately show thesis using that [of "s1\<lparr>world := w\<rparr>"] c a g by (simp add: command_def)
qed

lemma hgetall_view: "good s \<Longrightarrow> fst (redis_hgetall E ask k s) = Some (hashes db k) \<and> good (snd (redis_hgetall E ask k s))"
  by (erule command_answer [OF _ hgetall_reply [where k = k]])
    (simp_all add: redis_hgetall_def reply_pairs_concat element_str_def)

lemma hkeys_view: "good s \<Longrightarrow> fst (redis_hkeys E ask k s) = Some (map fst (hashes db k)) \<and> good (snd (redis_hkeys E ask k s))"
  by (erule command_answer [OF _ hkeys_reply [where k = k]]) (simp_all add: redis_hkeys_def element_str_def)

lemma hmget_view:
  "good s \<Longrightarrow> fst (redis_hmget E ask k fs s) =
     Some (map (\<lambda>f. case map_of (hashes db k) f of None \<Rightarrow> [] | Some v \<Rightarrow> v) fs) \<and> good (snd (redis_hmget E ask k fs s))"
proof (cases "fs = []")
  case False
  assume "good s"
  then show ?thesis
    by (rule command_answer [OF _ hmget_reply [where k = k, OF _ False]])
      (simp_all add: redis_hmget_def False element_str_def split: option.split)
qed (simp add: redis_hmget_def)

lemma dbsize_view: "good s \<Longrightarrow> fst (redis_dbsize E ask s) = Some (of_nat (db_keys db)) \<and> good (snd (redis_dbsize E ask s))"
  by (erule command_answer [OF _ dbsize_reply]) (simp_all add: redis_dbsize_def)

lemma scores_pairs:
  "set ms \<subseteq> set (boards db b) \<Longrightarrow>
     reply_pairs element_score (concat (map (\<lambda>(m, n). [RString m, RString (dec_of n)]) ms)) = map (\<lambda>(m, n). (m, of_nat n)) ms"
  using scores_exact element_score_exact by (auto simp: reply_pairs_concat)

lemma top_view:
  assumes "good s"
  shows "fst (redis_top E ask b off lim s) =
      map_option (\<lambda>ms. (map (\<lambda>(m, n). (m, of_nat n)) ms, of_nat (length (boards db b)))) (board_range (boards db b) off lim)
    \<and> good (snd (redis_top E ask b off lim s))"
proof -
  let ?stop = "if lim = 0 then ''-1'' else dec64 (off + lim - 1)"
  obtain s1 where c: "command E ask [''ZCARD'', b] s = (Some (RInteger (int (length (boards db b)))), s1)" "good s1"
    by (rule command_answer [OF assms zcard_reply]) simp_all
  show ?thesis
  proof (cases "board_range (boards db b) off lim")
    case None
    then have b: "2 ^ 63 \<le> unat off \<or> lim \<noteq> 0 \<and> 2 ^ 63 \<le> unat (off + lim - 1)"
      by (auto simp: board_range_def split: if_splits)
    have "\<exists>e. fst (ask [''ZREVRANGE'', b, dec64 off, ?stop, ''WITHSCORES''] (world s')) = Some (RError e)"
      if "good s'" for s'
      using b zrevrange_start [OF that, of "unat off" b] zrevrange_bounds [OF that, of "unat off" "unat (off + lim - 1)" b]
      by (simp add: dec64_def) blast
    then obtain s2 where "command E ask [''ZREVRANGE'', b, dec64 off, ?stop, ''WITHSCORES''] s1 = (None, s2)" "good s2"
      using command_error [OF c(2)] by blast
    then show ?thesis using c None by (simp add: redis_top_def Let_def)
  next
    case (Some ms)
    then have b: "unat off < 2 ^ 63" "lim = 0 \<or> unat (off + lim - 1) < 2 ^ 63"
      and ms: "ms = (if lim = 0 then drop (unat off) (boards db b)
        else drop (unat off) (take (unat (off + lim - 1) + 1) (boards db b)))"
      by (auto simp: board_range_def not_le split: if_splits)
    let ?es = "concat (map (\<lambda>(m, n). [RString m, RString (dec_of n)]) ms)"
    have "fst (ask [''ZREVRANGE'', b, dec64 off, ?stop, ''WITHSCORES''] (world s')) = Some (RArray ?es)"
      if "good s'" for s'
      using b zrevrange_last [OF that, of "unat off" b] zrevrange_range [OF that, of "unat off" "unat (off + lim - 1)" b]
      by (auto simp: dec64_def ms)
    then obtain s2 where s2: "command E ask [''ZREVRANGE'', b, dec64 off, ?stop, ''WITHSCORES''] s1 = (Some (RArray ?es), s2)"
        "good s2"
      using command_answer [OF c(2), where r = "RArray ?es"] by blast
    have "set ms \<subseteq> set (boards db b)" using ms by (auto dest: in_set_dropD in_set_takeD split: if_splits)
    then show ?thesis using c s2 Some scores_pairs by (simp add: redis_top_def Let_def)
  qed
qed

lemma query_view: "good s \<Longrightarrow> redis_query E ask s = db_view db"
  using hgetall_view hkeys_view hmget_view dbsize_view top_view
  by (simp add: redis_query_def db_view_def)

end

section \<open>A server that answers as documented\<close>

definition serve :: "redis_db \<Rightarrow> string list \<Rightarrow> reply" where
  "serve db argv =
     (case argv of
        [] \<Rightarrow> RError ''ERR''
      | c # args \<Rightarrow>
          if c = ''DBSIZE'' then RInteger (int (db_keys db))
          else (case args of
            [] \<Rightarrow> RError ''ERR''
          | k # fs \<Rightarrow>
              if c = ''HGETALL'' then RArray (concat (map (\<lambda>(f, v). [RString f, RString v]) (hashes db k)))
              else if c = ''HKEYS'' then RArray (map (RString \<circ> fst) (hashes db k))
              else if c = ''HMGET'' then
                RArray (map (\<lambda>f. case map_of (hashes db k) f of None \<Rightarrow> RNil | Some v \<Rightarrow> RString v) fs)
              else if c = ''ZCARD'' then RInteger (int (length (boards db k)))
              else (case fs of
                [i, j, withscores] \<Rightarrow>
                  if 2 ^ 63 \<le> dec_val i \<or> j \<noteq> ''-1'' \<and> 2 ^ 63 \<le> dec_val j
                  then RError ''ERR value is not an integer or out of range''
                  else RArray (concat (map (\<lambda>(m, n). [RString m, RString (dec_of n)])
                    (drop (dec_val i) (if j = ''-1'' then boards db k else take (dec_val j + 1) (boards db k)))))
              | _ \<Rightarrow> RError ''ERR'')))"

definition perfect_ask :: "redis_db \<Rightarrow> unit asker" where
  "perfect_ask db = (\<lambda>argv w. (Some (serve db argv), w))"

lemma dec_of_not_minus: "dec_of n \<noteq> ''-1''"
proof
  assume "dec_of n = ''-1''"
  then have "CHR ''-'' \<in> set (dec_of n)" by simp
  then have "is_digit (CHR ''-'')" by (rule dec_of_digits)
  then show False by (simp add: is_digit_def)
qed

definition toy_db :: redis_db where
  "toy_db = \<lparr>hashes = (\<lambda>k. if k = ''sub:7'' then [(''voice_out'', ''60'')] else []),
     boards = (\<lambda>b. if b = kVoiceBoard then [(''7'', 60), (''9'', 12)] else []), db_keys = 2\<rparr>"

text \<open>What is needed of a server's data: scores that doubles hold exactly.\<close>

definition small_scores :: "redis_db \<Rightarrow> bool" where
  "small_scores db \<longleftrightarrow> (\<forall>b. \<forall>(m, n) \<in> set (boards db b). n < 2 ^ 53)"

lemma perfect_server:
  assumes "small_scores db"
  shows "query_server perfect_env (perfect_ask db) db (\<lambda>s. next_try s = 0)"
proof unfold_locales
  fix s :: "unit RS" and have_ctx s'
  show "next_try s = 0 \<Longrightarrow> conn_get perfect_env s = (have_ctx, s') \<Longrightarrow> have_ctx \<and> next_try s' = 0"
    by (auto simp: conn_get_def perfect_env_def Let_def split: if_splits option.splits)
qed (use assms in \<open>auto simp: perfect_ask_def serve_def small_scores_def dec_of_not_minus split: option.splits\<close>)

interpretation toy: query_server perfect_env "perfect_ask toy_db" toy_db "\<lambda>s. next_try s = 0"
  by (rule perfect_server) (simp add: small_scores_def toy_db_def)

section \<open>Properties\<close>

text \<open>
  C17: Over a server that can be reached, answers as documented and keeps scores below \<open>2 ^ 53\<close>, the object is the view of the
  server's data. A read of a hash, of its field names or of the number of keys returns what the data holds,
  in the order the server lists it, and \<open>hmget\<close> a missing field as the empty text. A read of a board returns
  the members from the offset on, at most the limit of them and all with 0, with the size of the board; except that
  it reports a store that could not be reached when the offset, or the last position asked for, is \<open>2 ^ 63\<close> or
  more, which the server refuses (the interface says that this means the store could not be
  reached); that last position, offset plus limit less 1, is taken modulo \<open>2 ^ 64\<close>, as the code adds.
  Every read leaves the connection fit for the next one. Larger scores are excluded here: they come as
  doubles, and are read back rounded (\<open>score_accuracy\<close>).
\<close>

theorem redis_query_refines:
  assumes "query_server E ask db good" "good s"
  shows "redis_query E ask s = db_view db
    \<and> good (snd (redis_hgetall E ask k s)) \<and> good (snd (redis_hkeys E ask k s))
    \<and> good (snd (redis_hmget E ask k fs s)) \<and> good (snd (redis_dbsize E ask s))
    \<and> good (snd (redis_top E ask b off lim s))"
proof -
  note v = query_server.hgetall_view [OF assms] query_server.hkeys_view [OF assms] query_server.hmget_view [OF assms]
    query_server.dbsize_view [OF assms] query_server.top_view [OF assms] query_server.query_view [OF assms]
  show ?thesis using v by blast
qed

theorem redis_query_refines_witness:
  "redis_query perfect_env (perfect_ask toy_db) (new_thread [] ()) = db_view toy_db
    \<and> next_try (snd (redis_top perfect_env (perfect_ask toy_db) kVoiceBoard 0 1 (new_thread [] ()))) = 0"
  using redis_query_refines [OF toy.query_server_axioms, of "new_thread [] ()"] by (simp add: new_thread_def)

text \<open>
  A page of a board is the page of its listing, whatever the offset and limit, as long as the last
  position asked for fits a signed 64-bit integer, with the number of members beside it; past that
  the server refuses and the answer is that the store is unavailable, although it is not (for a
  subscriber's peers the same offset gives an empty page).
\<close>

theorem board_pages:
  "if 2 ^ 63 \<le> unat off then q_top (db_view db) b off lim = None
   else if unat off + unat lim \<le> 2 ^ 63 then
     q_top (db_view db) b off lim =
       Some (map (\<lambda>(m, n). (m, of_nat n)) (page (boards db b) \<lparr>p_weights = w, p_sort = srt, p_offset = off, p_limit = lim\<rparr>),
         of_nat (length (boards db b)))
   else True"
proof (cases "unat off < 2 ^ 63 \<and> unat off + unat lim \<le> 2 ^ 63 \<and> lim \<noteq> 0")
  case True
  then have l: "0 < unat lim" by (simp add: unat_gt_0)
  have "unat (off + lim) = unat off + unat lim" using True by (intro unat_add_lem [THEN iffD1]) simp
  moreover from this have "1 \<le> off + lim" using l by (simp add: word_le_nat_alt)
  ultimately have "unat (off + lim - 1) = unat off + unat lim - 1" by (simp add: unat_sub)
  moreover from this have "\<not> 2 ^ 63 \<le> unat (off + lim - 1)" using True l by linarith
  ultimately show ?thesis using True l by (simp add: db_view_def board_range_def page_slice drop_take)
next
  case False
  then show ?thesis by (auto simp: db_view_def board_range_def page_slice)
qed

text \<open>
  A score is reported as it stands while it is below \<open>2 ^ 53\<close>; a larger one is reported as the double
  nearest to it, off by at most one part in \<open>2 ^ 53\<close> of it, and the first number that is
  reported wrong is \<open>2 ^ 53 + 1\<close>.
\<close>

theorem score_accuracy:
  "element_score (RString (dec_of n)) = of_nat (double_floor n 1)
   \<and> (if n \<le> 2 ^ 53 then double_floor n 1 = n else True)
   \<and> double_floor n 1 * 2 ^ 53 \<le> n * (2 ^ 53 + 1) \<and> n * (2 ^ 53 - 1) \<le> double_floor n 1 * 2 ^ 53
   \<and> double_floor (2 ^ 53 + 1) 1 = 2 ^ 53"
proof (intro conjI)
  show "element_score (RString (dec_of n)) = of_nat (double_floor n 1)"
    by (simp add: element_score_def strtod_digits del: One_nat_def)
  show "if n \<le> 2 ^ 53 then double_floor n 1 = n else True"
    using double_floor_exact [of n] double_floor_border(1) by (cases "n = 2 ^ 53") (simp_all del: One_nat_def)
  show "double_floor (2 ^ 53 + 1) 1 = 2 ^ 53" by (rule double_floor_border)
qed (use double_floor_near [of n] in simp_all)

end
