(* ===== verification/ReadBack.thy ===== *)
theory ReadBack
  imports History Gateway RedisQuery
begin

text \<open>
  The two programs together: the processor writes counters, the gateway reads them. A store that
  holds what a history of batches wrote is any \<open>IQueryStore\<close> whose hashes are the ones the commands
  of that history leave behind (\<open>stored\<close>; \<open>hash_from\<close> builds one). The lemmas show that what the
  gateway reports of a subscriber is the fold of all records ever consumed, that the links it
  reads are symmetric, and so that its path search finds shortest paths over them.
\<close>

section \<open>The data a history leaves behind\<close>

fun hash_fields :: "cmd list \<Rightarrow> string \<Rightarrow> string list" where
  "hash_fields [] k = []"
| "hash_fields (HINCRBY k' f v # cs) k = (if k' = k then f # hash_fields cs k else hash_fields cs k)"
| "hash_fields (c # cs) k = hash_fields cs k"

definition touched :: "cmd list \<Rightarrow> string \<Rightarrow> string \<Rightarrow> bool" where
  "touched cs k f \<longleftrightarrow> (\<exists>v. HINCRBY k f v \<in> set cs)"

definition hash_of :: "cmd list \<Rightarrow> string \<Rightarrow> Fields \<Rightarrow> bool" where
  "hash_of cs k fs \<longleftrightarrow> distinct (map fst fs)
     \<and> (\<forall>f. map_of fs f = (if touched cs k f then Some (dec_of (hsum k f cs)) else None))"

text \<open>The counters of Redis are signed 64-bit integers; past that \<open>HINCRBY\<close> fails.\<close>

definition in_range :: "cmd list \<Rightarrow> bool" where
  "in_range cs \<longleftrightarrow> (\<forall>k f. hsum k f cs < 2 ^ 63)"

definition stored :: "cmd list \<Rightarrow> IQueryStore \<Rightarrow> bool" where
  "stored cs q \<longleftrightarrow> in_range cs \<and> (\<forall>k. k \<noteq> kProgressKey \<longrightarrow>
     (\<exists>fs. q_hgetall q k = Some fs \<and> q_hkeys q k = Some (map fst fs) \<and> hash_of cs k fs))"

lemma in_range_64: "in_range cs \<Longrightarrow> hsum k f cs < 2 ^ 64"
proof -
  assume "in_range cs"
  then have "hsum k f cs < 2 ^ 63" by (simp add: in_range_def)
  then show ?thesis by simp
qed

lemma unat_in_range: "in_range cs \<Longrightarrow> of_nat (hsum k f cs) = x \<Longrightarrow> hsum k f cs = unat x" for x :: u64
  using in_range_64 [of cs k f] by (auto simp: unat_of_nat take_bit_nat_eq_self)

text \<open>One such store: the fields in the order of their last write.\<close>

definition hash_from :: "cmd list \<Rightarrow> string \<Rightarrow> Fields" where
  "hash_from cs k = map (\<lambda>f. (f, dec_of (hsum k f cs))) (remdups (hash_fields cs k))"

lemma hash_fields_touched: "f \<in> set (hash_fields cs k) \<longleftrightarrow> touched cs k f"
  by (induction cs k rule: hash_fields.induct) (auto simp: touched_def)

lemma hash_from_ok: "hash_of cs k (hash_from cs k)"
  by (auto simp: hash_of_def hash_from_def comp_def map_of_map_keys hash_fields_touched [symmetric] map_of_eq_None_iff
      intro!: map_of_is_SomeI)

lemma stored_from: "in_range cs \<Longrightarrow> stored cs (db_view \<lparr>hashes = hash_from cs, boards = bd, db_keys = n\<rparr>)"
  by (simp add: stored_def db_view_def hash_from_ok)

section \<open>Sums over a history\<close>

text \<open>Commands that add nothing are not sent, so a field is there exactly when its sum is not 0.\<close>

definition no_zero :: "cmd list \<Rightarrow> bool" where
  "no_zero cs \<longleftrightarrow> list_all (\<lambda>c. case c of HINCRBY k f v \<Rightarrow> v \<noteq> 0 | _ \<Rightarrow> True) cs"

lemma touched_hsum: "no_zero cs \<Longrightarrow> touched cs k f \<longleftrightarrow> hsum k f cs \<noteq> 0"
proof (induction cs)
  case (Cons c cs)
  then have "no_zero cs" by (auto simp: no_zero_def)
  then show ?case using Cons by (cases c) (auto simp: touched_def no_zero_def unat_eq_0)
qed (simp add: touched_def)

lemma no_zero_incr: "no_zero (incr_cmds xs)" "no_zero (rank_cmds xs)" "no_zero (mark_cmds src b)"
  by (auto simp: no_zero_def incr_cmds_def rank_cmds_def mark_cmds_def list_all_iff)

lemma no_zero_append: "no_zero (a @ b) \<longleftrightarrow> no_zero a \<and> no_zero b"
  by (simp add: no_zero_def)

lemma no_zero_history: "no_zero (history_cmds h)"
proof (induction h rule: rev_induct)
  case (snoc e h)
  obtain src b where "e = (src, b)" by (cases e)
  then show ?case using snoc by (simp add: no_zero_append consume_cmds_def no_zero_incr)
qed (simp add: no_zero_def)

lemma history_sub:
  assumes "(f, g) \<in> set sub_fields" "in_range (history_cmds h)"
  shows "hsum (sub_key m) f (history_cmds h) = unat (g (sub_at (fold_batch (all_records h)) m))"
  by (rule unat_in_range [OF assms(2)], rule history_hsum)
    (simp_all add: consume_hsum(1) [OF assms(1)] fold_additive sub_field_add(1) [OF assms(1)]
      field_zero(1) [OF assms(1)] at_fold)

lemma history_op:
  assumes "(f, g) \<in> set op_fields" "in_range (history_cmds h)"
  shows "hsum (op_key j) f (history_cmds h) = unat (g (op_at (fold_batch (all_records h)) j))"
  by (rule unat_in_range [OF assms(2)], rule history_hsum)
    (simp_all add: consume_hsum(2) [OF assms(1)] fold_additive sub_field_add(3) [OF assms(1)]
      field_zero(2) [OF assms(1)] at_fold)

text \<open>The totals by the name of their field.\<close>

definition total_of :: "CdrRecord list \<Rightarrow> string \<Rightarrow> u64" where
  "total_of rs f = the (map_of (totals_fields (totals_add_batch rs zero_totals)) f)"

lemma total_of_field: "f \<in> set kTotalFields \<Longrightarrow> (f, total_of rs f) \<in> set (totals_fields (totals_add_batch rs zero_totals))"
  by (auto simp: total_of_def kTotalFields_def totals_fields_names total_names name_defs)

lemma total_of_append: "f \<in> set kTotalFields \<Longrightarrow> total_of (a @ b) f = total_of a f + total_of b f"
  by (auto simp: total_of_def kTotalFields_def totals_fields_names total_names name_defs totals_batch_fields)

lemma total_of_empty: "f \<in> set kTotalFields \<Longrightarrow> total_of [] f = 0"
  by (auto simp: total_of_def kTotalFields_def totals_fields_names total_names name_defs totals_batch_fields)

lemma history_total:
  assumes "f \<in> set kTotalFields" "in_range (history_cmds h)"
  shows "hsum kTotalKey f (history_cmds h) = unat (total_of (all_records h) f)"
proof (rule unat_in_range [OF assms(2)], rule history_hsum)
  show "hsum kTotalKey f (consume_cmds src b) = unat (total_of b f)" for src b
    by (rule consume_hsum(4) [OF total_of_field [OF assms(1)]])
  show "total_of (a @ b) f = total_of a f + total_of b f" for a b by (rule total_of_append [OF assms(1)])
  show "total_of [] f = 0" by (rule total_of_empty [OF assms(1)])
qed

lemma history_link:
  assumes "(f, i) \<in> set link_fields" "in_range (history_cmds h)"
  shows "hsum (link_key (owner l)) (dec64 (peer l) @ f) (history_cmds h) = unat (i (link_at (fold_batch (all_records h)) l))"
  by (rule unat_in_range [OF assms(2)], rule history_hsum)
    (simp_all add: consume_hsum(3) [OF assms(1)] fold_additive sub_field_add(2) [OF assms(1)]
      field_zero(3) [OF assms(1)] at_fold)

section \<open>Which fields there are\<close>

lemma touched_incr: "touched (incr_cmds xs) k f \<Longrightarrow> (k, f) \<in> (\<lambda>(k, f, v). (k, f)) ` set xs"
  by (force simp: touched_def incr_cmds_def)

lemma touched_append [simp]: "touched (a @ b) k f \<longleftrightarrow> touched a k f \<or> touched b k f"
  by (auto simp: touched_def)

lemma touched_none [simp]: "\<not> touched (rank_cmds xs) k f" "\<not> touched (mark_cmds src b) k f" "\<not> touched [] k f"
  by (auto simp: touched_def rank_cmds_def mark_cmds_def)

text \<open>Every field written is one of a subscriber, an operator, a link or the totals.\<close>

lemma touched_consume:
  assumes "touched (consume_cmds src b) k f"
  obtains (sub) m g where "k = sub_key m" "(f, g) \<in> set sub_fields"
    | (op) j g where "k = op_key j" "(f, g) \<in> set op_fields"
    | (link) l s i where "k = link_key (owner (l :: LinkKey))" "f = dec64 (peer l) @ s" "(s, i) \<in> set link_fields"
    | (totals) "k = kTotalKey" "f \<in> set kTotalFields"
proof -
  let ?d = "fold_batch b"
  have "(k, f) \<in> (\<lambda>(k, f, v). (k, f)) ` (set (totals_adds (totals_add_batch b zero_totals)) \<union> set (delta_adds ?d))"
    using assms by (auto simp: consume_cmds_def dest: touched_incr)
  then consider v where "(k, f, v) \<in> set (totals_adds (totals_add_batch b zero_totals))"
    | m x v where "(k, f, v) \<in> set (sub_adds (m, x))" | j x v where "(k, f, v) \<in> set (op_adds (j, x))"
    | l x v where "(k, f, v) \<in> set (link_adds (l, x))"
    unfolding delta_adds_def by fastforce
  then show thesis
  proof cases
    case 1
    then show thesis using totals by (auto simp: totals_adds_def kTotalFields_def totals_fields_def)
  next
    case 2
    then show thesis using sub by (auto simp: adds_fields)
  next
    case 3
    then show thesis using op by (auto simp: adds_fields)
  next
    case 4
    then show thesis using link [of l] by (auto simp: adds_fields)
  qed
qed

lemma touched_history: "touched (history_cmds h) k f \<Longrightarrow> \<exists>src b. touched (consume_cmds src b) k f"
  by (induction h rule: rev_induct) (auto simp: history_cmds_def)

lemma touched_sub: "touched (history_cmds h) (sub_key m) f \<Longrightarrow> \<exists>g. (f, g) \<in> set sub_fields"
  by (drule touched_history, elim exE, erule touched_consume) auto

lemma touched_op: "touched (history_cmds h) (op_key j) f \<Longrightarrow> \<exists>g. (f, g) \<in> set op_fields"
  by (drule touched_history, elim exE, erule touched_consume) auto

lemma key_starts: "kLinkPrefix @ x \<noteq> sub_key m" "kLinkPrefix @ x \<noteq> op_key j" "kLinkPrefix @ x \<noteq> kTotalKey"
  "(kLinkPrefix @ x = link_key a) = (x = dec64 a)"
  by (simp_all add: sub_key_def op_key_def link_key_def name_defs)

lemma touched_link:
  "touched (history_cmds h) (kLinkPrefix @ x) f \<Longrightarrow>
     \<exists>(l :: LinkKey) s i. x = dec64 (owner l) \<and> f = dec64 (peer l) @ s \<and> (s, i) \<in> set link_fields"
  by (drule touched_history, elim exE, erule touched_consume) (auto simp: key_starts)

section \<open>What is read back\<close>

lemma stored_num_hash:
  assumes "hash_of cs k fs" "in_range cs" "no_zero cs"
  shows "unat (stored_num fs f) = hsum k f cs"
proof (cases "touched cs k f")
  case True
  then have "map_of fs f = Some (dec_of (hsum k f cs))" using assms(1) by (simp add: hash_of_def)
  moreover have "dec_of (hsum k f cs) = dec64 (of_nat (hsum k f cs))"
    using in_range_64 [OF assms(2), of k f] by (simp add: dec64_def unat_of_nat take_bit_nat_eq_self)
  ultimately show ?thesis using in_range_64 [OF assms(2), of k f]
    by (simp add: stored_num_def unat_of_nat take_bit_nat_eq_self)
next
  case False
  then show ?thesis using assms(1) touched_hsum [OF assms(3)] by (simp add: stored_num_def hash_of_def)
qed

lemma hash_empty: "hash_of cs k fs \<Longrightarrow> fs = [] \<longleftrightarrow> (\<forall>f. \<not> touched cs k f)"
proof
  assume h: "hash_of cs k fs" and n: "\<forall>f. \<not> touched cs k f"
  show "fs = []"
  proof (cases fs)
    case (Cons p ps)
    then have "map_of fs (fst p) \<noteq> None" by (cases p) simp
    then show ?thesis using h n by (auto simp: hash_of_def)
  qed simp
qed (auto simp: hash_of_def split: if_splits)

lemma sub_key_dec: "kSubPrefix @ dec64 m = sub_key m" "sub_key m \<noteq> kProgressKey" "kLinkPrefix @ x \<noteq> kProgressKey"
  by (simp_all add: sub_key_def name_defs)

lemma zero_fields: "(\<forall>(f, g) \<in> set sub_fields. g x = 0) \<longleftrightarrow> x = 0" for x :: SubDelta
  by (cases x) (auto simp: sub_fields_def zero_SubDelta_ext_def)

lemma zero_link_fields: "(\<forall>(f, i) \<in> set link_fields. i x = 0) \<longleftrightarrow> x = 0" for x :: LinkDelta
  by (cases x) (auto simp: link_fields_def zero_LinkDelta_ext_def)

lemma zero_op_fields: "(\<forall>(f, g) \<in> set op_fields. g x = 0) \<longleftrightarrow> x = 0" for x :: OpDelta
  by (cases x) (auto simp: op_fields_def zero_OpDelta_ext_def)

text \<open>A key all of whose fields are known, as the gateway gets it.\<close>

lemma stored_fields:
  assumes "stored (history_cmds h) q" "key \<noteq> kProgressKey"
    and sums: "\<And>f g. (f, g) \<in> set fl \<Longrightarrow> hsum key f (history_cmds h) = unat (g s)"
    and only: "\<And>f. touched (history_cmds h) key f \<Longrightarrow> \<exists>g. (f, g) \<in> set fl"
  obtains fs where "q_hgetall q key = Some fs" "fs = [] \<longleftrightarrow> (\<forall>(f, g) \<in> set fl. g s = (0 :: u64))"
    "\<And>f g. (f, g) \<in> set fl \<Longrightarrow> stored_num fs f = g s"
proof -
  let ?cs = "history_cmds h"
  have r: "in_range ?cs" using assms(1) by (simp add: stored_def)
  obtain fs where fs: "q_hgetall q key = Some fs" "hash_of ?cs key fs" using assms(1,2) unfolding stored_def by blast
  have n: "stored_num fs f = g s" if "(f, g) \<in> set fl" for f g
    using stored_num_hash [OF fs(2) r no_zero_history, of f] sums [OF that] by (simp add: word_unat_eq_iff)
  have "(\<forall>f. \<not> touched ?cs key f) \<longleftrightarrow> (\<forall>(f, g) \<in> set fl. g s = 0)"
  proof
    assume "\<forall>f. \<not> touched ?cs key f"
    then have "hsum key f ?cs = 0" for f using touched_hsum [OF no_zero_history] by blast
    then show "\<forall>(f, g) \<in> set fl. g s = 0" using sums by (fastforce simp: unat_eq_0)
  next
    assume z: "\<forall>(f, g) \<in> set fl. g s = 0"
    show "\<forall>f. \<not> touched ?cs key f"
    proof (intro allI notI)
      fix f assume t: "touched ?cs key f"
      then obtain g where g: "(f, g) \<in> set fl" using only by blast
      then have "hsum key f ?cs = 0" using z sums [OF g] by fastforce
      then show False using t touched_hsum [OF no_zero_history] by blast
    qed
  qed
  then show ?thesis using fs n hash_empty [OF fs(2)] by (intro that) simp_all
qed

text \<open>The pairs in contact, both ways round, and the subscribers that are in contact with anybody.\<close>

definition in_contact :: "history \<Rightarrow> LinkKey set" where
  "in_contact h = {l. link_at (fold_batch (all_records h)) l \<noteq> 0}"

definition contact_names :: "history \<Rightarrow> string set" where
  "contact_names h = (\<lambda>l. dec64 (owner l)) ` in_contact h"

lemma in_contact_sym: "\<lparr>owner = a, peer = b\<rparr> \<in> in_contact h \<longleftrightarrow> \<lparr>owner = b, peer = a\<rparr> \<in> in_contact h"
  by (simp add: in_contact_def link_at_fold fwd_rev_swap add.commute)

lemma finite_contacts: "finite (contact_names h)"
proof -
  have "in_contact h \<subseteq> fst ` set (links (fold_batch (all_records h)))"
  proof
    fix l assume "l \<in> in_contact h"
    then have "map_of (links (fold_batch (all_records h))) l \<noteq> None"
      by (auto simp: in_contact_def at_default_def split: option.splits)
    then show "l \<in> fst ` set (links (fold_batch (all_records h)))" by (simp add: map_of_eq_None_iff)
  qed
  then show ?thesis using finite_subset unfolding contact_names_def by blast
qed

lemma link_field_touched:
  assumes "in_range (history_cmds h)"
  shows "(\<exists>(s, i) \<in> set link_fields. touched (history_cmds h) (link_key (owner l)) (dec64 (peer l) @ s)) \<longleftrightarrow> l \<in> in_contact h"
proof -
  have "touched (history_cmds h) (link_key (owner l)) (dec64 (peer l) @ s) \<longleftrightarrow> i (link_at (fold_batch (all_records h)) l) \<noteq> 0"
    if "(s, i) \<in> set link_fields" for s i
    using touched_hsum [OF no_zero_history] history_link [OF that assms, of l] by (simp add: unat_gt_0)
  then show ?thesis using zero_link_fields [of "link_at (fold_batch (all_records h)) l"]
    unfolding in_contact_def by blast
qed

lemma stored_linked:
  assumes "stored (history_cmds h) q"
  shows "link_peers q x \<noteq> None" "linked q = (\<lambda>l. (dec64 (owner l), dec64 (peer l))) ` in_contact h"
proof -
  let ?cs = "history_cmds h"
  have r: "in_range ?cs" using assms by (simp add: stored_def)
  have p: "\<exists>ps. link_peers q x = Some ps \<and> set ps = cut_suffix ` {f. touched ?cs (kLinkPrefix @ x) f}" for x
  proof -
    obtain fs where fs: "q_hkeys q (kLinkPrefix @ x) = Some (map fst fs)" "hash_of ?cs (kLinkPrefix @ x) fs"
      using assms sub_key_dec(3) unfolding stored_def by blast
    have "f \<in> fst ` set fs \<longleftrightarrow> touched ?cs (kLinkPrefix @ x) f" for f
      using fs(2) map_of_eq_None_iff [of fs f] by (simp add: hash_of_def split: if_splits)
    then have "fst ` set fs = {f. touched ?cs (kLinkPrefix @ x) f}" by blast
    then show ?thesis using fs(1) link_peers_spec [of q x]
      by (fastforce simp: link_peers_def links_key_def)
  qed
  then show "link_peers q x \<noteq> None" by fastforce
  have suffixes: "cut_suffix (dec64 b @ s) = dec64 b" if "(s, i) \<in> set link_fields" for b s i
    using that by (auto simp: link_fields_def)
  show "linked q = (\<lambda>l. (dec64 (owner l), dec64 (peer l))) ` in_contact h"
  proof (intro set_eqI iffI)
    fix e assume "e \<in> linked q"
    then obtain x y ps where e: "e = (x, y)" "link_peers q x = Some ps" "y \<in> set ps" by (auto simp: linked_def)
    then obtain f where f: "touched ?cs (kLinkPrefix @ x) f" "y = cut_suffix f" using p [of x] by auto
    obtain l :: LinkKey and s i where l: "x = dec64 (owner l)" "f = dec64 (peer l) @ s" "(s, i) \<in> set link_fields"
      using touched_link [OF f(1)] by blast
    have "l \<in> in_contact h"
      using link_field_touched [OF r, of l] f(1) l by (auto simp: key_starts(4) [THEN iffD2])
    then show "e \<in> (\<lambda>l. (dec64 (owner l), dec64 (peer l))) ` in_contact h"
      using e(1) l f(2) suffixes [OF l(3)] by auto
  next
    fix e assume "e \<in> (\<lambda>l. (dec64 (owner l), dec64 (peer l))) ` in_contact h"
    then obtain l where l: "l \<in> in_contact h" "e = (dec64 (owner l), dec64 (peer l))" by blast
    then obtain s i where si: "(s, i) \<in> set link_fields" "touched ?cs (link_key (owner l)) (dec64 (peer l) @ s)"
      using link_field_touched [OF r, of l] by blast
    have k: "kLinkPrefix @ dec64 (owner l) = link_key (owner l)" using key_starts(4) by blast
    obtain ps where "link_peers q (dec64 (owner l)) = Some ps" "set ps = cut_suffix ` {f. touched ?cs (link_key (owner l)) f}"
      using p [of "dec64 (owner l)"] by (auto simp: k)
    then have "dec64 (peer l) \<in> set ps" using si(2) suffixes [OF si(1)] by (metis imageI mem_Collect_eq)
    then show "e \<in> linked q" using l(2) \<open>link_peers q (dec64 (owner l)) = Some ps\<close> by (simp add: linked_def)
  qed
qed

text \<open>A store that holds the one call of \<open>call_record\<close>, from subscriber 7 to subscriber 9.\<close>

definition one_call :: history where "one_call = [(''f'', [call_record 5])]"

definition one_call_store :: IQueryStore where
  "one_call_store = db_view \<lparr>hashes = hash_from (history_cmds one_call), boards = (\<lambda>b. []), db_keys = 8\<rparr>"

lemma hsum_at_most: "hsum k f cs \<le> (\<Sum>c\<leftarrow>cs. case c of HINCRBY k' f' v \<Rightarrow> unat v | _ \<Rightarrow> 0)"
  by (induction cs) (auto split: cmd.splits)

lemma one_call_stored: "stored (history_cmds one_call) one_call_store"
proof -
  have "(\<Sum>c\<leftarrow>history_cmds one_call. case c of HINCRBY k f v \<Rightarrow> unat v | _ \<Rightarrow> 0) < 2 ^ 63"
    by (simp add: one_call_def history_cmds_def consume_cmds_def mark_cmds_def rank_cmds_def incr_cmds_def
        totals_batch_fields totals_adds_def totals_fields_names fold_batch_def fold_record_def call_record_def
        on_sub_def on_op_def on_link_def empty_delta_def mccmnc_of_def kMsinDivisor_def addLink_def
        add_to_link_def delta_monoid_defs delta_adds_def delta_ranks_def sub_adds_def op_adds_def link_adds_def sub_ranks_def op_ranks_def Let_def)
  then have "in_range (history_cmds one_call)" unfolding in_range_def
    using hsum_at_most le_less_trans by blast
  then show ?thesis unfolding one_call_store_def by (rule stored_from)
qed

lemma one_call_folded:
  "sub_at (fold_batch (all_records one_call)) 7 = 0\<lparr>voice_out := 60\<rparr>"
  "in_contact one_call = {\<lparr>owner = 7, peer = 9\<rparr>, \<lparr>owner = 9, peer = 7\<rparr>}"
proof -
  have r: "all_records one_call = [call_record 5]" by (simp add: one_call_def all_records_def)
  show "sub_at (fold_batch (all_records one_call)) 7 = 0\<lparr>voice_out := 60\<rparr>"
    by (simp add: r at_fold sub_contrib_def) (simp add: call_record_def)
  have l: "link_at (fold_batch [call_record 5]) l \<noteq> 0 \<longleftrightarrow> fwd_key (call_record 5) = l \<or> rev_key (call_record 5) = l" for l
  proof -
    let ?x = "link_contrib (call_record 5)"
    have c: "is_contact (call_record 5)" by (simp add: is_contact_def counts_def call_record_def)
    have x: "?x \<noteq> 0" "?x + ?x \<noteq> 0" by (simp_all add: link_contrib_def call_record_def delta_monoid_defs)
    have "link_at (fold_batch [call_record 5]) l =
      (if fwd_key (call_record 5) = l then ?x else 0) + (if rev_key (call_record 5) = l then ?x else 0)"
      by (simp add: link_at_fold c)
    then show ?thesis using x by simp
  qed
  show "in_contact one_call = {\<lparr>owner = 7, peer = 9\<rparr>, \<lparr>owner = 9, peer = 7\<rparr>}"
    unfolding in_contact_def r l by (auto simp: fwd_key_def rev_key_def call_record_def)
qed

section \<open>How far the counters go\<close>

text \<open>
  A counter of the server is a signed 64-bit integer. What a record can add to any of them is at most twice
  its \<open>load\<close> (twice, for a call of a number to itself), so a bound on the records keeps all of them in range.
\<close>

definition load :: "CdrRecord \<Rightarrow> nat" where
  "load r = unat (duration r) + unat (bytesReceived r) + unat (bytesTransmitted r) + 1"

definition total_load :: "CdrRecord list \<Rightarrow> nat" where
  "total_load rs = 2 * (\<Sum>r\<leftarrow>rs. load r)"

lemma total_load_append [simp]: "total_load (a @ b) = total_load a + total_load b"
  by (simp add: total_load_def)

lemma total_load_permuted: "mset a = mset b \<Longrightarrow> total_load a = total_load b"
  unfolding total_load_def by (metis mset_map sum_mset_sum_list)

lemma unat_plus_le: "unat (a + b) \<le> unat a + unat b" for a b :: "'w :: len word"
  by (simp add: unat_word_ariths)

lemma additive_load:
  fixes g :: "CdrRecord list \<Rightarrow> u64"
  assumes "\<And>a b. g (a @ b) = g a + g b" "g [] = 0" "\<And>r. unat (g [r]) \<le> 2 * load r"
  shows "unat (g rs) \<le> total_load rs"
proof (induction rs)
  case (Cons r rs)
  have "unat (g (r # rs)) \<le> unat (g [r]) + unat (g rs)" using assms(1) [of "[r]" rs] unat_plus_le by simp
  then show ?case using Cons assms(3) [of r] by (simp add: total_load_def)
qed (simp add: assms(2))

lemma small_contribs:
  "(f, g) \<in> set sub_fields \<Longrightarrow> unat (g (sub_at (fold_batch [r]) m)) \<le> 2 * load r"
  "(f, h) \<in> set op_fields \<Longrightarrow> unat (h (op_at (fold_batch [r]) j)) \<le> 2 * load r"
proof -
  have at: "sub_at (fold_batch [r]) m = (if m \<noteq> 0 \<and> subscriberMSISDN r = m then sub_contrib r else 0)"
    "op_at (fold_batch [r]) j = (if j \<noteq> 0 \<and> counts r \<and> mccmnc_of r = j then op_contrib r else 0)"
    by (simp_all add: at_fold)
  show "unat (g (sub_at (fold_batch [r]) m)) \<le> 2 * load r" if "(f, g) \<in> set sub_fields"
    using that unfolding at
    by (auto simp: sub_fields_def sub_contrib_def delta_monoid_defs load_def split: UsageType.split)
  show "unat (h (op_at (fold_batch [r]) j)) \<le> 2 * load r" if "(f, h) \<in> set op_fields"
    using that unfolding at
    by (auto simp: op_fields_def op_contrib_def delta_monoid_defs load_def split: UsageType.split)
qed

lemma small_link: "(f, i) \<in> set link_fields \<Longrightarrow> unat (i (link_at (fold_batch [r]) l)) \<le> 2 * load r"
proof -
  assume f: "(f, i) \<in> set link_fields"
  have c: "unat (i (if P then link_contrib r else 0)) \<le> load r" for P
    using f by (auto simp: link_fields_def link_contrib_def delta_monoid_defs load_def split: UsageType.split)
  have "link_at (fold_batch [r]) l = (if is_contact r \<and> fwd_key r = l then link_contrib r else 0)
      + (if is_contact r \<and> rev_key r = l then link_contrib r else 0)" by (simp add: link_at_fold)
  then have "unat (i (link_at (fold_batch [r]) l)) \<le> unat (i (if is_contact r \<and> fwd_key r = l then link_contrib r else 0))
      + unat (i (if is_contact r \<and> rev_key r = l then link_contrib r else 0))"
    using sub_field_add(2) [OF f] unat_plus_le by metis
  then show ?thesis using c [of "is_contact r \<and> fwd_key r = l"] c [of "is_contact r \<and> rev_key r = l"] by linarith
qed

lemma small_total: "f \<in> set kTotalFields \<Longrightarrow> unat (total_of [r] f) \<le> 2 * load r"
  by (cases "usageType r") (auto simp: total_of_def kTotalFields_def totals_fields_names total_names name_defs totals_batch_fields load_def)

lemma consume_load: "hsum k f (consume_cmds src b) \<le> total_load b"
proof (cases "touched (consume_cmds src b) k f")
  case False
  have "no_zero (consume_cmds src b)" using no_zero_history [of "[(src, b)]"] by (simp add: history_cmds_def)
  then show ?thesis using False touched_hsum by (metis le0)
next
  case True
  then show ?thesis
  proof (cases rule: touched_consume)
    case (sub m g)
    show ?thesis unfolding sub(1) consume_hsum(1) [OF sub(2)]
      by (rule additive_load) (simp_all add: fold_additive sub_field_add(1) [OF sub(2)] field_zero(1) [OF sub(2)] at_fold(1) [of "[]"]
          small_contribs(1) [OF sub(2)])
  next
    case (op j g)
    show ?thesis unfolding op(1) consume_hsum(2) [OF op(2)]
      by (rule additive_load) (simp_all add: fold_additive sub_field_add(3) [OF op(2)] field_zero(2) [OF op(2)] at_fold(2) [of "[]"]
          small_contribs(2) [OF op(2)])
  next
    case (link l t i)
    show ?thesis unfolding link(1,2) consume_hsum(3) [OF link(3)]
      by (rule additive_load) (simp_all add: fold_additive sub_field_add(2) [OF link(3)] field_zero(3) [OF link(3)] at_fold(3) [of "[]"]
          small_link [OF link(3)])
  next
    case totals
    show ?thesis unfolding totals(1) consume_hsum(4) [OF total_of_field [OF totals(2)]]
      by (rule additive_load) (simp_all add: total_of_append [OF totals(2)] total_of_empty [OF totals(2)] small_total [OF totals(2)])
  qed
qed

lemma history_load: "hsum k f (history_cmds h) \<le> total_load (all_records h)"
proof (induction h rule: rev_induct)
  case (snoc e h)
  obtain src b where e: "e = (src, b)" by (cases e)
  then show ?case using snoc consume_load [of k f src b] by simp
qed simp

lemma history_in_range: "total_load (all_records h) < 2 ^ 63 \<Longrightarrow> in_range (history_cmds h)"
  unfolding in_range_def using history_load le_less_trans by blast

section \<open>Properties\<close>

lemma contacts_sym: "sym ((\<lambda>l. (dec64 (owner l), dec64 (peer l))) ` in_contact h)"
proof (rule symI)
  fix x y assume "(x, y) \<in> (\<lambda>l. (dec64 (owner l), dec64 (peer l))) ` in_contact h"
  then obtain k where k: "k \<in> in_contact h" "x = dec64 (owner k)" "y = dec64 (peer k)" by blast
  obtain a b where ab: "k = \<lparr>owner = a, peer = b\<rparr>" by (cases k)
  have "\<lparr>owner = b, peer = a\<rparr> \<in> in_contact h" using k(1) in_contact_sym unfolding ab by blast
  then show "(y, x) \<in> (\<lambda>l. (dec64 (owner l), dec64 (peer l))) ` in_contact h"
    by (rule rev_image_eqI) (simp add: k ab)
qed

text \<open>The peers the store names are subscribers with contacts.\<close>

lemma stored_peers:
  assumes "stored (history_cmds h) q"
  shows "\<exists>ps. link_peers q v = Some ps \<and> set ps \<subseteq> contact_names h"
proof -
  obtain ps where ps: "link_peers q v = Some ps" using stored_linked(1) [OF assms] by blast
  have "y \<in> contact_names h" if "y \<in> set ps" for y
  proof -
    have "(v, y) \<in> linked q" using ps that by (auto simp: linked_def)
    then have "(y, v) \<in> linked q" using contacts_sym [of h] unfolding stored_linked(2) [OF assms] by (metis symD)
    then show ?thesis unfolding stored_linked(2) [OF assms] contact_names_def by auto
  qed
  then show ?thesis using ps by blast
qed

text \<open>
  C14: Over the same store the links the gateway reads are those the records make, and they go both
  ways; so, with at most \<open>max_visited\<close> subscribers in contact with anybody, the path search
  finds a shortest path between any two numbers that are within \<open>max_hops\<close> contacts of each other,
  and answers 404 exactly for those that are not.
\<close>

theorem paths_end_to_end:
  assumes "stored (history_cmds h) q"
    and "card (insert first (insert second (contact_names h))) \<le> unat (max_visited cfg)"
  shows "linked q = (\<lambda>l. (dec64 (owner l), dec64 (peer l))) ` in_contact h
    \<and> (if \<exists>n \<le> unat (max_hops cfg). (first, second) \<in> linked q ^^ n
       then \<exists>route. path q cfg first second weights = Some (found q route weights)
         \<and> valid_route (linked q) first second (unat (max_hops cfg)) route
         \<and> (\<forall>n. (first, second) \<in> linked q ^^ n \<longrightarrow> length route \<le> n + 1)
       else path q cfg first second weights = Some \<lparr>status = 404, rbody = notFound cfg\<rparr>)"
proof
  let ?S = "insert first (insert second (contact_names h))"
  show "linked q = (\<lambda>l. (dec64 (owner l), dec64 (peer l))) ` in_contact h"
    by (rule stored_linked(2) [OF assms(1)])
  then have "sym (linked q)" using contacts_sym by simp
  moreover have "\<exists>ps. link_peers q v = Some ps \<and> set ps \<subseteq> ?S" for v
    using stored_peers [OF assms(1), of v] by blast
  moreover have "finite ?S" using finite_contacts by simp
  ultimately show "if \<exists>n \<le> unat (max_hops cfg). (first, second) \<in> linked q ^^ n
       then \<exists>route. path q cfg first second weights = Some (found q route weights)
         \<and> valid_route (linked q) first second (unat (max_hops cfg)) route
         \<and> (\<forall>n. (first, second) \<in> linked q ^^ n \<longrightarrow> length route \<le> n + 1)
       else path q cfg first second weights = Some \<lparr>status = 404, rbody = notFound cfg\<rparr>"
    using assms(2) by (intro path_shortest_rule [where S = ?S]) simp_all
qed

theorem paths_end_to_end_witness:
  "\<exists>route. path one_call_store \<lparr>max_hops = 6, max_visited = 100\<rparr> (dec64 7) (dec64 9) False
        = Some (found one_call_store route False)
      \<and> valid_route (linked one_call_store) (dec64 7) (dec64 9) 6 route \<and> length route \<le> 2"
proof -
  let ?cfg = "\<lparr>max_hops = 6, max_visited = 100\<rparr>"
  have names: "contact_names one_call = {dec64 7, dec64 9}" by (simp add: contact_names_def one_call_folded)
  have "card (insert (dec64 7) (insert (dec64 9) (contact_names one_call))) \<le> unat (max_visited ?cfg)"
    by (simp add: names card_insert_if)
  note e = paths_end_to_end [OF one_call_stored this, of False]
  then have "linked one_call_store = {(dec64 7, dec64 9), (dec64 9, dec64 7)}" by (simp add: one_call_folded)
  then have one: "(dec64 7, dec64 9) \<in> linked one_call_store ^^ 1" by simp
  then have "\<exists>n \<le> unat (max_hops ?cfg). (dec64 7, dec64 9) \<in> linked one_call_store ^^ n"
    by (intro exI [of _ 1]) simp
  with e obtain route where "path one_call_store ?cfg (dec64 7) (dec64 9) False = Some (found one_call_store route False)"
      "valid_route (linked one_call_store) (dec64 7) (dec64 9) (unat (max_hops ?cfg)) route"
      "\<forall>n. (dec64 7, dec64 9) \<in> linked one_call_store ^^ n \<longrightarrow> length route \<le> n + 1"
    by (meson e)
  then show ?thesis using one by fastforce
qed

end
