(* ===== verification/SharedStore.thy ===== *)
theory SharedStore
  imports AggregateSink
begin

text \<open>
  One Redis server and the connections of several threads, each of them the thread-local state of
  \<open>RedisConn\<close> and \<open>RedisStore\<close>. A batch reaches the server as one transaction, and transactions of
  different connections do not overlap, so one \<open>consume\<close> is one step here. The server is the list of
  the commands completed so far, by whichever connection; \<open>seen_by\<close> puts it in front of a thread that
  has nothing on the way. The lemmas show that each thread's sink keeps the contract of
  \<open>Sink\<close> over this shared list.
\<close>

record 'w Shared =
  sh_log :: "cmd list"
  sh_thread :: "nat \<Rightarrow> 'w RS"

text \<open>
  The ghost logs of a thread's connection, cut between two calls: what is complete is one earlier
  transaction, and nothing has been sent since.
\<close>

definition seen_by :: "cmd list \<Rightarrow> 'w RS \<Rightarrow> 'w RS" where
  "seen_by l s = s\<lparr>dead := [MULTI # l @ [EXEC]], ctx := map_option (\<lambda>c. c\<lparr>sent := [], taken := 0\<rparr>) (ctx s)\<rparr>"

definition on_thread :: "nat \<Rightarrow> ('w RS \<Rightarrow> 'a \<times> 'w RS) \<Rightarrow> 'w Shared \<Rightarrow> 'a \<times> 'w Shared" where
  "on_thread i f sh =
     (let (a, s) = f (seen_by (sh_log sh) (sh_thread sh i))
      in (a, \<lparr>sh_log = rs_committed s, sh_thread = (sh_thread sh)(i := s)\<rparr>))"

text \<open>The sink as thread \<open>i\<close> calls it; the counters of the run are shared.\<close>

definition thread_sink :: "'w env \<Rightarrow> nat \<Rightarrow> (RunTotals \<times> 'w Shared) ISink" where
  "thread_sink E i =
     \<lparr>sk_consume = (\<lambda>b src (run, sh). on_thread i (\<lambda>s. consume (redis_vt E) b src (run, s)) sh),
      sk_resume_at = (\<lambda>src (run, sh).
        let ((p, run), sh) = on_thread i (\<lambda>s. let (p, run, s) = sink_resume_at (redis_vt E) src (run, s) in ((p, run), s)) sh
        in (p, run, sh))\<rparr>"

definition new_server :: "cmd list \<Rightarrow> 'w \<Rightarrow> 'w Shared" where
  "new_server l w = \<lparr>sh_log = l, sh_thread = (\<lambda>i. new_thread [] w)\<rparr>"

text \<open>A thread between two calls of its sink.\<close>

definition quiet :: "'w RS \<Rightarrow> bool" where
  "quiet s \<longleftrightarrow> rs_ok s \<and> queued s = 0 \<and> \<not> open_batch s"

definition shared_rel :: "cmd list \<Rightarrow> history \<Rightarrow> RunTotals \<times> 'w Shared \<Rightarrow> bool" where
  "shared_rel c0 h = (\<lambda>(run, sh). (\<forall>i. quiet (sh_thread sh i)) \<and> sh_log sh = c0 @ history_cmds h
     \<and> list_all is_write c0 \<and> list_all (\<lambda>(src, b). src \<noteq> []) h)"

section \<open>Cutting the logs\<close>

lemma srv_writes: "list_all is_write l \<Longrightarrow> foldl srv_step (d, Some p) l = (d, Some (p @ l))"
proof (induction l arbitrary: p)
  case (Cons c l)
  then show ?case by (cases c) simp_all
qed simp

lemma frame_writes: "list_all is_write l \<Longrightarrow> foldl frame_step (Some True) l = Some True"
proof (induction l)
  case (Cons c l)
  then show ?case by (cases c) simp_all
qed simp

lemma one_transaction:
  "list_all is_write l \<Longrightarrow> committed_of (MULTI # l @ [EXEC]) = l" "list_all is_write l \<Longrightarrow> framed (MULTI # l @ [EXEC])"
  by (simp_all add: committed_of_def srv_def framed_def frame_def srv_writes frame_writes)

lemma seen_by_quiet:
  assumes "quiet s" "list_all is_write l"
  shows "quiet (seen_by l s)" "rs_committed (seen_by l s) = l" "rs_pending (seen_by l s) = []"
proof -
  note one = one_transaction [OF assms(2)]
  show "quiet (seen_by l s)"
    using assms(1) one(2)
    by (cases "ctx s")
      (auto simp: quiet_def rs_ok_def seen_by_def conn_inv_def logs_framed_def all_logs_def usable_def broken_def framed_def)
  show "rs_committed (seen_by l s) = l" "rs_pending (seen_by l s) = []"
    using one(1)
    by (cases "ctx s"; simp add: seen_by_def rs_committed_def rs_pending_def all_logs_def committed_logs_def
        committed_of_def pending_of_def)+
qed

lemma history_writes: "list_all is_write (history_cmds h)"
proof (induction h rule: rev_induct)
  case (snoc e h)
  obtain src b where "e = (src, b)" by (cases e)
  moreover have "list_all is_write (consume_cmds src b)"
    by (auto simp: consume_cmds_def incr_cmds_def rank_cmds_def mark_cmds_def list_all_iff)
  ultimately show ?case using snoc by simp
qed simp

section \<open>The contract\<close>

context reliable_redis
begin

lemma consume_quiet:
  assumes "rs_ok s" "consume (redis_vt E) b src (run, s) = (run', s')"
  shows "queued s' = 0 \<and> \<not> open_batch s'"
proof -
  let ?t = "run_calls (redis_vt E) (consume_writes src b) s"
  have "rs_ok ?t" using run_writes [OF assms(1)] consume_writes_ok(1) [of src b] by blast
  moreover have "s' = snd (redis_flush E ?t)"
    using consume_is_calls [of "redis_vt E" b src run s] assms(2)
    by (simp add: consume_calls_def redis_vt_def)
  ultimately show ?thesis using redis_flush_inv [of ?t E] by (metis prod.collapse rs_ok_def)
qed

text \<open>One call of thread \<open>i\<close>, from any source, the one without a name included.\<close>

lemma thread_consume:
  assumes "\<And>j. quiet (sh_thread sh j)" "list_all is_write (sh_log sh)"
    and "sk_consume (thread_sink E i) b src (run, sh) = (run', sh')"
  shows "quiet (sh_thread sh' j)" "sh_log sh' = sh_log sh @ consume_cmds src b"
    "run' = merge (totals_add_batch b zero_totals) run" "list_all is_write (sh_log sh')"
proof -
  let ?s = "seen_by (sh_log sh) (sh_thread sh i)"
  note seen = seen_by_quiet [OF assms(1,2)]
  obtain run1 s1 where c: "consume (redis_vt E) b src (run, ?s) = (run1, s1)"
    by (cases "consume (redis_vt E) b src (run, ?s)")
  have r: "run' = run1" "sh' = \<lparr>sh_log = rs_committed s1, sh_thread = (sh_thread sh)(i := s1)\<rparr>"
    using assms(3) by (simp_all add: thread_sink_def on_thread_def c)
  have "rs_ok ?s" using seen(1) by (simp add: quiet_def)
  note ok = consume_ok [OF this c] consume_quiet [OF this c]
  then show "quiet (sh_thread sh' j)" using assms(1) by (simp add: r quiet_def)
  show log: "sh_log sh' = sh_log sh @ consume_cmds src b" using ok seen(2,3) by (simp add: r)
  show "run' = merge (totals_add_batch b zero_totals) run" using ok by (simp add: r)
  show "list_all is_write (sh_log sh')" using assms(2) history_writes [of "[(src, b)]"] log by (simp add: history_cmds_def)
qed

lemma thread_contract: "progress_sink (thread_sink E i) (shared_rel c0) (\<lambda>src. progress src c0)"
proof
  fix h :: history and x :: "RunTotals \<times> 'w Shared" and src :: string and b p x'
  obtain run sh where x: "x = (run, sh)" by (cases x)
  let ?s = "seen_by (sh_log sh) (sh_thread sh i)"
  {
    assume "shared_rel c0 h x"
    then have q: "quiet (sh_thread sh j)" and l: "sh_log sh = c0 @ history_cmds h" "list_all is_write (sh_log sh)"
        "list_all is_write c0" "list_all (\<lambda>(src, b). src \<noteq> []) h" for j
      using history_writes [of h] by (auto simp: shared_rel_def x)
    note seen = seen_by_quiet [OF q l(2)]
    then have "agg_rel rs_ok rs_committed rs_pending c0 h (run, ?s)"
      using l by (simp add: agg_rel_def quiet_def)
    note q l seen this
  } note rel = this
  show "shared_rel c0 (h @ [(src, b)]) (sk_consume (thread_sink E i) b src x)"
    if r: "shared_rel c0 h x" "src \<noteq> []"
  proof -
    obtain run' sh' where c: "sk_consume (thread_sink E i) b src (run, sh) = (run', sh')"
      by (cases "sk_consume (thread_sink E i) b src (run, sh)")
    from thread_consume [OF rel(1,3) [OF r(1)] c] rel(2,4,5) [OF r(1)] r(2)
    show ?thesis by (simp add: shared_rel_def x c)
  qed
  show "shared_rel c0 h x' \<and> p = applied (\<lambda>src. progress src c0) src h"
    if r: "shared_rel c0 h x" "sk_resume_at (thread_sink E i) src x = (p, x')"
  proof -
    obtain q t where t: "redis_resume_at E src ?s = (q, t)" by (cases "redis_resume_at E src ?s")
    have e: "sk_resume_at (aggregate_sink (redis_vt E)) src (run, ?s) = (q, run, t)"
      by (simp add: aggregate_sink_def sink_resume_at_def redis_vt_def t)
    have "p = q" "x' = (run, \<lparr>sh_log = rs_committed t, sh_thread = (sh_thread sh)(i := t)\<rparr>)"
      using r(2) by (simp_all add: thread_sink_def on_thread_def sink_resume_at_def redis_vt_def x t)
    moreover have "queued t = 0 \<and> \<not> open_batch t" using resume_good [OF _ t] rel(6) [OF r(1)] by (simp add: quiet_def)
    ultimately show ?thesis using agg_resume [OF rel(9) [OF r(1)] e] rel(1,4,5) [OF r(1)]
      by (simp add: shared_rel_def agg_rel_def quiet_def)
  qed
qed

end

lemma new_server_rel: "list_all is_write l \<Longrightarrow> shared_rel l [] (run, new_server l w)"
  by (simp add: shared_rel_def new_server_def quiet_def rs_ok_def new_thread_inv)

end
