(* ===== verification/Readers.thy ===== *)
theory Readers
  imports FileIngestor ThreadPool SharedStore History
begin

text \<open>
  The file ingestor at work: the feeder submits claimed files, the workers of the pool run
  \<open>FileIngestor::process\<close> on them side by side, and a stop may come at any time. The state
  \<open>Ingest\<close> puts the pool, the sources that are open, the disk, the sink and the stop flag together;
  \<open>ingest_step\<close> interleaves the critical sections of the pool with the calls the workers make on
  the sink, one \<open>consume\<close> at a time. The lemmas show, for every interleaving, what each file has
  contributed in each state, so that no order of the workers and no stop loses, doubles or mixes up records.
\<close>

section \<open>The steps\<close>

text \<open>\<open>in_given\<close> is a ghost: the text of each file when it was submitted.\<close>

record 'x Ingest =
  in_pool :: "string Pool"
  in_source :: "nat \<Rightarrow> FileSource option"
  in_disk :: filesys
  in_sink :: 'x
  in_stop :: bool
  in_given :: "string \<Rightarrow> string option"

text \<open>A worker is done with its task.\<close>

definition finish :: "nat \<Rightarrow> 't \<Rightarrow> 't Pool \<Rightarrow> 't Pool" where
  "finish i t p = p\<lparr>p_workers := (p_workers p)[i := Idle], p_finished := p_finished p @ [t]\<rparr>"

definition done_path :: "FileDirs \<Rightarrow> string \<Rightarrow> string" where
  "done_path dirs p = dir_done dirs @ basename_of p"

definition fail_path :: "FileDirs \<Rightarrow> string \<Rightarrow> string" where
  "fail_path dirs p = dir_fail dirs @ basename_of p"

text \<open>No directory stands where a file is moved to.\<close>

definition plain :: "FileDirs \<Rightarrow> filesys \<Rightarrow> bool" where
  "plain dirs disk \<longleftrightarrow> (\<forall>n. disk (dir_done dirs @ n) \<noteq> Some Directory \<and> disk (dir_fail dirs @ n) \<noteq> Some Directory)"

text \<open>
  \<open>process\<close> in steps: it leaves at once when the stop flag is set (\<open>skipped\<close>), or reads its resume
  point and opens the source (\<open>opened\<close>); it consumes a batch (\<open>consumed\<close>), and at the end of the
  source it disposes of the file (\<open>closed\<close>). A stop sets the flag and then stops the pool.
\<close>

inductive work_step ::
    "syscalls \<Rightarrow> FileDirs \<Rightarrow> (string \<Rightarrow> CdrRecord option) \<Rightarrow> (nat \<Rightarrow> 'x ISink) \<Rightarrow> 'x Ingest \<Rightarrow> 'x Ingest \<Rightarrow> bool"
  for sys dirs parser sk where
  taken: "i < length (p_workers (in_pool s)) \<Longrightarrow> p_workers (in_pool s) ! i = Idle \<Longrightarrow>
    take_task i (in_pool s) = Some pl \<Longrightarrow> work_step sys dirs parser sk s (s\<lparr>in_pool := pl\<rparr>)"
| skipped: "i < length (p_workers (in_pool s)) \<Longrightarrow> p_workers (in_pool s) ! i = Running p \<Longrightarrow>
    in_source s i = None \<Longrightarrow> in_stop s \<Longrightarrow>
    work_step sys dirs parser sk s (s\<lparr>in_pool := finish i p (in_pool s)\<rparr>)"
| opened: "i < length (p_workers (in_pool s)) \<Longrightarrow> p_workers (in_pool s) ! i = Running p \<Longrightarrow>
    in_source s i = None \<Longrightarrow> \<not> in_stop s \<Longrightarrow> sk_resume_at (sk i) (basename_of p) (in_sink s) = (r, x) \<Longrightarrow>
    work_step sys dirs parser sk s
      (s\<lparr>in_sink := x, in_source := (in_source s)(i \<mapsto> open_source sys (in_disk s) p r)\<rparr>)"
| consumed: "i < length (p_workers (in_pool s)) \<Longrightarrow> p_workers (in_pool s) ! i = Running p \<Longrightarrow>
    in_source s i = Some src \<Longrightarrow> source_next parser src = (OK, batch, src') \<Longrightarrow>
    work_step sys dirs parser sk s
      (s\<lparr>in_sink := sk_consume (sk i) batch (basename_of p) (in_sink s), in_source := (in_source s)(i \<mapsto> src')\<rparr>)"
| closed: "i < length (p_workers (in_pool s)) \<Longrightarrow> p_workers (in_pool s) ! i = Running p \<Longrightarrow>
    in_source s i = Some src \<Longrightarrow> source_next parser src = (st, batch, src') \<Longrightarrow> st \<noteq> OK \<Longrightarrow>
    work_step sys dirs parser sk s
      (s\<lparr>in_disk := dispose dirs p (st = DONE) (in_disk s), in_source := (in_source s)(i := None),
         in_pool := finish i p (in_pool s)\<rparr>)"
| stop_asked: "work_step sys dirs parser sk s (s\<lparr>in_stop := True\<rparr>)"
| pool_stopped: "in_stop s \<Longrightarrow> work_step sys dirs parser sk s (s\<lparr>in_pool := (in_pool s)\<lparr>p_stop := True\<rparr>\<rparr>)"

text \<open>
  With the feeder, which submits files that are there, and everybody else, who may change the disk
  but for the files that were submitted and the places they go to.
\<close>

inductive ingest_step ::
    "syscalls \<Rightarrow> FileDirs \<Rightarrow> (string \<Rightarrow> CdrRecord option) \<Rightarrow> (nat \<Rightarrow> 'x ISink) \<Rightarrow> 'x Ingest \<Rightarrow> 'x Ingest \<Rightarrow> bool"
  for sys dirs parser sk where
  submitted: "in_disk s p = Some (Regular t) \<Longrightarrow> submit p (in_pool s) = Some (b, pl) \<Longrightarrow>
    ingest_step sys dirs parser sk s
      (s\<lparr>in_pool := pl, in_given := if b then (in_given s)(p \<mapsto> t) else in_given s\<rparr>)"
| delivered: "(\<And>p. p \<in> dom (in_given s) \<Longrightarrow> disk p = in_disk s p \<and> disk (done_path dirs p) = in_disk s (done_path dirs p)
      \<and> disk (fail_path dirs p) = in_disk s (fail_path dirs p)) \<Longrightarrow> plain dirs disk \<Longrightarrow>
    ingest_step sys dirs parser sk s (s\<lparr>in_disk := disk\<rparr>)"
| worked: "work_step sys dirs parser sk s s' \<Longrightarrow> ingest_step sys dirs parser sk s s'"

lemma works: "(work_step sys dirs parser sk)\<^sup>*\<^sup>* s s' \<Longrightarrow> (ingest_step sys dirs parser sk)\<^sup>*\<^sup>* s s'"
  by (rule rtranclp_mono [THEN predicate2D]) (auto intro: worked)

definition ingest_start :: "string Pool \<Rightarrow> filesys \<Rightarrow> 'x \<Rightarrow> 'x Ingest" where
  "ingest_start pl disk x =
     \<lparr>in_pool = pl, in_source = (\<lambda>i. None), in_disk = disk, in_sink = x, in_stop = False, in_given = (\<lambda>p. None)\<rparr>"

section \<open>One worker by itself\<close>

text \<open>The steps of one worker, uninterrupted, are \<open>process\<close>.\<close>

lemma worker_loop:
  assumes "i < length (p_workers (in_pool s))" "p_workers (in_pool s) ! i = Running p"
  shows "in_source s i = Some src \<Longrightarrow> process_loop (sk i) parser (basename_of p) src (in_sink s) = (st, x) \<Longrightarrow>
    (work_step sys dirs parser sk)\<^sup>*\<^sup>* s
      (s\<lparr>in_disk := dispose dirs p (st = DONE) (in_disk s), in_sink := x, in_source := (in_source s)(i := None),
         in_pool := finish i p (in_pool s)\<rparr>)"
  using assms
proof (induction "sk i" parser "basename_of p" src "in_sink s" arbitrary: s rule: process_loop.induct)
  case (1 parser src s)
  obtain st' b src' where n: "source_next parser src = (st', b, src')" by (cases "source_next parser src")
  show ?case
  proof (cases "st' = OK")
    case True
    let ?s = "s\<lparr>in_sink := sk_consume (sk i) b (basename_of p) (in_sink s), in_source := (in_source s)(i \<mapsto> src')\<rparr>"
    have n': "source_next parser src = (OK, b, src')" using n True by simp
    have "work_step sys dirs parser sk s ?s" using consumed [OF "1.prems"(3,4,1) n'] .
    moreover have "process_loop (sk i) parser (basename_of p) src' (in_sink ?s) = (st, x)"
      using "1.prems"(2) n' by (subst (asm) process_loop.simps) simp
    then have "(work_step sys dirs parser sk)\<^sup>*\<^sup>* ?s
      (?s\<lparr>in_disk := dispose dirs p (st = DONE) (in_disk ?s), in_sink := x, in_source := (in_source ?s)(i := None),
         in_pool := finish i p (in_pool ?s)\<rparr>)"
      using "1.hyps" [OF n' [symmetric] refl refl, of ?s] "1.prems"(3,4) by simp
    ultimately show ?thesis by (simp add: converse_rtranclp_into_rtranclp)
  next
    case False
    have "process_loop (sk i) parser (basename_of p) src (in_sink s) = (st', in_sink s)"
      using n False by (subst process_loop.simps) (cases st'; simp)
    then have "st = st'" "x = in_sink s" using "1.prems"(2) by simp_all
    then show ?thesis using closed [OF "1.prems"(3,4,1) n False, of sys dirs sk] by (simp add: r_into_rtranclp)
  qed
qed

lemma worker_alone:
  assumes "i < length (p_workers (in_pool s))" "p_workers (in_pool s) ! i = Running p" "in_source s i = None"
    and "process sys dirs (sk i) parser (in_stop s) p (in_disk s, in_sink s) = (disk, x)"
  shows "(work_step sys dirs parser sk)\<^sup>*\<^sup>* s
    (s\<lparr>in_disk := disk, in_sink := x, in_source := (in_source s)(i := None), in_pool := finish i p (in_pool s)\<rparr>)"
proof (cases "in_stop s")
  case True
  then have "disk = in_disk s" "x = in_sink s" using assms(4) by (simp_all add: process_def)
  moreover have "(in_source s)(i := None) = in_source s" using assms(3) by auto
  ultimately show ?thesis using skipped [OF assms(1-3) True, of sys dirs parser sk] by (simp add: r_into_rtranclp)
next
  case False
  obtain r x1 where r: "sk_resume_at (sk i) (basename_of p) (in_sink s) = (r, x1)"
    by (cases "sk_resume_at (sk i) (basename_of p) (in_sink s)")
  let ?s = "s\<lparr>in_sink := x1, in_source := (in_source s)(i \<mapsto> open_source sys (in_disk s) p r)\<rparr>"
  obtain st x2 where l: "process_loop (sk i) parser (basename_of p) (open_source sys (in_disk s) p r) x1 = (st, x2)"
    by (rule prod.exhaust)
  have "disk = dispose dirs p (st = DONE) (in_disk s)" "x = x2"
    using assms(4) False r l by (simp_all add: process_def)
  moreover have "work_step sys dirs parser sk s ?s" by (rule opened [where sk = sk, OF assms(1-3) False r])
  ultimately show ?thesis
    using worker_loop [of i ?s p "open_source sys (in_disk s) p r" sk parser st x2 sys dirs] l assms(1,2)
    by (simp add: converse_rtranclp_into_rtranclp)
qed

section \<open>What each file has contributed\<close>

definition batches_of :: "string \<Rightarrow> history \<Rightarrow> CdrRecord list list" where
  "batches_of n h = map snd (filter (\<lambda>(src, b). src = n) h)"

lemma batches_of_simps [simp]:
  "batches_of n [] = []" "batches_of n (h @ [(src, b)]) = batches_of n h @ (if src = n then [b] else [])"
  by (simp_all add: batches_of_def)

lemma applied_untouched: "batches_of n h = [] \<Longrightarrow> applied base n h = base n"
proof (induction h rule: rev_induct)
  case (snoc e h)
  then show ?case by (cases e) (auto split: if_splits)
qed simp

text \<open>What reading a file yields from a resume point on; \<open>None\<close> when it cannot be opened.\<close>

definition yield :: "syscalls \<Rightarrow> (string \<Rightarrow> CdrRecord option) \<Rightarrow> string \<Rightarrow> string \<Rightarrow> u64 \<Rightarrow> CdrRecord list option" where
  "yield sys parser p t r =
     (let src = open_source sys [p \<mapsto> Regular t] p r in if f_failed src then None else Some (left parser src))"

lemma open_source_local: "disk p = disk' p \<Longrightarrow> open_source sys disk p r = open_source sys disk' p r"
  by (simp add: open_source_def map_file_def)

lemma open_source_yield:
  assumes "disk p = Some (Regular t)"
  shows "yield sys parser p t r =
    (if f_failed (open_source sys disk p r) then None else Some (left parser (open_source sys disk p r)))"
  using open_source_local [of disk p "[p \<mapsto> Regular t]"] assms by (simp add: yield_def Let_def)

lemma yield_readable:
  assumes "readable sys [p \<mapsto> Regular t] p body"
  shows "yield sys parser p t r = Some (fresh r (records_of parser body))"
  using open_readable [OF assms, of r] by (simp add: yield_def left_def Let_def)

text \<open>A source that is open: what it has handed out and what is left of it make up the file.\<close>

definition reading :: "(string \<Rightarrow> CdrRecord option) \<Rightarrow> CdrRecord list option \<Rightarrow> CdrRecord list list \<Rightarrow> FileSource \<Rightarrow> bool" where
  "reading parser y bs src \<longleftrightarrow>
     (if f_failed src then y = None \<and> bs = [] else y = Some (concat bs @ left parser src))"

text \<open>What has become of a file that a worker is done with, and of one that is still to be done.\<close>

definition settled ::
    "FileDirs \<Rightarrow> bool \<Rightarrow> filesys \<Rightarrow> string \<Rightarrow> string \<Rightarrow> CdrRecord list option \<Rightarrow> CdrRecord list list \<Rightarrow> bool" where
  "settled dirs stop disk p t y bs \<longleftrightarrow>
     (case y of
        Some rs \<Rightarrow> concat bs = rs \<and> disk p = None \<and> disk (done_path dirs p) = Some (Regular t)
      | None \<Rightarrow> bs = [] \<and> disk p = None \<and> disk (fail_path dirs p) = Some (Regular t))
     \<or> stop \<and> bs = [] \<and> disk p = Some (Regular t)"

text \<open>The names of the files do not clash with each other or with the directories they end in.\<close>

definition apart :: "FileDirs \<Rightarrow> string list \<Rightarrow> bool" where
  "apart dirs ps \<longleftrightarrow> distinct (map basename_of ps)
     \<and> list_all (\<lambda>p. basename_of p \<noteq> [] \<and> list_all (\<lambda>q. p \<noteq> done_path dirs q \<and> p \<noteq> fail_path dirs q) ps) ps
     \<and> list_all (\<lambda>p. list_all (\<lambda>q. done_path dirs p \<noteq> fail_path dirs q) ps) ps"

lemma apart_prefix: "apart dirs (ps @ qs) \<Longrightarrow> apart dirs ps"
  by (auto simp: apart_def list_all_iff)

lemma apart_inj: "apart dirs ps \<Longrightarrow> p \<in> set ps \<Longrightarrow> q \<in> set ps \<Longrightarrow> basename_of p = basename_of q \<longleftrightarrow> p = q"
  by (auto simp: apart_def distinct_map inj_on_def)

lemma apart_paths:
  assumes "apart dirs ps" "p \<in> set ps" "q \<in> set ps"
  shows "p \<noteq> done_path dirs q" "p \<noteq> fail_path dirs q" "done_path dirs p \<noteq> fail_path dirs q"
    "basename_of p \<noteq> []" "done_path dirs p = done_path dirs q \<longleftrightarrow> p = q" "fail_path dirs p = fail_path dirs q \<longleftrightarrow> p = q"
  using assms apart_inj [OF assms] by (auto simp: apart_def list_all_iff done_path_def fail_path_def)

text \<open>In a pool whose accepted tasks differ, a running task has one worker and is not finished.\<close>

lemma running_mem: "i < length ws \<Longrightarrow> ws ! i = Running t \<Longrightarrow> t \<in># running ws"
proof (induction ws arbitrary: i)
  case (Cons w ws)
  then show ?case by (cases i) auto
qed simp

lemma running_twice:
  "i < length ws \<Longrightarrow> j < length ws \<Longrightarrow> i \<noteq> j \<Longrightarrow> ws ! i = Running t \<Longrightarrow> ws ! j = Running t \<Longrightarrow> {#t, t#} \<subseteq># running ws"
proof (induction ws arbitrary: i j)
  case (Cons w ws)
  show ?case
  proof (cases "i = 0 \<or> j = 0")
    case True
    then obtain k where "k < length ws" "ws ! k = Running t" "w = Running t" using Cons.prems
      by (cases i; cases j) auto
    then show ?thesis using running_mem [of k ws t] by simp
  next
    case False
    then have "i - 1 \<noteq> j - 1" using Cons.prems(3) by auto
    then have "{#t, t#} \<subseteq># running ws"
      using Cons.IH [of "i - 1" "j - 1"] Cons.prems(1,2,4,5) False by (simp add: nth_Cons')
    then show ?thesis by (simp add: subset_mset.add_increasing)
  qed
qed simp

lemma pool_running:
  assumes "pool_inv pl" "distinct (p_accepted pl)" "i < length (p_workers pl)" "p_workers pl ! i = Running t"
  shows "t \<in> set (p_accepted pl)" "t \<notin> set (p_finished pl)"
    "j < length (p_workers pl) \<Longrightarrow> p_workers pl ! j = Running t \<Longrightarrow> j = i"
proof -
  have m: "mset (p_started pl) = mset (p_finished pl) + running (p_workers pl)" "p_accepted pl = p_started pl @ p_queue pl"
    using assms(1) by (simp_all add: pool_inv_def)
  have d: "distinct (p_started pl)" using assms(2) m(2) by simp
  have r: "t \<in># running (p_workers pl)" by (rule running_mem [OF assms(3,4)])
  then have "t \<in># mset (p_started pl)" using m(1) by simp
  then show "t \<in> set (p_accepted pl)" using m(2) by simp
  have c: "count (mset (p_started pl)) t \<le> 1" using d by (simp add: distinct_count_atmost_1)
  show "t \<notin> set (p_finished pl)"
  proof
    assume "t \<in> set (p_finished pl)"
    then have "0 < count (mset (p_finished pl)) t" by simp
    moreover note r [unfolded count_greater_zero_iff [symmetric]]
    ultimately show False using c unfolding m(1) plus_multiset.rep_eq by linarith
  qed
  show "j = i" if "j < length (p_workers pl)" "p_workers pl ! j = Running t"
  proof (rule ccontr)
    assume "j \<noteq> i"
    from mset_subset_eq_count [OF running_twice [OF that(1) assms(3) this that(2) assms(4)], of t]
    show False using c m(1) by simp
  qed
qed

section \<open>The invariant\<close>

definition text_of :: "'x Ingest \<Rightarrow> string \<Rightarrow> string" where
  "text_of s p = the (in_given s p)"

text \<open>
  An open source belongs to a running worker and is where the history of its file is; a file that is
  not finished is still in its place and, unless its source is open, untouched; a finished one is
  settled; and there is no history of anything else.
\<close>

lemma text_of_simps [simp]:
  "text_of (s\<lparr>in_disk := d\<rparr>) = text_of s" "text_of (s\<lparr>in_pool := pl\<rparr>) = text_of s"
  "text_of (s\<lparr>in_source := so\<rparr>) = text_of s" "text_of (s\<lparr>in_sink := x\<rparr>) = text_of s"
  "text_of (s\<lparr>in_stop := b\<rparr>) = text_of s"
  by (simp_all add: text_of_def fun_eq_iff)

definition is_open :: "'x Ingest \<Rightarrow> string \<Rightarrow> bool" where
  "is_open s p \<longleftrightarrow> (\<exists>i src. in_source s i = Some src \<and> p_workers (in_pool s) ! i = Running p)"

definition yield_of :: "syscalls \<Rightarrow> (string \<Rightarrow> CdrRecord option) \<Rightarrow> (string \<Rightarrow> u64) \<Rightarrow> 'x Ingest \<Rightarrow> string \<Rightarrow> CdrRecord list option" where
  "yield_of sys parser base s p = yield sys parser p (text_of s p) (base (basename_of p))"

definition source_ok ::
    "syscalls \<Rightarrow> (string \<Rightarrow> CdrRecord option) \<Rightarrow> (string \<Rightarrow> u64) \<Rightarrow> history \<Rightarrow> 'x Ingest \<Rightarrow> nat \<Rightarrow> FileSource \<Rightarrow> bool" where
  "source_ok sys parser base h s i src \<longleftrightarrow> i < length (p_workers (in_pool s))
     \<and> (\<exists>p. p_workers (in_pool s) ! i = Running p
         \<and> reading parser (yield_of sys parser base s p) (batches_of (basename_of p) h) src)"

definition unread_ok :: "history \<Rightarrow> 'x Ingest \<Rightarrow> string \<Rightarrow> bool" where
  "unread_ok h s p \<longleftrightarrow> in_disk s p = Some (Regular (text_of s p)) \<and> (is_open s p \<or> batches_of (basename_of p) h = [])"

definition settled_ok ::
    "syscalls \<Rightarrow> FileDirs \<Rightarrow> (string \<Rightarrow> CdrRecord option) \<Rightarrow> (string \<Rightarrow> u64) \<Rightarrow> history \<Rightarrow> 'x Ingest \<Rightarrow> string \<Rightarrow> bool" where
  "settled_ok sys dirs parser base h s p \<longleftrightarrow>
     settled dirs (in_stop s) (in_disk s) p (text_of s p) (yield_of sys parser base s p) (batches_of (basename_of p) h)"

definition ingest_inv ::
    "syscalls \<Rightarrow> FileDirs \<Rightarrow> (string \<Rightarrow> CdrRecord option) \<Rightarrow> (string \<Rightarrow> u64) \<Rightarrow> history \<Rightarrow> 'x Ingest \<Rightarrow> bool" where
  "ingest_inv sys dirs parser base h s \<longleftrightarrow>
     pool_inv (in_pool s) \<and> dom (in_given s) = set (p_accepted (in_pool s)) \<and> plain dirs (in_disk s)
     \<and> (\<forall>i src. in_source s i = Some src \<longrightarrow> source_ok sys parser base h s i src)
     \<and> (\<forall>p. p \<in> set (p_accepted (in_pool s)) \<longrightarrow> p \<notin> set (p_finished (in_pool s)) \<longrightarrow> unread_ok h s p)
     \<and> (\<forall>p. p \<in> set (p_finished (in_pool s)) \<longrightarrow> settled_ok sys dirs parser base h s p)
     \<and> (\<forall>n. batches_of n h \<noteq> [] \<longrightarrow> n \<in> basename_of ` set (p_accepted (in_pool s)))"

lemma ingest_invD:
  assumes "ingest_inv sys dirs parser base h s"
  shows "pool_inv (in_pool s)" "dom (in_given s) = set (p_accepted (in_pool s))" "plain dirs (in_disk s)"
    "in_source s i = Some src \<Longrightarrow> source_ok sys parser base h s i src"
    "p \<in> set (p_accepted (in_pool s)) \<Longrightarrow> p \<notin> set (p_finished (in_pool s)) \<Longrightarrow> unread_ok h s p"
    "p \<in> set (p_finished (in_pool s)) \<Longrightarrow> settled_ok sys dirs parser base h s p"
    "batches_of n h \<noteq> [] \<Longrightarrow> n \<in> basename_of ` set (p_accepted (in_pool s))"
  using assms by (simp_all add: ingest_inv_def)

lemma ingest_invI:
  assumes "pool_inv (in_pool s)" "dom (in_given s) = set (p_accepted (in_pool s))" "plain dirs (in_disk s)"
    "\<And>i src. in_source s i = Some src \<Longrightarrow> source_ok sys parser base h s i src"
    "\<And>p. p \<in> set (p_accepted (in_pool s)) \<Longrightarrow> p \<notin> set (p_finished (in_pool s)) \<Longrightarrow> unread_ok h s p"
    "\<And>p. p \<in> set (p_finished (in_pool s)) \<Longrightarrow> settled_ok sys dirs parser base h s p"
    "\<And>n. batches_of n h \<noteq> [] \<Longrightarrow> n \<in> basename_of ` set (p_accepted (in_pool s))"
  shows "ingest_inv sys dirs parser base h s"
  using assms by (simp add: ingest_inv_def)

text \<open>What the steps do to the pool.\<close>

lemma finish_simps [simp]:
  "p_accepted (finish i t pl) = p_accepted pl" "p_finished (finish i t pl) = p_finished pl @ [t]"
  "p_workers (finish i t pl) = (p_workers pl)[i := Idle]" "p_queue (finish i t pl) = p_queue pl"
  "p_stop (finish i t pl) = p_stop pl" "p_capacity (finish i t pl) = p_capacity pl"
  by (simp_all add: finish_def)

lemma finish_inv:
  "pool_inv pl \<Longrightarrow> i < length (p_workers pl) \<Longrightarrow> p_workers pl ! i = Running t \<Longrightarrow> pool_inv (finish i t pl)"
  using pool_step_inv [OF finished, of i pl t] by (simp add: finish_def)

lemma submit_simps:
  assumes "submit p pl = Some (b, pl')"
  shows "p_workers pl' = p_workers pl" "p_finished pl' = p_finished pl"
    "p_accepted pl' = (if b then p_accepted pl @ [p] else p_accepted pl)"
  using assms by (auto simp: submit_def split: if_splits)

lemma take_simps:
  assumes "take_task i pl = Some pl'"
  shows "p_accepted pl' = p_accepted pl" "p_finished pl' = p_finished pl"
    "\<exists>w. p_workers pl' = (p_workers pl)[i := w]"
  using assms by (auto simp: take_task_def split: if_splits list.splits)

lemma finished_accepted: "pool_inv pl \<Longrightarrow> t \<in> set (p_finished pl) \<Longrightarrow> t \<in> set (p_accepted pl)"
proof -
  assume "pool_inv pl" "t \<in> set (p_finished pl)"
  then have "t \<in># mset (p_started pl)" "p_accepted pl = p_started pl @ p_queue pl" by (simp_all add: pool_inv_def)
  then show ?thesis by simp
qed

text \<open>The tasks accepted only grow, and only by a submission.\<close>

lemma work_accepted: "work_step sys dirs parser sk s s' \<Longrightarrow> p_accepted (in_pool s') = p_accepted (in_pool s)"
  by (induction rule: work_step.induct) (auto dest: take_simps(1))

lemma step_accepted: "ingest_step sys dirs parser sk s s' \<Longrightarrow> \<exists>qs. p_accepted (in_pool s') = p_accepted (in_pool s) @ qs"
  by (induction rule: ingest_step.induct)
    (auto dest: submit_simps(3) work_accepted split: if_splits)

text \<open>What a step leaves alone.\<close>

lemma unread_frame:
  assumes "unread_ok h s q" "in_disk s' q = in_disk s q" "text_of s' q = text_of s q" "is_open s q \<Longrightarrow> is_open s' q"
    "batches_of (basename_of q) h' = batches_of (basename_of q) h"
  shows "unread_ok h' s' q"
  using assms by (auto simp: unread_ok_def)

lemma settled_frame:
  assumes "settled_ok sys dirs parser base h s q" "in_stop s \<Longrightarrow> in_stop s'" "text_of s' q = text_of s q"
    "in_disk s' q = in_disk s q" "in_disk s' (done_path dirs q) = in_disk s (done_path dirs q)"
    "in_disk s' (fail_path dirs q) = in_disk s (fail_path dirs q)"
    "batches_of (basename_of q) h' = batches_of (basename_of q) h"
  shows "settled_ok sys dirs parser base h' s' q"
  using assms by (auto simp: settled_ok_def settled_def yield_of_def split: option.split)

lemma source_frame:
  assumes "source_ok sys parser base h s i src" "p_workers (in_pool s') ! i = p_workers (in_pool s) ! i"
    "length (p_workers (in_pool s')) = length (p_workers (in_pool s))"
    "\<And>p. p_workers (in_pool s) ! i = Running p \<Longrightarrow>
       text_of s' p = text_of s p \<and> batches_of (basename_of p) h' = batches_of (basename_of p) h"
  shows "source_ok sys parser base h' s' i src"
  using assms by (auto simp: source_ok_def yield_of_def)

text \<open>The situation all steps start from.\<close>

lemma worker_task:
  assumes "ingest_inv sys dirs parser base h s" "apart dirs (p_accepted (in_pool s))"
    "i < length (p_workers (in_pool s))" "p_workers (in_pool s) ! i = Running p"
  shows "p \<in> set (p_accepted (in_pool s))" "p \<notin> set (p_finished (in_pool s))"
    "j < length (p_workers (in_pool s)) \<Longrightarrow> p_workers (in_pool s) ! j = Running p \<Longrightarrow> j = i"
    "in_disk s p = Some (Regular (text_of s p))"
    "in_source s i = None \<Longrightarrow> batches_of (basename_of p) h = []"
    "in_source s i = Some src \<Longrightarrow> reading parser (yield_of sys parser base s p) (batches_of (basename_of p) h) src"
proof -
  have d: "distinct (p_accepted (in_pool s))" using assms(2) by (auto simp: apart_def distinct_map)
  note r = pool_running [OF ingest_invD(1) [OF assms(1)] d assms(3,4)]
  show 1: "p \<in> set (p_accepted (in_pool s))" "p \<notin> set (p_finished (in_pool s))" by (rule r(1), rule r(2))
  show 2: "j < length (p_workers (in_pool s)) \<Longrightarrow> p_workers (in_pool s) ! j = Running p \<Longrightarrow> j = i" for j by (rule r(3))
  note u = ingest_invD(5) [OF assms(1) 1]
  then show "in_disk s p = Some (Regular (text_of s p))" by (simp add: unread_ok_def)
  show "batches_of (basename_of p) h = []" if "in_source s i = None"
  proof -
    have "\<not> is_open s p"
    proof
      assume "is_open s p"
      then obtain j src where j: "in_source s j = Some src" "p_workers (in_pool s) ! j = Running p" by (auto simp: is_open_def)
      then have "j < length (p_workers (in_pool s))" using ingest_invD(4) [OF assms(1)] by (auto simp: source_ok_def)
      then show False using 2 j that by auto
    qed
    then show ?thesis using u by (simp add: unread_ok_def)
  qed
  show "reading parser (yield_of sys parser base s p) (batches_of (basename_of p) h) src" if "in_source s i = Some src"
    using ingest_invD(4) [OF assms(1) that] assms(4) by (auto simp: source_ok_def)
qed

section \<open>Every step keeps it\<close>

lemma inv_submitted:
  assumes "ingest_inv sys dirs parser base h s" "apart dirs (p_accepted pl)"
    "in_disk s p = Some (Regular t)" "submit p (in_pool s) = Some (b, pl)"
  shows "ingest_inv sys dirs parser base h
    (s\<lparr>in_pool := pl, in_given := if b then (in_given s)(p \<mapsto> t) else in_given s\<rparr>)" (is "ingest_inv _ _ _ _ _ ?s'")
proof (cases b)
  case False
  then have "pl = in_pool s" using assms(4) by (auto simp: submit_def split: if_splits)
  then show ?thesis using assms(1) False by simp
next
  case True
  note I = ingest_invD [OF assms(1)]
  note pl = submit_simps [OF assms(4)]
  have acc: "p_accepted pl = p_accepted (in_pool s) @ [p]" using pl(3) True by simp
  have new: "p \<notin> set (p_accepted (in_pool s))" "basename_of p \<notin> basename_of ` set (p_accepted (in_pool s))"
    using assms(2) by (auto simp: acc apart_def)
  have apart: "apart dirs (p_accepted (in_pool s))" using assms(2) apart_prefix unfolding acc by blast
  have t: "text_of ?s' q = text_of s q" if "q \<in> set (p_accepted (in_pool s))" for q
    using that new(1) True by (auto simp: text_of_def)
  have op: "is_open ?s' q = is_open s q" for q by (simp add: is_open_def pl(1))
  show ?thesis
  proof (rule ingest_invI)
    show "pool_inv (in_pool ?s')" using pool_step_inv [OF pool_step.submitted [OF assms(4)] I(1)] by simp
    show "dom (in_given ?s') = set (p_accepted (in_pool ?s'))" using I(2) True by (simp add: acc)
    show "plain dirs (in_disk ?s')" using I(3) by simp
  next
    fix i src assume "in_source ?s' i = Some src"
    then have so: "source_ok sys parser base h s i src" using I(4) by simp
    then show "source_ok sys parser base h ?s' i src"
      using worker_task(1) [OF assms(1) apart] t by (intro source_frame [OF so]) (auto simp: pl(1) source_ok_def)
  next
    fix q assume q: "q \<in> set (p_accepted (in_pool ?s'))" "q \<notin> set (p_finished (in_pool ?s'))"
    show "unread_ok h ?s' q"
    proof (cases "q = p")
      case True
      then show ?thesis using I(7) [of "basename_of p"] new(2) assms(3) \<open>b\<close>
        by (auto simp: unread_ok_def text_of_def)
    next
      case False
      then have qa: "q \<in> set (p_accepted (in_pool s))" "q \<notin> set (p_finished (in_pool s))" using q by (auto simp: acc pl(2))
      show ?thesis by (rule unread_frame [OF I(5) [OF qa]]) (simp_all add: t [OF qa(1), simplified] op [simplified])
    qed
  next
    fix q assume "q \<in> set (p_finished (in_pool ?s'))"
    then have q: "q \<in> set (p_finished (in_pool s))" by (simp add: pl(2))
    show "settled_ok sys dirs parser base h ?s' q"
      by (rule settled_frame [OF I(6) [OF q]]) (simp_all add: t [OF finished_accepted [OF I(1) q], simplified])
  next
    fix n assume "batches_of n h \<noteq> []"
    then show "n \<in> basename_of ` set (p_accepted (in_pool ?s'))" using I(7) by (auto simp: acc)
  qed
qed

lemma inv_taken:
  assumes "ingest_inv sys dirs parser base h s" "apart dirs (p_accepted (in_pool s))"
    "i < length (p_workers (in_pool s))" "p_workers (in_pool s) ! i = Idle" "take_task i (in_pool s) = Some pl"
  shows "ingest_inv sys dirs parser base h (s\<lparr>in_pool := pl\<rparr>)" (is "ingest_inv _ _ _ _ _ ?s'")
proof -
  note I = ingest_invD [OF assms(1)]
  obtain w where pl: "p_accepted pl = p_accepted (in_pool s)" "p_finished pl = p_finished (in_pool s)"
      "p_workers pl = (p_workers (in_pool s))[i := w]" using take_simps [OF assms(5)] by blast
  have other: "j \<noteq> i" if "in_source s j = Some src" for j src
    using I(4) [OF that] assms(4) by (auto simp: source_ok_def)
  have t: "text_of ?s' q = text_of s q" for q by simp
  have op: "is_open s q \<Longrightarrow> is_open ?s' q" for q
    unfolding is_open_def using other by (fastforce simp: pl(3))
  show ?thesis
  proof (rule ingest_invI)
    show "pool_inv (in_pool ?s')" using pool_step_inv [OF pool_step.taken [OF assms(3-5)] I(1)] by simp
    show "dom (in_given ?s') = set (p_accepted (in_pool ?s'))" "plain dirs (in_disk ?s')" using I(2,3) by (simp_all add: pl)
    show "source_ok sys parser base h ?s' j src" if "in_source ?s' j = Some src" for j src
    proof -
      have j: "in_source s j = Some src" using that by simp
      show ?thesis using other [OF j] by (intro source_frame [OF I(4) [OF j]]) (simp_all add: pl(3) t)
    qed
    show "unread_ok h ?s' q" if "q \<in> set (p_accepted (in_pool ?s'))" "q \<notin> set (p_finished (in_pool ?s'))" for q
    proof -
      have q: "q \<in> set (p_accepted (in_pool s))" "q \<notin> set (p_finished (in_pool s))" using that by (simp_all add: pl)
      show ?thesis using op by (intro unread_frame [OF I(5) [OF q]]) (simp_all add: t)
    qed
    show "settled_ok sys dirs parser base h ?s' q" if "q \<in> set (p_finished (in_pool ?s'))" for q
    proof -
      have q: "q \<in> set (p_finished (in_pool s))" using that by (simp add: pl)
      show ?thesis by (rule settled_frame [OF I(6) [OF q]]) (simp_all add: t)
    qed
    show "n \<in> basename_of ` set (p_accepted (in_pool ?s'))" if "batches_of n h \<noteq> []" for n
      using I(7) [OF that] by (simp add: pl)
  qed
qed

text \<open>
  A worker that finishes: with the disk as it leaves it, its own file must be settled, and the disk
  the same for all others.
\<close>

lemma inv_finish:
  assumes "ingest_inv sys dirs parser base h s" "apart dirs (p_accepted (in_pool s))"
    "i < length (p_workers (in_pool s))" "p_workers (in_pool s) ! i = Running p"
    and s'_def: "s' = s\<lparr>in_disk := disk, in_source := (in_source s)(i := None), in_pool := finish i p (in_pool s)\<rparr>"
    and "settled_ok sys dirs parser base h s' p" "plain dirs disk"
    "\<And>q. q \<in> set (p_accepted (in_pool s)) \<Longrightarrow> q \<noteq> p \<Longrightarrow> disk q = in_disk s q
       \<and> disk (done_path dirs q) = in_disk s (done_path dirs q) \<and> disk (fail_path dirs q) = in_disk s (fail_path dirs q)"
  shows "ingest_inv sys dirs parser base h s'"
proof -
  note I = ingest_invD [OF assms(1)]
  note W = worker_task [OF assms(1-4)]
  have t: "text_of s' q = text_of s q" for q by (simp add: s'_def)
  have src: "j \<noteq> i \<and> in_source s j = Some src" if "in_source s' j = Some src" for j src
    using that by (auto simp: s'_def split: if_splits)
  have op: "is_open s q \<Longrightarrow> q \<noteq> p \<Longrightarrow> is_open s' q" for q
  proof -
    assume "is_open s q" "q \<noteq> p"
    then obtain j src where j: "in_source s j = Some src" "p_workers (in_pool s) ! j = Running q"
      by (auto simp: is_open_def)
    then have "j \<noteq> i" using assms(4) \<open>q \<noteq> p\<close> by auto
    with j have "in_source s' j = Some src" "p_workers (in_pool s') ! j = Running q" by (simp_all add: s'_def)
    then show "is_open s' q" unfolding is_open_def by blast
  qed
  have fin: "q \<in> set (p_finished (in_pool s')) \<longleftrightarrow> q = p \<or> q \<in> set (p_finished (in_pool s))" for q by (auto simp: s'_def)
  show ?thesis
  proof (rule ingest_invI)
    show "pool_inv (in_pool s')" using finish_inv [OF I(1) assms(3,4)] by (simp add: s'_def)
    show "dom (in_given s') = set (p_accepted (in_pool s'))" "plain dirs (in_disk s')" using I(2) assms(7) by (simp_all add: s'_def)
    show "source_ok sys parser base h s' j src" if "in_source s' j = Some src" for j src
      using src [OF that] by (intro source_frame [OF I(4)]) (auto simp: s'_def)
    show "unread_ok h s' q" if "q \<in> set (p_accepted (in_pool s'))" "q \<notin> set (p_finished (in_pool s'))" for q
    proof -
      have q: "q \<in> set (p_accepted (in_pool s))" "q \<notin> set (p_finished (in_pool s))" "q \<noteq> p"
        using that fin by (auto simp: s'_def)
      have "in_disk s' q = in_disk s q" using assms(8) [OF q(1,3)] by (simp add: s'_def)
      then show ?thesis using op [OF _ q(3)] by (intro unread_frame [OF I(5) [OF q(1,2)]]) (simp_all add: t)
    qed
    show "settled_ok sys dirs parser base h s' q" if "q \<in> set (p_finished (in_pool s'))" for q
    proof (cases "q = p")
      case False
      then have q: "q \<in> set (p_finished (in_pool s))" using that fin by blast
      show ?thesis using assms(8) [OF finished_accepted [OF I(1) q] False]
        by (intro settled_frame [OF I(6) [OF q]]) (simp_all add: s'_def)
    qed (use assms(6) in simp)
    show "n \<in> basename_of ` set (p_accepted (in_pool s'))" if "batches_of n h \<noteq> []" for n
      using I(7) [OF that] by (simp add: s'_def)
  qed
qed

lemma inv_skipped:
  assumes "ingest_inv sys dirs parser base h s" "apart dirs (p_accepted (in_pool s))"
    "i < length (p_workers (in_pool s))" "p_workers (in_pool s) ! i = Running p" "in_source s i = None" "in_stop s"
  shows "ingest_inv sys dirs parser base h (s\<lparr>in_pool := finish i p (in_pool s)\<rparr>)"
proof -
  let ?s' = "s\<lparr>in_disk := in_disk s, in_source := (in_source s)(i := None), in_pool := finish i p (in_pool s)\<rparr>"
  note W = worker_task [OF assms(1-4)]
  have "settled_ok sys dirs parser base h ?s' p"
    using W(4) W(5) [OF assms(5)] assms(6) by (simp add: settled_ok_def settled_def text_of_def)
  from inv_finish [OF assms(1-4) refl this ingest_invD(3) [OF assms(1)]]
  have "ingest_inv sys dirs parser base h ?s'" by simp
  moreover have "(in_source s)(i := None) = in_source s" using assms(5) by auto
  ultimately show ?thesis by simp
qed

lemma inv_closed:
  assumes "ingest_inv sys dirs parser base h s" "apart dirs (p_accepted (in_pool s))"
    "i < length (p_workers (in_pool s))" "p_workers (in_pool s) ! i = Running p" "in_source s i = Some src"
    "source_next parser src = (st, batch, src')" "st \<noteq> OK"
  shows "ingest_inv sys dirs parser base h
    (s\<lparr>in_disk := dispose dirs p (st = DONE) (in_disk s), in_source := (in_source s)(i := None),
       in_pool := finish i p (in_pool s)\<rparr>)" (is "ingest_inv _ _ _ _ _ ?s'")
proof -
  note W = worker_task [OF assms(1-4)]
  note A = apart_paths [OF assms(2)]
  let ?dest = "if st = DONE then done_path dirs p else fail_path dirs p" and ?disk = "in_disk s"
  have pl: "plain dirs ?disk" by (rule ingest_invD(3) [OF assms(1)])
  then have "?disk ?dest \<noteq> Some Directory" by (simp add: plain_def done_path_def fail_path_def)
  then have d: "dispose dirs p (st = DONE) ?disk = (?disk(p := None))(?dest := ?disk p)"
    using W(4) by (auto simp: dispose_def rename_file_def done_path_def fail_path_def Let_def)
  have ne: "p \<noteq> ?dest" using A(1,2) [OF W(1) W(1)] by simp
  have "settled_ok sys dirs parser base h ?s' p"
  proof (cases "f_failed src")
    case True
    then have "st = FAIL" using assms(6) source_failed [of src parser] by simp
    then show ?thesis using True W(4) W(6) [OF assms(5)] ne d
      by (simp add: settled_ok_def settled_def reading_def yield_of_def)
  next
    case False
    then have "st = DONE" "left parser src = []" using assms(6,7) source_next_spec [of src parser st batch src'] by auto
    then show ?thesis using False W(4) W(6) [OF assms(5)] ne d
      by (simp add: settled_ok_def settled_def reading_def yield_of_def)
  qed
  moreover have "plain dirs (dispose dirs p (st = DONE) ?disk)" using pl W(4) by (simp add: plain_def d)
  moreover have "dispose dirs p (st = DONE) ?disk q = ?disk q
       \<and> dispose dirs p (st = DONE) ?disk (done_path dirs q) = ?disk (done_path dirs q)
       \<and> dispose dirs p (st = DONE) ?disk (fail_path dirs q) = ?disk (fail_path dirs q)"
    if q: "q \<in> set (p_accepted (in_pool s))" "q \<noteq> p" for q
    using A [OF q(1) W(1)] A [OF W(1) q(1)] q(2) by (auto simp: d)
  ultimately show ?thesis using inv_finish [OF assms(1-4) refl] by simp
qed

text \<open>A worker that goes on with its file: only what belongs to this file may change.\<close>

lemma is_open_working:
  assumes "p_workers (in_pool s) ! i = Running p" "s' = s\<lparr>in_sink := x, in_source := (in_source s)(i \<mapsto> src)\<rparr>"
    and open_or: "is_open s q \<or> q = p"
  shows "is_open s' q"
proof (cases "q = p")
  case True
  have "in_source s' i = Some src" "p_workers (in_pool s') ! i = Running q" using assms(1) True by (simp_all add: assms(2))
  then show ?thesis unfolding is_open_def by blast
next
  case False
  then obtain j sr where j: "in_source s j = Some sr" "p_workers (in_pool s) ! j = Running q"
    using open_or by (auto simp: is_open_def)
  then have "j \<noteq> i" using assms(1) False by auto
  with j have "in_source s' j = Some sr" "p_workers (in_pool s') ! j = Running q" by (simp_all add: assms(2))
  then show ?thesis unfolding is_open_def by blast
qed

lemma inv_working:
  assumes "ingest_inv sys dirs parser base h s" "apart dirs (p_accepted (in_pool s))"
    "i < length (p_workers (in_pool s))" "p_workers (in_pool s) ! i = Running p"
    and s'_def: "s' = s\<lparr>in_sink := x, in_source := (in_source s)(i \<mapsto> src)\<rparr>"
    and "reading parser (yield_of sys parser base s p) (batches_of (basename_of p) h') src"
    "\<And>n. n \<noteq> basename_of p \<Longrightarrow> batches_of n h' = batches_of n h"
  shows "ingest_inv sys dirs parser base h' s'"
proof -
  note I = ingest_invD [OF assms(1)]
  note W = worker_task [OF assms(1-4)]
  have same: "batches_of (basename_of q) h' = batches_of (basename_of q) h"
    if "q \<in> set (p_accepted (in_pool s))" "q \<noteq> p" for q
    using assms(7) apart_inj [OF assms(2) that(1) W(1)] that(2) by blast
  have op: "is_open s' q" if "is_open s q \<or> q = p" for q
    by (rule is_open_working [OF assms(4) s'_def that])
  have disk: "in_disk s' = in_disk s" "text_of s' = text_of s" by (simp_all add: s'_def)
  show ?thesis
  proof (rule ingest_invI)
    show "pool_inv (in_pool s')" "dom (in_given s') = set (p_accepted (in_pool s'))" "plain dirs (in_disk s')"
      using I(1-3) by (simp_all add: s'_def)
    show "source_ok sys parser base h' s' j sr" if "in_source s' j = Some sr" for j sr
    proof (cases "j = i")
      case True
      then show ?thesis using that assms(3,4,6) by (simp add: source_ok_def yield_of_def s'_def)
    next
      case False
      then have j: "in_source s j = Some sr" using that by (simp add: s'_def)
      note so = I(4) [OF this]
      have "batches_of (basename_of q) h' = batches_of (basename_of q) h" if "p_workers (in_pool s) ! j = Running q" for q
      proof (rule same)
        have l: "j < length (p_workers (in_pool s))" using so by (simp add: source_ok_def)
        show "q \<in> set (p_accepted (in_pool s))" by (rule worker_task(1) [OF assms(1,2) l that])
        show "q \<noteq> p" using W(3) [OF l] that False by auto
      qed
      then show ?thesis by (intro source_frame [OF so]) (simp_all add: s'_def)
    qed
    show "unread_ok h' s' q" if "q \<in> set (p_accepted (in_pool s'))" "q \<notin> set (p_finished (in_pool s'))" for q
    proof -
      have q: "q \<in> set (p_accepted (in_pool s))" "q \<notin> set (p_finished (in_pool s))" using that by (simp_all add: s'_def)
      show ?thesis
      proof (cases "q = p")
        case True
        then show ?thesis using W(4) op by (simp add: unread_ok_def disk)
      next
        case False
        show ?thesis using op by (intro unread_frame [OF I(5) [OF q]]) (simp_all add: disk same [OF q(1) False])
      qed
    qed
    show "settled_ok sys dirs parser base h' s' q" if "q \<in> set (p_finished (in_pool s'))" for q
    proof -
      have q: "q \<in> set (p_finished (in_pool s))" using that by (simp add: s'_def)
      then have "q \<noteq> p" using W(2) by auto
      then show ?thesis using same [OF finished_accepted [OF I(1) q]]
        by (intro settled_frame [OF I(6) [OF q]]) (simp_all add: disk, simp_all add: s'_def)
    qed
    show "n \<in> basename_of ` set (p_accepted (in_pool s'))" if "batches_of n h' \<noteq> []" for n
      using I(7) [of n] assms(7) [of n] W(1) that by (cases "n = basename_of p") (auto simp: s'_def)
  qed
qed

lemma inv_delivered:
  assumes "ingest_inv sys dirs parser base h s" "plain dirs disk"
    "\<And>p. p \<in> dom (in_given s) \<Longrightarrow> disk p = in_disk s p \<and> disk (done_path dirs p) = in_disk s (done_path dirs p)
      \<and> disk (fail_path dirs p) = in_disk s (fail_path dirs p)"
  shows "ingest_inv sys dirs parser base h (s\<lparr>in_disk := disk\<rparr>)"
proof -
  note I = ingest_invD [OF assms(1)]
  have d: "disk p = in_disk s p" "disk (done_path dirs p) = in_disk s (done_path dirs p)"
      "disk (fail_path dirs p) = in_disk s (fail_path dirs p)" if "p \<in> set (p_accepted (in_pool s))" for p
    using assms(3) that I(2) by simp_all
  show ?thesis
  proof (rule ingest_invI, simp_all add: I(1,2) assms(2))
    show "source_ok sys parser base h (s\<lparr>in_disk := disk\<rparr>) i src" if "in_source s i = Some src" for i src
      by (rule source_frame [OF I(4) [OF that]]) simp_all
    show "unread_ok h (s\<lparr>in_disk := disk\<rparr>) q" if "q \<in> set (p_accepted (in_pool s))" "q \<notin> set (p_finished (in_pool s))" for q
      by (rule unread_frame [OF I(5) [OF that]]) (simp_all add: d [OF that(1)] is_open_def)
    show "settled_ok sys dirs parser base h (s\<lparr>in_disk := disk\<rparr>) q" if "q \<in> set (p_finished (in_pool s))" for q
      by (rule settled_frame [OF I(6) [OF that]]) (simp_all add: d [OF finished_accepted [OF I(1) that]])
    show "n \<in> basename_of ` set (p_accepted (in_pool s))" if "batches_of n h \<noteq> []" for n by (rule I(7) [OF that])
  qed
qed

lemma inv_stops:
  assumes "ingest_inv sys dirs parser base h s"
  shows "ingest_inv sys dirs parser base h (s\<lparr>in_stop := True\<rparr>)"
    "ingest_inv sys dirs parser base h (s\<lparr>in_pool := (in_pool s)\<lparr>p_stop := True\<rparr>\<rparr>)"
  using assms
  by (auto simp: ingest_inv_def source_ok_def unread_ok_def settled_ok_def settled_def is_open_def yield_of_def pool_inv_def
      split: option.splits)

locale readers =
  fixes sk :: "nat \<Rightarrow> 'x ISink"
    and rel :: "history \<Rightarrow> 'x \<Rightarrow> bool"
    and base :: "string \<Rightarrow> u64"
  assumes each: "progress_sink (sk i) rel base"
begin

lemma work_inv:
  assumes "work_step sys dirs parser sk s s'" "ingest_inv sys dirs parser base h s" "rel h (in_sink s)"
    "apart dirs (p_accepted (in_pool s))"
  shows "\<exists>h'. ingest_inv sys dirs parser base h' s' \<and> rel h' (in_sink s')"
  using assms(1)
proof cases
  case (taken i pl)
  then show ?thesis using inv_taken [OF assms(2,4) taken(2-4)] assms(3) by auto
next
  case (skipped i p)
  then show ?thesis using inv_skipped [OF assms(2,4) skipped(2-5)] assms(3) by auto
next
  case (opened i p r x)
  note W = worker_task [OF assms(2,4) opened(2,3)]
  have x: "rel h x" "r = base (basename_of p)"
    using progress_sink.resume_law [OF each assms(3) opened(6)] applied_untouched [OF W(5) [OF opened(4)]] by simp_all
  let ?src = "open_source sys (in_disk s) p r"
  have "reading parser (yield_of sys parser base s p) (batches_of (basename_of p) h) ?src"
    using open_source_yield [of "in_disk s" p, OF W(4), of sys parser r] W(5) [OF opened(4)]
    by (simp add: reading_def yield_of_def x(2))
  from inv_working [OF assms(2,4) opened(2,3) opened(1) this] x(1) show ?thesis
    by (auto simp: opened(1))
next
  case (consumed i p src batch src')
  note W = worker_task [OF assms(2,4) consumed(2,3)]
  let ?n = "basename_of p"
  have "?n \<noteq> []" using apart_paths(4) [OF assms(4) W(1) W(1)] .
  from progress_sink.consume_law [OF each assms(3) this]
  have x: "rel (h @ [(?n, batch)]) (in_sink s')" by (simp add: consumed(1))
  have ok: "\<not> f_failed src" using consumed(5) source_failed [of src parser] by auto
  note sp = source_next_spec [OF ok consumed(5)]
  have "reading parser (yield_of sys parser base s p) (batches_of ?n (h @ [(?n, batch)])) src'"
    using W(6) [OF consumed(4)] ok sp by (simp add: reading_def)
  from inv_working [OF assms(2,4) consumed(2,3) consumed(1) this] x show ?thesis by auto
next
  case (closed i p src st batch src')
  then show ?thesis using inv_closed [OF assms(2,4) closed(2-6)] assms(3) by auto
next
  case stop_asked
  then show ?thesis using inv_stops(1) [OF assms(2)] assms(3) by auto
next
  case pool_stopped
  then show ?thesis using inv_stops(2) [OF assms(2)] assms(3) by auto
qed

lemma step_inv:
  assumes "ingest_step sys dirs parser sk s s'" "ingest_inv sys dirs parser base h s" "rel h (in_sink s)"
    "apart dirs (p_accepted (in_pool s'))"
  shows "\<exists>h'. ingest_inv sys dirs parser base h' s' \<and> rel h' (in_sink s')"
  using assms(1)
proof cases
  case (submitted p t b pl)
  then show ?thesis using inv_submitted [OF assms(2) _ submitted(2,3)] assms(3,4) by auto
next
  case (delivered disk)
  then show ?thesis using inv_delivered [OF assms(2) delivered(3)] assms(3) by auto
next
  case worked
  then show ?thesis using work_inv [OF _ assms(2,3)] assms(4) work_accepted by metis
qed

lemma start_inv:
  assumes "new_pool mc n c = Inr pl" "plain dirs disk"
  shows "ingest_inv sys dirs parser base [] (ingest_start pl disk x)"
  using new_pool_inv [OF assms(1)] assms
  by (auto simp: ingest_inv_def ingest_start_def new_pool_def split: if_splits)

lemma steps_inv:
  assumes "new_pool mc n c = Inr pl" "plain dirs disk" "rel [] x"
    "(ingest_step sys dirs parser sk)\<^sup>*\<^sup>* (ingest_start pl disk x) s" "apart dirs (p_accepted (in_pool s))"
  shows "\<exists>h. ingest_inv sys dirs parser base h s \<and> rel h (in_sink s)"
  using assms(4,5)
proof (induction rule: rtranclp_induct)
  case base
  then show ?case using start_inv [OF assms(1,2)] assms(3)
    by (intro exI [of _ "[]"] conjI) (simp_all add: ingest_start_def)
next
  case (step s s')
  then have "apart dirs (p_accepted (in_pool s))" using step_accepted apart_prefix by metis
  with step obtain h where "ingest_inv sys dirs parser base h s" "rel h (in_sink s)" by blast
  from step_inv [OF step(2) this step.prems] show ?case .
qed

end

text \<open>On this system's own sink: one server, each worker on its own connection.\<close>

sublocale reliable_redis \<subseteq> threads: readers "thread_sink E" "shared_rel c0" "\<lambda>src. progress src c0" for c0
  by (intro readers.intro thread_contract)

section \<open>All files together\<close>

lemma all_records_by_file:
  assumes "distinct ns" "\<And>n. batches_of n h \<noteq> [] \<Longrightarrow> n \<in> set ns"
  shows "mset (all_records h) = mset (concat (map (\<lambda>n. concat (batches_of n h)) ns))"
proof -
  have "mset (all_records h) = (\<Sum>n \<in> set ns. mset (concat (batches_of n h)))"
    using assms(2)
  proof (induction h rule: rev_induct)
    case (snoc e h)
    obtain src b where e: "e = (src, b)" by (cases e)
    have "src \<in> set ns" using snoc.prems [of src] by (simp add: e)
    moreover have "\<And>n. batches_of n h \<noteq> [] \<Longrightarrow> n \<in> set ns" using snoc.prems by (simp add: e)
    ultimately show ?case using snoc.IH
      by (simp add: e if_distrib [of concat] if_distrib [of mset] sum.distrib sum.delta cong: if_cong)
  qed simp
  then show ?thesis
    using sum_list_distinct_conv_sum_set [OF assms(1), of "\<lambda>n. mset (concat (batches_of n h))"]
    by (simp add: mset_concat comp_def)
qed

text \<open>When every file is finished, none was skipped and all could be read.\<close>

lemma all_settled_records:
  assumes "ingest_inv sys dirs parser base h s" "apart dirs (p_accepted (in_pool s))" "\<not> in_stop s"
    "set (p_finished (in_pool s)) = set (p_accepted (in_pool s))"
    "\<And>p. p \<in> set (p_accepted (in_pool s)) \<Longrightarrow> yield_of sys parser base s p = Some (rs p)"
  shows "mset (all_records h) = mset (concat (map rs (p_accepted (in_pool s))))"
proof -
  let ?acc = "p_accepted (in_pool s)"
  have d: "distinct (map basename_of ?acc)" using assms(2) by (simp add: apart_def)
  have "concat (batches_of (basename_of p) h) = rs p" if "p \<in> set ?acc" for p
    using ingest_invD(6) [OF assms(1), of p] assms(3,4,5) that by (auto simp: settled_ok_def settled_def)
  then have "map (\<lambda>n. concat (batches_of n h)) (map basename_of ?acc) = map rs ?acc" by simp
  moreover have "mset (all_records h) = mset (concat (map (\<lambda>n. concat (batches_of n h)) (map basename_of ?acc)))"
    by (rule all_records_by_file [OF d]) (use ingest_invD(7) [OF assms(1)] in simp)
  ultimately show ?thesis by metis
qed

section \<open>The workers get through\<close>

text \<open>A running task is finished by its worker, whatever state it is in.\<close>

lemma worker_finishes:
  assumes "i < length (p_workers (in_pool s))" "p_workers (in_pool s) ! i = Running p"
  shows "\<exists>s'. (work_step sys dirs parser sk)\<^sup>*\<^sup>* s s' \<and> in_pool s' = finish i p (in_pool s) \<and> in_stop s' = in_stop s
    \<and> in_given s' = in_given s"
proof (cases "in_source s i")
  case None
  obtain disk x where "process sys dirs (sk i) parser (in_stop s) p (in_disk s, in_sink s) = (disk, x)" by (rule prod.exhaust)
  from worker_alone [where sk = sk, OF assms None this] show ?thesis
    by (intro exI [of _ "s\<lparr>in_disk := disk, in_sink := x, in_source := (in_source s)(i := None), in_pool := finish i p (in_pool s)\<rparr>"]) simp
next
  case (Some src)
  obtain st x where "process_loop (sk i) parser (basename_of p) src (in_sink s) = (st, x)" by (rule prod.exhaust)
  from worker_loop [where sk = sk, OF assms Some this] show ?thesis
    by (intro exI [of _ "s\<lparr>in_disk := dispose dirs p (st = DONE) (in_disk s), in_sink := x,
        in_source := (in_source s)(i := None), in_pool := finish i p (in_pool s)\<rparr>"]) simp
qed

lemma running_none: "(\<And>w t. w \<in> set ws \<Longrightarrow> w \<noteq> Running t) \<Longrightarrow> running ws = {#}"
proof (induction ws)
  case (Cons w ws)
  then show ?case by (cases w) auto
qed simp

text \<open>What finishing the work leaves as it was.\<close>

definition kept :: "'x Ingest \<Rightarrow> 'x Ingest \<Rightarrow> bool" where
  "kept s s' \<longleftrightarrow> in_stop s' = in_stop s \<and> in_given s' = in_given s
     \<and> p_accepted (in_pool s') = p_accepted (in_pool s) \<and> p_stop (in_pool s') = p_stop (in_pool s)
     \<and> p_capacity (in_pool s') = p_capacity (in_pool s) \<and> length (p_workers (in_pool s')) = length (p_workers (in_pool s))"

lemma workers_finish:
  assumes "pool_inv (in_pool s)" "p_workers (in_pool s) \<noteq> []"
  shows "\<exists>s'. (work_step sys dirs parser sk)\<^sup>*\<^sup>* s s' \<and> kept s s' \<and> set (p_finished (in_pool s')) = set (p_accepted (in_pool s'))"
  using assms
proof (induction "2 * length (p_queue (in_pool s)) + size (running (p_workers (in_pool s)))" arbitrary: s rule: less_induct)
  case less
  note m = less.prems(1) [unfolded pool_inv_def]
  show ?case
  proof (cases "\<exists>i p. i < length (p_workers (in_pool s)) \<and> p_workers (in_pool s) ! i = Running p")
    case True
    then obtain i p where ip: "i < length (p_workers (in_pool s))" "p_workers (in_pool s) ! i = Running p" by blast
    obtain s1 where s1: "(work_step sys dirs parser sk)\<^sup>*\<^sup>* s s1" "in_pool s1 = finish i p (in_pool s)" "in_stop s1 = in_stop s" "in_given s1 = in_given s"
      using worker_finishes [OF ip, of sys dirs parser sk] by blast
    have "pool_inv (in_pool s1)" "p_workers (in_pool s1) \<noteq> []"
      using finish_inv [OF less.prems(1) ip] less.prems(2) by (simp_all add: s1(2))
    moreover have "2 * length (p_queue (in_pool s1)) + size (running (p_workers (in_pool s1)))
        < 2 * length (p_queue (in_pool s)) + size (running (p_workers (in_pool s)))"
      using running_finish [OF ip] by (simp add: s1(2))
    ultimately obtain s2 where "(work_step sys dirs parser sk)\<^sup>*\<^sup>* s1 s2" "kept s1 s2" "set (p_finished (in_pool s2)) = set (p_accepted (in_pool s2))"
      using less.hyps by blast
    then show ?thesis using s1 by (intro exI [of _ s2]) (simp add: rtranclp_trans kept_def)
  next
    case none: False
    then have r: "running (p_workers (in_pool s)) = {#}" by (intro running_none) (auto simp: in_set_conv_nth)
    show ?thesis
    proof (cases "p_queue (in_pool s)")
      case Nil
      then have "set (p_finished (in_pool s)) = set (p_accepted (in_pool s))"
        using m r by (metis add.right_neutral append_Nil2 set_mset_mset)
      then show ?thesis by (intro exI [of _ s]) (simp add: kept_def)
    next
      case (Cons t ts)
      then have "Exited \<notin> set (p_workers (in_pool s))" using m by auto
      then have i: "0 < length (p_workers (in_pool s))" "p_workers (in_pool s) ! 0 = Idle"
        using none less.prems(2) nth_mem [of 0 "p_workers (in_pool s)"]
        by (simp, cases "p_workers (in_pool s) ! 0") auto
      obtain pl where pl: "take_task 0 (in_pool s) = Some pl" "p_queue pl = ts"
          "p_workers pl = (p_workers (in_pool s))[0 := Running t]" "p_accepted pl = p_accepted (in_pool s)"
        using Cons by (simp add: take_task_def)
      let ?s = "s\<lparr>in_pool := pl\<rparr>"
      have st: "work_step sys dirs parser sk s ?s" by (rule taken [OF i pl(1)])
      have "pool_inv (in_pool ?s)" "p_workers (in_pool ?s) \<noteq> []"
        using pool_step_inv [OF pool_step.taken [OF i pl(1)] less.prems(1)] less.prems(2) by (simp_all add: pl(3))
      moreover have "2 * length (p_queue (in_pool ?s)) + size (running (p_workers (in_pool ?s)))
          < 2 * length (p_queue (in_pool s)) + size (running (p_workers (in_pool s)))"
        using running_start [OF i, of t] by (simp add: pl Cons)
      ultimately obtain s2 where "(work_step sys dirs parser sk)\<^sup>*\<^sup>* ?s s2" "kept ?s s2" "set (p_finished (in_pool s2)) = set (p_accepted (in_pool s2))"
        using less.hyps by blast
      moreover have "kept s ?s" using pl Cons by (auto simp: kept_def take_task_def)
      ultimately show ?thesis using st
        by (intro exI [of _ s2]) (auto simp: kept_def intro: converse_rtranclp_into_rtranclp)
    qed
  qed
qed

text \<open>All that happens to the pool are its own steps.\<close>

lemma work_pool:
  "work_step sys dirs parser sk s s' \<Longrightarrow> in_pool s' = in_pool s \<or> pool_step (in_pool s) (in_pool s')"
proof (induction rule: work_step.induct)
  case (taken i s pl)
  then show ?case using pool_step.taken [OF taken(1-3)] by simp
next
  case (skipped i s p)
  then show ?case using pool_step.finished [of i "in_pool s" p] by (simp add: finish_def)
next
  case (closed i s p src st batch src')
  then show ?case using pool_step.finished [of i "in_pool s" p] by (simp add: finish_def)
next
  case (pool_stopped s)
  then show ?case using pool_step.stopped [of "in_pool s"] by simp
qed auto

lemma step_pool:
  "ingest_step sys dirs parser sk s s' \<Longrightarrow> in_pool s' = in_pool s \<or> pool_step (in_pool s) (in_pool s')"
proof (induction rule: ingest_step.induct)
  case (submitted s p t b pl)
  then show ?case using pool_step.submitted [OF submitted(2)] by simp
qed (auto dest: work_pool)

lemma pool_step_workers: "pool_step pl pl' \<Longrightarrow> length (p_workers pl') = length (p_workers pl)"
  by (induction rule: pool_step.induct) (auto simp: submit_def take_task_def split: if_splits list.splits)

lemma steps_pool:
  assumes "new_pool mc n c = Inr pl" "(ingest_step sys dirs parser sk)\<^sup>*\<^sup>* (ingest_start pl disk x) s"
  shows "pool_inv (in_pool s) \<and> p_workers (in_pool s) \<noteq> []"
  using assms(2)
proof (induction rule: rtranclp_induct)
  case base
  then show ?case using new_pool_inv [OF assms(1)] assms(1)
    by (auto simp: ingest_start_def new_pool_def split: if_splits)
next
  case (step s s')
  then show ?case using step_pool [OF step(2)] pool_step_inv [of "in_pool s" "in_pool s'"]
    pool_step_workers [of "in_pool s" "in_pool s'"] by auto
qed

text \<open>What the invariant says of one file.\<close>

lemma inv_file:
  assumes "ingest_inv sys dirs parser base h s" "apart dirs (p_accepted (in_pool s))" "p \<in> set (p_accepted (in_pool s))"
  shows "if p \<in> set (p_finished (in_pool s))
    then settled dirs (in_stop s) (in_disk s) p (text_of s p) (yield_of sys parser base s p) (batches_of (basename_of p) h)
    else in_disk s p = Some (Regular (text_of s p))
      \<and> (batches_of (basename_of p) h = [] \<or> (\<exists>rest. yield_of sys parser base s p = Some (concat (batches_of (basename_of p) h) @ rest)))"
proof (cases "p \<in> set (p_finished (in_pool s))")
  case True
  then show ?thesis using ingest_invD(6) [OF assms(1)] by (simp add: settled_ok_def)
next
  case False
  note u = ingest_invD(5) [OF assms(1,3) False]
  have "batches_of (basename_of p) h = [] \<or> (\<exists>rest. yield_of sys parser base s p = Some (concat (batches_of (basename_of p) h) @ rest))"
  proof (cases "is_open s p")
    case True
    then obtain i src where i: "in_source s i = Some src" "p_workers (in_pool s) ! i = Running p" by (auto simp: is_open_def)
    then have "reading parser (yield_of sys parser base s p) (batches_of (basename_of p) h) src"
      using ingest_invD(4) [OF assms(1) i(1)] by (auto simp: source_ok_def)
    then show ?thesis by (auto simp: reading_def split: if_splits)
  qed (use u in \<open>simp add: unread_ok_def\<close>)
  then show ?thesis using u False by (simp add: unread_ok_def)
qed

text \<open>A run with one file and two readers.\<close>

definition two_readers :: "string Pool" where
  "two_readers = \<lparr>p_queue = [], p_capacity = 4, p_stop = False, p_workers = [Idle, Idle], p_accepted = [], p_started = [], p_finished = []\<rparr>"

lemma two_readers_new: "new_pool roomy 2 4 = Inr two_readers"
proof -
  have "replicate 2 x = [x, x]" for x :: "'b" by (simp add: numeral_2_eq_2)
  then show ?thesis by (simp add: new_pool_def roomy_def kMaxThreads_def two_readers_def list_all_iff)
qed

lemma toy_plain: "plain toy_dirs toy_files"
  by (simp add: plain_def toy_dirs_def toy_files_def)

abbreviation toy_step :: "(RunTotals \<times> unit Shared) Ingest \<Rightarrow> (RunTotals \<times> unit Shared) Ingest \<Rightarrow> bool" where
  "toy_step \<equiv> ingest_step all_calls_ok toy_dirs toy_parser (thread_sink perfect_env)"

abbreviation toy_start :: "(RunTotals \<times> unit Shared) Ingest" where
  "toy_start \<equiv> ingest_start two_readers toy_files (zero_run, new_server [] ())"

lemma toy_run:
  "\<exists>s. toy_step\<^sup>*\<^sup>* toy_start s \<and> \<not> in_stop s \<and> p_accepted (in_pool s) = [''process/f''] \<and> set (p_finished (in_pool s)) = {''process/f''}
     \<and> toy_files ''process/f'' = Some (Regular (text_of s ''process/f''))"
proof -
  obtain t where t: "toy_files ''process/f'' = Some (Regular t)" by (simp add: toy_files_def)
  let ?pl = "two_readers\<lparr>p_queue := [''process/f''], p_accepted := [''process/f'']\<rparr>"
  let ?s = "toy_start\<lparr>in_pool := ?pl, in_given := [''process/f'' \<mapsto> t]\<rparr>"
  have "submit ''process/f'' (in_pool toy_start) = Some (True, ?pl)"
    by (simp add: submit_def two_readers_def ingest_start_def)
  from submitted [of toy_start "''process/f''" t, OF _ this, of all_calls_ok toy_dirs toy_parser "thread_sink perfect_env"] t
  have one: "toy_step toy_start ?s" by (simp add: ingest_start_def)
  then have "toy_step\<^sup>*\<^sup>* toy_start ?s" by (rule r_into_rtranclp)
  from steps_pool [OF two_readers_new this] have "pool_inv (in_pool ?s)" "p_workers (in_pool ?s) \<noteq> []" by blast+
  from workers_finish [OF this, of all_calls_ok toy_dirs toy_parser "thread_sink perfect_env"]
  obtain s where w: "(work_step all_calls_ok toy_dirs toy_parser (thread_sink perfect_env))\<^sup>*\<^sup>* ?s s" and k: "kept ?s s" and
      f: "set (p_finished (in_pool s)) = set (p_accepted (in_pool s))" by blast
  have s: "in_stop s = in_stop ?s" "in_given s = in_given ?s" "p_accepted (in_pool s) = p_accepted (in_pool ?s)"
      "set (p_finished (in_pool s)) = set (p_accepted (in_pool s))" using k f by (simp_all add: kept_def)
  have "text_of s ''process/f'' = t" by (simp add: text_of_def s(2))
  moreover have "toy_step\<^sup>*\<^sup>* toy_start s" using converse_rtranclp_into_rtranclp [OF one works [OF w]] .
  ultimately show ?thesis using s t
    by (intro exI [of _ s]) (simp add: converse_rtranclp_into_rtranclp ingest_start_def)
qed

lemma toy_apart: "apart toy_dirs [''process/f'']"
  by (simp add: apart_def toy_name done_path_def fail_path_def toy_dirs_def)

section \<open>Properties\<close>



text \<open>
  The order of the readers plays no part. Once every accepted file is finished without a stop, and
  all of them were readable, each counter in the store has grown by what one sequential fold over
  the records of all the files computes, from the resume point of each file on.
\<close>

theorem readers_counters:
  assumes "reliable_redis E" "new_pool mc n c = Inr pl" "plain dirs disk" "list_all is_write c0"
    and "(ingest_step sys dirs parser (thread_sink E))\<^sup>*\<^sup>* (ingest_start pl disk (run, new_server c0 w)) s"
    and "apart dirs (p_accepted (in_pool s))" "\<not> in_stop s"
    and "set (p_finished (in_pool s)) = set (p_accepted (in_pool s))"
    and "\<And>p. p \<in> set (p_accepted (in_pool s)) \<Longrightarrow> readable sys [p \<mapsto> Regular (text_of s p)] p (body p)"
  shows "let rs = concat (map (\<lambda>p. fresh (progress (basename_of p) c0) (records_of parser (body p))) (p_accepted (in_pool s)));
             l = sh_log (snd (in_sink s)); d = fold_batch rs in
    list_all (\<lambda>(f, g). of_nat (hsum (sub_key m) f l) = of_nat (hsum (sub_key m) f c0) + g (sub_at d m)) sub_fields
    \<and> list_all (\<lambda>(f, g). of_nat (hsum (op_key j) f l) = of_nat (hsum (op_key j) f c0) + g (op_at d j)) op_fields
    \<and> list_all (\<lambda>(f, g). of_nat (hsum (link_key (owner k)) (dec64 (peer k) @ f) l)
          = of_nat (hsum (link_key (owner k)) (dec64 (peer k) @ f) c0) + g (link_at d k)) link_fields"
proof -
  let ?rs = "\<lambda>p. fresh (progress (basename_of p) c0) (records_of parser (body p))"
  from readers.steps_inv [OF readers.intro [OF reliable_redis.thread_contract [OF assms(1)]] assms(2,3) new_server_rel [OF assms(4)] assms(5,6)]
  obtain h where h: "ingest_inv sys dirs parser (\<lambda>src. progress src c0) h s" "shared_rel c0 h (in_sink s)" by blast
  have "yield_of sys parser (\<lambda>src. progress src c0) s p = Some (?rs p)" if "p \<in> set (p_accepted (in_pool s))" for p
    using yield_readable [OF assms(9) [OF that]] by (simp add: yield_of_def)
  from all_settled_records [OF h(1) assms(6-8) this]
  have m: "mset (all_records h) = mset (concat (map ?rs (p_accepted (in_pool s))))" .
  have l: "sh_log (snd (in_sink s)) = c0 @ history_cmds h" using h(2) by (auto simp: shared_rel_def split: prod.splits)
  show ?thesis unfolding Let_def l list_all_iff by (auto simp: field_sums fold_permuted [OF m])
qed

theorem readers_counters_witness:
  "\<exists>s. toy_step\<^sup>*\<^sup>* toy_start s \<and>
    list_all (\<lambda>(f, g). of_nat (hsum (sub_key 7) f (sh_log (snd (in_sink s))))
      = g (sub_at (fold_batch (fresh 0 (records_of toy_parser toy_body))) 7)) sub_fields"
proof -
  obtain s where s: "toy_step\<^sup>*\<^sup>* toy_start s" "\<not> in_stop s" "p_accepted (in_pool s) = [''process/f'']"
      "set (p_finished (in_pool s)) = {''process/f''}" "toy_files ''process/f'' = Some (Regular (text_of s ''process/f''))"
    using toy_run by blast
  have r: "readable all_calls_ok [p \<mapsto> Regular (text_of s p)] p toy_body" if "p \<in> set (p_accepted (in_pool s))" for p
    using that s(5) toy_readable by (auto simp: s(3) readable_def)
  have "apart toy_dirs (p_accepted (in_pool s))" "set (p_finished (in_pool s)) = set (p_accepted (in_pool s))"
    by (simp_all add: s(3,4) toy_apart)
  from readers_counters [OF live.reliable_redis_axioms two_readers_new toy_plain _ s(1) this(1) s(2) this(2), of "\<lambda>p. toy_body" 7] r
  show ?thesis using s(1) by (intro exI [of _ s]) (simp add: s(3) Let_def)
qed

text \<open>
  The workers get through. From every state the ingestor can reach, with files being read, queued or
  being waited for, the workers by themselves can go on to a state in which every accepted file is finished.
\<close>

theorem readers_finish:
  assumes "new_pool mc n c = Inr pl" "(ingest_step sys dirs parser sk)\<^sup>*\<^sup>* (ingest_start pl disk x) s"
  shows "\<exists>s'. (ingest_step sys dirs parser sk)\<^sup>*\<^sup>* s s' \<and> in_stop s' = in_stop s
    \<and> p_accepted (in_pool s') = p_accepted (in_pool s) \<and> set (p_finished (in_pool s')) = set (p_accepted (in_pool s'))"
  using workers_finish [OF conjunct1 [OF steps_pool [OF assms]] conjunct2 [OF steps_pool [OF assms]]] works
  unfolding kept_def by metis

theorem readers_finish_witness:
  "\<exists>s'. toy_step\<^sup>*\<^sup>* toy_start s' \<and> in_stop s' = in_stop toy_start
    \<and> p_accepted (in_pool s') = p_accepted (in_pool toy_start) \<and> set (p_finished (in_pool s')) = set (p_accepted (in_pool s'))"
  by (rule readers_finish [OF two_readers_new rtranclp.rtrancl_refl])

end
