(* ===== verification/Plant.thy ===== *)
theory Plant
  imports Readers DirWatcher "HOL-Library.Sublist"
begin

text \<open>
  The whole path of a file, over any number of runs of the program: somebody renames it into the ready
  directory, the watcher claims it, the feeder hands it to the pool, a worker reads it into the
  store and moves it away; and at any moment the process may be stopped or die, with whatever its
  workers were doing, and be started again on the disk and the store it left. \<open>Plant\<close> puts the running
  \<open>Ingest\<close>, the watcher and the disk together, \<open>plant_step\<close> interleaves their steps. The lemmas show
  where each file can be and which of its records the store then has.
\<close>

section \<open>The four directories\<close>

datatype place = Ready | Claimed | Done | Failed

fun dir_of :: "FileDirs \<Rightarrow> place \<Rightarrow> string" where
  "dir_of dirs Ready = dir_ready dirs"
| "dir_of dirs Claimed = dir_process dirs"
| "dir_of dirs Done = dir_done dirs"
| "dir_of dirs Failed = dir_fail dirs"

text \<open>The path of a file name in a directory; and what stands there.\<close>

definition at :: "FileDirs \<Rightarrow> place \<Rightarrow> string \<Rightarrow> string" where
  "at dirs a n = dir_of dirs a @ n"

definition view :: "FileDirs \<Rightarrow> filesys \<Rightarrow> string \<Rightarrow> place \<Rightarrow> node option" where
  "view dirs disk n a = disk (at dirs a n)"

definition file_name :: "string \<Rightarrow> bool" where
  "file_name n \<longleftrightarrow> n \<noteq> [] \<and> CHR ''/'' \<notin> set n"

text \<open>Directories as a checked configuration has them, and no two of them the same.\<close>

definition good_dirs :: "FileDirs \<Rightarrow> bool" where
  "good_dirs dirs \<longleftrightarrow>
     list_all (\<lambda>a. dir_of dirs a \<noteq> [] \<and> last (dir_of dirs a) = CHR ''/'') [Ready, Claimed, Done, Failed]
     \<and> distinct (map (dir_of dirs) [Ready, Claimed, Done, Failed])"

lemma good_dirsD:
  assumes "good_dirs dirs"
  shows "dir_of dirs a \<noteq> []" "last (dir_of dirs a) = CHR ''/''" "dir_of dirs a = dir_of dirs b \<longleftrightarrow> a = b"
proof -
  show "dir_of dirs a \<noteq> []" "last (dir_of dirs a) = CHR ''/''"
    using assms by (cases a; auto simp: good_dirs_def)+
  show "dir_of dirs a = dir_of dirs b \<longleftrightarrow> a = b"
    using assms by (cases a; cases b) (auto simp: good_dirs_def)
qed

lemma at_basename: "good_dirs dirs \<Longrightarrow> file_name n \<Longrightarrow> basename_of (at dirs a n) = n"
  by (simp add: at_def file_name_def basename_plain good_dirsD)

lemma at_inj [simp]:
  assumes "good_dirs dirs" "file_name n" "file_name m"
  shows "at dirs a n = at dirs b m \<longleftrightarrow> a = b \<and> n = m"
  using at_basename [OF assms(1,2), of a] at_basename [OF assms(1,3), of b] good_dirsD(3) [OF assms(1), of a b]
  by (auto simp: at_def)

lemma at_join:
  assumes "good_dirs dirs"
  shows "path_join (dir_ready dirs) = at dirs Ready" "path_join (dir_process dirs) = at dirs Claimed"
  using good_dirsD(2) [OF assms, of Ready] good_dirsD(2) [OF assms, of Claimed]
  by (simp_all add: at_def slash_paths fun_eq_iff)

lemma at_moves:
  "good_dirs dirs \<Longrightarrow> file_name n \<Longrightarrow> done_path dirs (at dirs a n) = at dirs Done n"
  "good_dirs dirs \<Longrightarrow> file_name n \<Longrightarrow> fail_path dirs (at dirs a n) = at dirs Failed n"
  by (simp_all add: done_path_def fail_path_def at_basename, simp_all add: at_def)

lemma apart_names:
  assumes "good_dirs dirs" "distinct ps" "\<And>p. p \<in> set ps \<Longrightarrow> \<exists>n. file_name n \<and> p = at dirs Claimed n"
  shows "apart dirs ps"
proof -
  have "inj_on basename_of (set ps)"
    by (rule inj_onI) (use assms(1,3) at_basename in metis)
  moreover have "p \<noteq> done_path dirs q \<and> p \<noteq> fail_path dirs q \<and> done_path dirs p \<noteq> fail_path dirs q \<and> basename_of p \<noteq> []"
    if "p \<in> set ps" "q \<in> set ps" for p q
    using assms(3) [OF that(1)] assms(3) [OF that(2)] assms(1)
    by (auto simp: at_moves at_basename) (simp add: file_name_def)
  ultimately show ?thesis using assms(2) by (auto simp: apart_def list_all_iff distinct_map)
qed

section \<open>The steps\<close>

text \<open>\<open>pt_sent\<close> is a ghost: the text of every file that was ever delivered, by its name.\<close>

record 'w Plant =
  pt_run :: "(RunTotals \<times> 'w Shared) Ingest"
  pt_sys :: syscalls
  pt_watch :: DirWatcher
  pt_sent :: "string \<rightharpoonup> string"

abbreviation pt_disk :: "'w Plant \<Rightarrow> filesys" where
  "pt_disk s \<equiv> in_disk (pt_run s)"

abbreviation pt_log :: "'w Plant \<Rightarrow> cmd list" where
  "pt_log s \<equiv> sh_log (snd (in_sink (pt_run s)))"

text \<open>A directory listing: every entry once, in some order, unless the directory cannot be read.\<close>

definition listing :: "filesys \<Rightarrow> string \<Rightarrow> string list option \<Rightarrow> bool" where
  "listing disk dir entries \<longleftrightarrow> (case entries of None \<Rightarrow> True
     | Some names \<Rightarrow> distinct names \<and> (\<forall>n. n \<in> set names \<longleftrightarrow> file_name n \<and> disk (path_join dir n) \<noteq> None))"

text \<open>
  A file is dropped under a name that was not used before. The watcher reads events when its queue is
  empty; the events name entries of the ready directory, of any kind. The feeder hands over the
  first file of the queue, which \<open>submit\<close> may refuse. The workers go on, or a stop is asked for. At
  any moment the run may be over, orderly or not: another one starts with nothing but the disk and
  the log of the server, on new connections, and its watcher sweeps the two directories.
\<close>

inductive plant_step :: "FileDirs \<Rightarrow> (string \<Rightarrow> CdrRecord option) \<Rightarrow> 'w env \<Rightarrow> 'w Plant \<Rightarrow> 'w Plant \<Rightarrow> bool"
  for dirs parser E where
  dropped: "file_name n \<Longrightarrow> pt_sent s n = None \<Longrightarrow>
    plant_step dirs parser E s (s\<lparr>pt_sent := (pt_sent s)(n \<mapsto> t),
      pt_run := (pt_run s)\<lparr>in_disk := deliver (path_join (dir_ready dirs) n, t) (pt_disk s)\<rparr>\<rparr>)"
| noticed: "dw_open (pt_watch s) \<Longrightarrow> dw_queue (pt_watch s) = [] \<Longrightarrow> list_all (\<lambda>(n, is_dir). CHR ''/'' \<notin> set n) evs \<Longrightarrow>
    read_events (Events [] evs) (pt_watch s, pt_disk s) = (True, dw, disk) \<Longrightarrow>
    plant_step dirs parser E s (s\<lparr>pt_watch := dw, pt_run := (pt_run s)\<lparr>in_disk := disk\<rparr>\<rparr>)"
| handed: "dw_open (pt_watch s) \<Longrightarrow> dw_queue (pt_watch s) = p # ps \<Longrightarrow> pt_disk s p = Some (Regular t) \<Longrightarrow>
    submit p (in_pool (pt_run s)) = Some (b, pl) \<Longrightarrow>
    plant_step dirs parser E s (s\<lparr>pt_watch := (pt_watch s)\<lparr>dw_queue := ps\<rparr>, pt_run := (pt_run s)\<lparr>in_pool := pl,
      in_given := if b then (in_given (pt_run s))(p \<mapsto> t) else in_given (pt_run s)\<rparr>\<rparr>)"
| worked: "work_step (pt_sys s) dirs parser (thread_sink E) (pt_run s) r \<Longrightarrow>
    plant_step dirs parser E s (s\<lparr>pt_run := r\<rparr>)"
| restarted: "new_pool mc n c = Inr pl \<Longrightarrow> listing (pt_disk s) (dir_process dirs) claimed \<Longrightarrow>
    listing (pt_disk s) (dir_ready dirs) names \<Longrightarrow>
    new_watcher su (dir_ready dirs) (dir_process dirs) claimed names (pt_disk s) = (dw, disk) \<Longrightarrow>
    plant_step dirs parser E s \<lparr>pt_run = ingest_start pl disk (zero_run, new_server (pt_log s) w),
      pt_sys = sys, pt_watch = dw, pt_sent = pt_sent s\<rparr>"

text \<open>
  One round of the feeder, \<open>next_file\<close> and \<open>submit\<close>, is a sequence of these steps: the events it waits
  for, and the hand-over.
\<close>

definition names_only :: "wakeup list \<Rightarrow> bool" where
  "names_only wks \<longleftrightarrow> list_all (\<lambda>wk. case wk of
     Events delivered evs \<Rightarrow> delivered = [] \<and> list_all (\<lambda>(n, is_dir). CHR ''/'' \<notin> set n) evs | _ \<Rightarrow> True) wks"

declare next_file.simps [simp del]

lemma same_queue: "dw_queue dw = q \<Longrightarrow> dw\<lparr>dw_queue := q\<rparr> = dw"
  by (cases dw) simp

lemma next_file_steps:
  "next_file wks (pt_watch s, pt_disk s) = Some (Some p, rest, dw, disk) \<Longrightarrow> names_only wks \<Longrightarrow>
     dw_open dw \<and> (plant_step dirs parser E)\<^sup>*\<^sup>* s
       (s\<lparr>pt_watch := dw\<lparr>dw_queue := p # dw_queue dw\<rparr>, pt_run := (pt_run s)\<lparr>in_disk := disk\<rparr>\<rparr>)"
proof (induction wks arbitrary: s)
  case Nil
  then have o: "dw_open (pt_watch s)" by (subst (asm) next_file.simps) (auto split: if_splits)
  then obtain q qs where q: "dw_queue (pt_watch s) = q # qs"
    using Nil(1) by (subst (asm) next_file.simps) (auto split: list.splits)
  then have "p = q" "dw = (pt_watch s)\<lparr>dw_queue := qs\<rparr>" "disk = pt_disk s"
    using Nil(1) o by (subst (asm) next_file.simps, auto)+
  then show ?case using o same_queue [OF q] by simp
next
  case (Cons wk wks)
  have o: "dw_open (pt_watch s)" using Cons.prems(1) by (subst (asm) next_file.simps) (auto split: if_splits)
  show ?case
  proof (cases "dw_queue (pt_watch s)")
    case q: (Cons q qs)
    then have "p = q" "dw = (pt_watch s)\<lparr>dw_queue := qs\<rparr>" "disk = pt_disk s"
      using Cons.prems(1) o by (subst (asm) next_file.simps, auto)+
    then show ?thesis using o same_queue [OF q] by simp
  next
    case Nil
    obtain b dw1 disk1 where r: "read_events wk (pt_watch s, pt_disk s) = (b, dw1, disk1)" by (rule prod_cases3)
    have m: "(case read_events wk (pt_watch s, pt_disk s) of (False, x) \<Rightarrow> Some (None, wks, x) | (True, x) \<Rightarrow> next_file wks x)
        = Some (Some p, rest, dw, disk)" using Cons.prems(1) o Nil by (subst (asm) next_file.simps) simp
    then have b: "b" and n: "next_file wks (dw1, disk1) = Some (Some p, rest, dw, disk)" by (cases b; simp add: r)+
    let ?s = "s\<lparr>pt_watch := dw1, pt_run := (pt_run s)\<lparr>in_disk := disk1\<rparr>\<rparr>"
    have "plant_step dirs parser E s ?s \<or> ?s = s"
    proof (cases wk)
      case (Events delivered evs)
      then have d: "delivered = []" "list_all (\<lambda>(n, is_dir). CHR ''/'' \<notin> set n) evs"
        using Cons.prems(2) by (simp_all add: names_only_def)
      have "read_events (Events [] evs) (pt_watch s, pt_disk s) = (True, dw1, disk1)" using r b Events d(1) by simp
      then show ?thesis using noticed [OF o Nil d(2)] by blast
    qed (use r b in \<open>auto simp: read_events_def\<close>)
    then have "(plant_step dirs parser E)\<^sup>*\<^sup>* s ?s" by auto
    moreover have "names_only wks" using Cons.prems(2) by (simp add: names_only_def)
    ultimately show ?thesis using Cons.IH [of ?s] n by (auto intro: rtranclp_trans)
  qed
qed

lemma feeder_round:
  assumes "next_file wks (pt_watch s, pt_disk s) = Some (Some p, rest, dw, disk)" "names_only wks"
    "disk p = Some (Regular t)" "submit p (in_pool (pt_run s)) = Some (b, pl)"
  shows "(plant_step dirs parser E)\<^sup>*\<^sup>* s (s\<lparr>pt_watch := dw, pt_run := (pt_run s)\<lparr>in_disk := disk, in_pool := pl,
      in_given := if b then (in_given (pt_run s))(p \<mapsto> t) else in_given (pt_run s)\<rparr>\<rparr>)"
proof -
  let ?s = "s\<lparr>pt_watch := dw\<lparr>dw_queue := p # dw_queue dw\<rparr>, pt_run := (pt_run s)\<lparr>in_disk := disk\<rparr>\<rparr>"
  note n = next_file_steps [OF assms(1,2), of dirs parser E]
  have st: "plant_step dirs parser E ?s (?s\<lparr>pt_watch := (pt_watch ?s)\<lparr>dw_queue := dw_queue dw\<rparr>, pt_run := (pt_run ?s)\<lparr>in_pool := pl,
      in_given := if b then (in_given (pt_run ?s))(p \<mapsto> t) else in_given (pt_run ?s)\<rparr>\<rparr>)"
    by (rule plant_step.handed) (use n assms(3,4) in simp_all)
  have "(plant_step dirs parser E)\<^sup>*\<^sup>* s ?s" by (rule conjunct2 [OF n])
  from this st have "(plant_step dirs parser E)\<^sup>*\<^sup>* s (?s\<lparr>pt_watch := (pt_watch ?s)\<lparr>dw_queue := dw_queue dw\<rparr>,
      pt_run := (pt_run ?s)\<lparr>in_pool := pl, in_given := if b then (in_given (pt_run ?s))(p \<mapsto> t) else in_given (pt_run ?s)\<rparr>\<rparr>)"
    by (rule rtranclp.rtrancl_into_rtrancl)
  then show ?thesis by (cases b) simp_all
qed

text \<open>Before the first run: a store, a disk, no workers and no watcher.\<close>

definition no_pool :: "string Pool" where
  "no_pool = \<lparr>p_queue = [], p_capacity = 0, p_stop = False, p_workers = [], p_accepted = [], p_started = [], p_finished = []\<rparr>"

definition plant_start :: "FileDirs \<Rightarrow> filesys \<Rightarrow> cmd list \<Rightarrow> 'w \<Rightarrow> 'w Plant" where
  "plant_start dirs disk l w =
     \<lparr>pt_run = ingest_start no_pool disk (zero_run, new_server l w),
      pt_sys = \<lparr>sys_open = (\<lambda>p. True), sys_fstat = (\<lambda>p. True), sys_mmap = (\<lambda>p. True)\<rparr>,
      pt_watch = \<lparr>dw_source = dir_ready dirs, dw_target = dir_process dirs, dw_queue = [], dw_open = False\<rparr>,
      pt_sent = (\<lambda>n. None)\<rparr>"

section \<open>What a file's records are, and how far the store has them\<close>

definition file_records :: "(string \<Rightarrow> CdrRecord option) \<Rightarrow> string \<Rightarrow> CdrRecord list" where
  "file_records parser t = (case parse_header t of None \<Rightarrow> [] | Some (header, body) \<Rightarrow> records_of parser body)"

text \<open>
  Where a file is and what the store has of it: nothing while it is ready, a beginning of its records
  once it is claimed, all of them when it is done, and a beginning when it has failed.
\<close>

definition file_at ::
    "FileDirs \<Rightarrow> filesys \<Rightarrow> string \<Rightarrow> string \<Rightarrow> CdrRecord list \<Rightarrow> CdrRecord list list \<Rightarrow> bool" where
  "file_at dirs disk n t rs bs \<longleftrightarrow>
     (case (view dirs disk n Ready, view dirs disk n Claimed) of
        (Some nd, None) \<Rightarrow> nd = Regular t \<and> bs = []
      | (None, Some nd) \<Rightarrow> nd = Regular t \<and> prefix (concat bs) rs
      | (None, None) \<Rightarrow> view dirs disk n Done = Some (Regular t) \<and> concat bs = rs
          \<or> view dirs disk n Failed = Some (Regular t) \<and> prefix (concat bs) rs
      | (Some _, Some _) \<Rightarrow> False)"

lemma file_at_frame:
  "(\<And>a. view dirs disk' n a = view dirs disk n a) \<Longrightarrow> file_at dirs disk' n t rs bs = file_at dirs disk n t rs bs"
  by (simp add: file_at_def cong: option.case_cong)

lemma yield_cases: "yield sys parser p t r = None \<or> yield sys parser p t r = Some (fresh r (file_records parser t))"
proof (cases "\<exists>body. readable sys [p \<mapsto> Regular t] p body")
  case True
  then obtain body where b: "readable sys [p \<mapsto> Regular t] p body" by blast
  then have "file_records parser t = records_of parser body" by (auto simp: readable_def file_records_def)
  then show ?thesis using yield_readable [OF b] by simp
next
  case False
  then show ?thesis using open_unreadable [of sys "[p \<mapsto> Regular t]" p r] by (simp add: yield_def)
qed

lemma rising_prefix: "rising (a @ b) \<Longrightarrow> rising a"
  by (auto simp: rising_def sorted_wrt_append)

lemma applied_concat:
  "rising (concat (batches_of n h)) \<Longrightarrow>
     applied base n h = (if concat (batches_of n h) = [] then base n else sequence (last (concat (batches_of n h))))"
proof (induction h rule: rev_induct)
  case (snoc e h)
  obtain src b where e: "e = (src, b)" by (cases e)
  show ?case
  proof (cases "src = n \<and> b \<noteq> []")
    case True
    then have "rising (concat (batches_of n h) @ b @ [])" "b \<noteq> []" using snoc.prems by (simp_all add: e)
    note rb = rising_batch [OF this]
    show ?thesis using True conjunct2 [OF rb] conjunct1 [OF rb] by (auto simp: e)
  next
    case False
    have "highest_of [] = 0" by (simp add: highest_of_def)
    moreover have "rising (concat (batches_of n h))" using snoc.prems rising_prefix by (auto simp: e split: if_splits)
    ultimately show ?thesis using snoc.IH False by (auto simp: e)
  qed
qed simp

text \<open>The resume point a run starts from leaves exactly what the earlier runs have not applied.\<close>

lemma resume_rest:
  assumes "rising rs" "rs = concat (batches_of n h) @ rest" "progress n c0 = 0" "list_all (\<lambda>(src, b). src \<noteq> []) h"
  shows "fresh (progress n (c0 @ history_cmds h)) rs = rest"
proof -
  let ?a = "concat (batches_of n h)"
  have "progress n (c0 @ history_cmds h) = (if ?a = [] then 0 else sequence (last ?a))"
    using applied_concat [of n h "\<lambda>src. progress src c0"] rising_prefix [of ?a rest] assms history_progress [OF assms(4)]
    by simp
  then show ?thesis using fresh_rising [of ?a rest] assms(1,2) by simp
qed

section \<open>Claims\<close>

text \<open>A delivered file is in exactly one of the four directories, and nothing else is in any of them.\<close>

definition stands :: "FileDirs \<Rightarrow> filesys \<Rightarrow> string \<Rightarrow> string \<Rightarrow> place \<Rightarrow> bool" where
  "stands dirs disk n t a \<longleftrightarrow>
     list_all (\<lambda>b. view dirs disk n b = (if b = a then Some (Regular t) else None)) [Ready, Claimed, Done, Failed]"

definition located :: "FileDirs \<Rightarrow> (string \<rightharpoonup> string) \<Rightarrow> filesys \<Rightarrow> bool" where
  "located dirs texts disk \<longleftrightarrow> (\<forall>n. file_name n \<longrightarrow>
     (case texts n of None \<Rightarrow> view dirs disk n = (\<lambda>a. None) | Some t \<Rightarrow> \<exists>a. stands dirs disk n t a))"

lemma stands_view: "stands dirs disk n t a \<longleftrightarrow> view dirs disk n = (\<lambda>b. if b = a then Some (Regular t) else None)"
proof
  assume "stands dirs disk n t a"
  then have "view dirs disk n b = (if b = a then Some (Regular t) else None)" for b by (cases b) (simp_all add: stands_def)
  then show "view dirs disk n = (\<lambda>b. if b = a then Some (Regular t) else None)" by blast
qed (simp add: stands_def)

text \<open>What the watcher and the directories are to each other, with \<open>acc\<close> the paths the pool has accepted.\<close>

definition watch_inv ::
    "FileDirs \<Rightarrow> (string \<Rightarrow> CdrRecord option) \<Rightarrow> (string \<rightharpoonup> string) \<Rightarrow> string list \<Rightarrow> history
       \<Rightarrow> DirWatcher \<times> filesys \<Rightarrow> bool" where
  "watch_inv dirs parser texts acc h = (\<lambda>(dw, disk).
     dw_source dw = dir_ready dirs \<and> dw_target dw = dir_process dirs \<and> plain dirs disk \<and> located dirs texts disk
     \<and> distinct (dw_queue dw @ acc)
     \<and> (\<forall>p. p \<in> set (dw_queue dw) \<longrightarrow> (\<exists>n. n \<in> dom texts \<and> p = at dirs Claimed n \<and> view dirs disk n Claimed \<noteq> None))
     \<and> (\<forall>n. file_name n \<longrightarrow> n \<notin> dom texts \<longrightarrow> view dirs disk n Ready = None \<and> view dirs disk n Claimed = None)
     \<and> (\<forall>n t. texts n = Some t \<longrightarrow> file_name n
         \<and> (if at dirs Claimed n \<in> set acc then view dirs disk n Ready = None
            else file_at dirs disk n t (file_records parser t) (batches_of n h))))"

lemma watch_invD:
  assumes "watch_inv dirs parser texts acc h (dw, disk)"
  shows "dw_source dw = dir_ready dirs" "dw_target dw = dir_process dirs" "plain dirs disk" "distinct (dw_queue dw @ acc)"
    "p \<in> set (dw_queue dw) \<Longrightarrow> \<exists>n. n \<in> dom texts \<and> p = at dirs Claimed n \<and> view dirs disk n Claimed \<noteq> None"
    "file_name n \<Longrightarrow> n \<notin> dom texts \<Longrightarrow> view dirs disk n Ready = None \<and> view dirs disk n Claimed = None"
    "texts n = Some t \<Longrightarrow> file_name n"
    "texts n = Some t \<Longrightarrow> at dirs Claimed n \<in> set acc \<Longrightarrow> view dirs disk n Ready = None"
    "texts n = Some t \<Longrightarrow> at dirs Claimed n \<notin> set acc \<Longrightarrow>
       file_at dirs disk n t (file_records parser t) (batches_of n h)"
    "located dirs texts disk"
  using assms by (auto simp: watch_inv_def split: if_splits)

lemma watch_queue:
  assumes "watch_inv dirs parser texts acc h (dw, disk)" "distinct (q @ acc)"
    "\<And>p. p \<in> set q \<Longrightarrow> \<exists>n. n \<in> dom texts \<and> p = at dirs Claimed n \<and> view dirs disk n Claimed \<noteq> None"
  shows "watch_inv dirs parser texts acc h (dw\<lparr>dw_queue := q\<rparr>, disk)"
  using assms by (simp add: watch_inv_def)

lemma watch_disk:
  assumes "watch_inv dirs parser texts acc h (dw, disk)" "plain dirs disk'" "located dirs texts disk'"
    "\<And>n a. file_name n \<Longrightarrow> a = Ready \<or> at dirs Claimed n \<notin> set acc \<Longrightarrow> view dirs disk' n a = view dirs disk n a"
    "\<And>n. file_name n \<Longrightarrow> at dirs Claimed n \<in> set acc \<Longrightarrow> n \<in> dom texts"
  shows "watch_inv dirs parser texts acc h (dw, disk')"
proof -
  note W = watch_invD [OF assms(1)]
  have q: "\<exists>m. m \<in> dom texts \<and> p = at dirs Claimed m \<and> view dirs disk' m Claimed \<noteq> None"
    if p: "p \<in> set (dw_queue dw)" for p
  proof -
    obtain m where m: "m \<in> dom texts" "p = at dirs Claimed m" "view dirs disk m Claimed \<noteq> None"
      using W(5) [OF p] by blast
    moreover have "p \<notin> set acc" "file_name m" using W(4,7) p m(1) by auto
    ultimately show ?thesis using assms(4) by auto
  qed
  have "if at dirs Claimed m \<in> set acc then view dirs disk' m Ready = None
      else file_at dirs disk' m u (file_records parser u) (batches_of m h)" if m: "texts m = Some u" for m u
  proof (cases "at dirs Claimed m \<in> set acc")
    case True
    then show ?thesis using W(8) [OF m] assms(4) [OF W(7) [OF m], of Ready] by simp
  next
    case False
    then have e: "view dirs disk' m a = view dirs disk m a" for a using assms(4) [OF W(7) [OF m]] by blast
    show ?thesis using W(9) [OF m False] file_at_frame [OF e] False by simp
  qed
  moreover have "view dirs disk' m Ready = None \<and> view dirs disk' m Claimed = None"
    if m: "file_name m" "m \<notin> dom texts" for m
    using assms(4) [OF m(1), of Ready] assms(4) [OF m(1), of Claimed] assms(5) [OF m(1)] m(2) W(6) [OF m] by metis
  ultimately show ?thesis using W(1,2,4,7) assms(2,3) q by (simp add: watch_inv_def)
qed

lemma plain_upd: "plain dirs disk \<Longrightarrow> x \<noteq> Some Directory \<Longrightarrow> plain dirs (disk(p := x))"
  by (simp add: plain_def)

lemma view_upd:
  "good_dirs dirs \<Longrightarrow> file_name n \<Longrightarrow> file_name m \<Longrightarrow>
     view dirs (disk(at dirs b m := x)) n a = (if a = b \<and> n = m then x else view dirs disk n a)"
  by (auto simp: view_def)

lemma located_upd:
  assumes "located dirs texts disk" "stands dirs disk' n t b"
    "\<And>m. file_name m \<Longrightarrow> m \<noteq> n \<Longrightarrow> view dirs disk' m = view dirs disk m"
  shows "located dirs (texts(n \<mapsto> t)) disk'"
  unfolding located_def
proof (intro allI impI)
  fix m assume m: "file_name m"
  show "case (texts(n \<mapsto> t)) m of None \<Rightarrow> view dirs disk' m = (\<lambda>a. None) | Some u \<Rightarrow> \<exists>a. stands dirs disk' m u a"
  proof (cases "m = n")
    case False
    have "case texts m of None \<Rightarrow> view dirs disk m = (\<lambda>a. None) | Some u \<Rightarrow> \<exists>a. stands dirs disk m u a"
      using assms(1) m by (simp add: located_def)
    then show ?thesis using assms(3) [OF m False] False by (cases "texts m") (auto simp: stands_view)
  qed (use assms(2) in auto)
qed

lemma located_move:
  assumes "good_dirs dirs" "located dirs texts disk" "texts n = Some t" "file_name n"
    "view dirs disk n a = Some (Regular t)" "a \<noteq> b"
  shows "located dirs texts ((disk(at dirs a n := None))(at dirs b n := Some (Regular t)))" (is "located _ _ ?disk")
proof -
  obtain c where c: "view dirs disk n = (\<lambda>b. if b = c then Some (Regular t) else None)"
    using assms(2-4) by (fastforce simp: located_def stands_view)
  then have "c = a" using assms(5) by (simp split: if_splits)
  have v: "view dirs ?disk m d = (if m = n then (if d = b then Some (Regular t) else if d = a then None else view dirs disk n d)
      else view dirs disk m d)" if "file_name m" for m d
    using that assms(1,4) by (simp add: view_upd)
  have e: "view dirs ?disk n = (\<lambda>d. if d = b then Some (Regular t) else None)"
    by (rule ext) (use c \<open>c = a\<close> assms(6) in \<open>simp add: v [OF assms(4)]\<close>)
  have "view dirs ?disk m = view dirs disk m" if "file_name m" "m \<noteq> n" for m
    by (rule ext) (simp add: v [OF that(1)] that(2))
  from located_upd [OF assms(2) _ this, where t = t and b = b] e have "located dirs (texts(n \<mapsto> t)) ?disk" by (simp add: stands_view)
  moreover have "texts(n \<mapsto> t) = texts" using assms(3) by (simp add: fun_upd_idem)
  ultimately show ?thesis by simp
qed

text \<open>
  A claim moves a file that is ready, or does nothing; it does not touch what a run works on.
\<close>

definition same_for :: "FileDirs \<Rightarrow> string list \<Rightarrow> filesys \<Rightarrow> filesys \<Rightarrow> bool" where
  "same_for dirs acc disk disk' \<longleftrightarrow> (\<forall>p. p \<in> set acc \<longrightarrow>
     disk' p = disk p \<and> disk' (done_path dirs p) = disk (done_path dirs p) \<and> disk' (fail_path dirs p) = disk (fail_path dirs p))"

lemma same_for_refl [simp]: "same_for dirs acc disk disk"
  by (simp add: same_for_def)

lemma same_for_trans: "same_for dirs acc a b \<Longrightarrow> same_for dirs acc b c \<Longrightarrow> same_for dirs acc a c"
  by (simp add: same_for_def)

lemma claim_moves:
  assumes "good_dirs dirs" "watch_inv dirs parser texts acc h (dw, disk)" "file_name n"
    "view dirs disk n Ready = Some nd" "claim n (dw, disk) = (b, dw', disk')"
  obtains t where "texts n = Some t" "nd = Regular t" "view dirs disk n Claimed = None" "batches_of n h = []"
    "at dirs Claimed n \<notin> set (dw_queue dw @ acc)" "dw' = dw\<lparr>dw_queue := dw_queue dw @ [at dirs Claimed n]\<rparr>"
    "disk' = (disk(at dirs Ready n := None))(at dirs Claimed n := Some (Regular t))"
proof -
  note W = watch_invD [OF assms(2)]
  obtain t where t: "texts n = Some t" using W(6) [OF assms(3)] assms(4) by (cases "texts n") auto
  have na: "at dirs Claimed n \<notin> set acc" using W(8) [OF t] assms(4) by auto
  with W(9) [OF t] assms(4) have f: "nd = Regular t" "view dirs disk n Claimed = None" "batches_of n h = []"
    by (auto simp: file_at_def split: option.splits)
  have "at dirs Claimed n \<notin> set (dw_queue dw)"
  proof
    assume "at dirs Claimed n \<in> set (dw_queue dw)"
    then obtain m where m: "m \<in> dom texts" "at dirs Claimed n = at dirs Claimed m" "view dirs disk m Claimed \<noteq> None"
      using W(5) by blast
    then have "file_name m" using W(7) by auto
    then show False using m f(2) assms(1,3) by simp
  qed
  then show ?thesis using assms(4,5) t f na W(1,2)
    by (intro that) (auto simp: claim_def rename_file_def view_def at_join [OF assms(1)] Let_def)
qed

lemma claim_watch_inv:
  assumes "good_dirs dirs" "watch_inv dirs parser texts acc h (dw, disk)" "file_name n"
    "view dirs disk n Ready = Some nd" "claim n (dw, disk) = (b, dw', disk')"
  shows "watch_inv dirs parser texts acc h (dw', disk')"
proof -
  note W = watch_invD [OF assms(2)]
  obtain t where t: "texts n = Some t" "nd = Regular t" "view dirs disk n Claimed = None" "batches_of n h = []"
    and new: "at dirs Claimed n \<notin> set (dw_queue dw @ acc)"
    and d: "dw' = dw\<lparr>dw_queue := dw_queue dw @ [at dirs Claimed n]\<rparr>"
      "disk' = (disk(at dirs Ready n := None))(at dirs Claimed n := Some (Regular t))"
    by (rule claim_moves [OF assms])
  have v: "view dirs disk' m a = (if m = n then (if a = Ready then None else if a = Claimed then Some (Regular t) else view dirs disk n a)
      else view dirs disk m a)" if "file_name m" for m a
    using that assms(1,3) by (simp add: d(2) view_upd)
  show ?thesis
    unfolding watch_inv_def prod.case
  proof (intro conjI allI impI)
    show "plain dirs disk'" using W(3) by (simp add: d(2) plain_upd)
    show "located dirs texts disk'"
      unfolding d(2) using assms(4) t(2) by (intro located_move [OF assms(1) W(10) t(1) assms(3)]) simp_all
    show "distinct (dw_queue dw' @ acc)" using W(4) new by (auto simp: d(1))
    show "dw_source dw' = dir_ready dirs" "dw_target dw' = dir_process dirs" using W(1,2) by (simp_all add: d(1))
    show "\<exists>m. m \<in> dom texts \<and> p = at dirs Claimed m \<and> view dirs disk' m Claimed \<noteq> None" if p: "p \<in> set (dw_queue dw')" for p
    proof (cases "p \<in> set (dw_queue dw)")
      case True
      then show ?thesis using W(5) [OF True] v W(7) by fastforce
    next
      case False
      then have "p = at dirs Claimed n" using p by (simp add: d(1))
      then show ?thesis using t(1) v [OF assms(3)] by (intro exI [of _ n]) auto
    qed
    show "view dirs disk' m Ready = None" "view dirs disk' m Claimed = None" if "file_name m" "m \<notin> dom texts" for m
      using that W(6) [OF that] v [OF that(1)] t(1) by auto
    show "file_name m" if "texts m = Some u" for m u using W(7) [OF that] .
    show "if at dirs Claimed m \<in> set acc then view dirs disk' m Ready = None
        else file_at dirs disk' m u (file_records parser u) (batches_of m h)" if "texts m = Some u" for m u
    proof (cases "m = n")
      case True
      then show ?thesis using new v [OF assms(3)] t that by (simp add: file_at_def)
    next
      case False
      then have e: "view dirs disk' m a = view dirs disk m a" for a using v [OF W(7) [OF that]] by simp
      show ?thesis using W(8,9) [OF that] file_at_frame [OF e] e by simp
    qed
  qed
qed

lemma claim_inv:
  assumes "good_dirs dirs" "watch_inv dirs parser texts acc h (dw, disk)" "file_name n"
    "\<And>p. p \<in> set acc \<Longrightarrow> \<exists>m. m \<in> dom texts \<and> p = at dirs Claimed m"
    and c: "claim n (dw, disk) = (b, dw', disk')"
  shows "watch_inv dirs parser texts acc h (dw', disk') \<and> same_for dirs acc disk disk'
    \<and> dw_open dw' = dw_open dw \<and> (\<exists>ps. dw_queue dw' = dw_queue dw @ ps)
    \<and> (\<forall>m. file_name m \<longrightarrow> view dirs disk' m Ready = (if m = n then None else view dirs disk m Ready))
    \<and> (\<forall>m. file_name m \<longrightarrow> view dirs disk' m Claimed \<noteq> None \<longrightarrow> view dirs disk m Claimed \<noteq> None \<or> at dirs Claimed m \<in> set (dw_queue dw'))"
proof (cases "view dirs disk n Ready")
  case None
  then have "dw' = dw" "disk' = disk"
    using c watch_invD(1) [OF assms(2)] by (simp_all add: claim_def rename_file_def view_def at_join [OF assms(1)] Let_def)
  then show ?thesis using assms(2) None by auto
next
  case (Some nd)
  obtain t where new: "at dirs Claimed n \<notin> set (dw_queue dw @ acc)"
    and d: "dw' = dw\<lparr>dw_queue := dw_queue dw @ [at dirs Claimed n]\<rparr>"
      "disk' = (disk(at dirs Ready n := None))(at dirs Claimed n := Some (Regular t))"
    by (rule claim_moves [OF assms(1-3) Some c])
  have v: "view dirs disk' m a = (if m = n then (if a = Ready then None else if a = Claimed then Some (Regular t) else view dirs disk n a)
      else view dirs disk m a)" if "file_name m" for m a
    using that assms(1,3) by (simp add: d(2) view_upd)
  have "same_for dirs acc disk disk'"
    unfolding same_for_def
  proof (intro allI impI)
    fix p assume p: "p \<in> set acc"
    then obtain m where m: "m \<in> dom texts" "p = at dirs Claimed m" using assms(4) by blast
    then have "m \<noteq> n" "file_name m" using new p watch_invD(7) [OF assms(2)] by auto
    then show "disk' p = disk p \<and> disk' (done_path dirs p) = disk (done_path dirs p) \<and> disk' (fail_path dirs p) = disk (fail_path dirs p)"
      using assms(1,3) by (simp add: d(2) m(2) at_moves)
  qed
  then show ?thesis using claim_watch_inv [OF assms(1-3) Some c] v assms(3) by (auto simp: d(1))
qed

text \<open>A sequence of claims, of events or of the entries of a sweep.\<close>

lemma claims_inv:
  assumes "good_dirs dirs" "watch_inv dirs parser texts acc h (dw, disk)"
    "\<And>p. p \<in> set acc \<Longrightarrow> \<exists>m. m \<in> dom texts \<and> p = at dirs Claimed m"
    and one: "\<And>e dw disk. e \<in> set es \<Longrightarrow> dw_source dw = dir_ready dirs \<Longrightarrow>
      f e (dw, disk) = (dw, disk) \<or> (\<exists>n. file_name n \<and> f e (dw, disk) = snd (claim n (dw, disk)))"
    and "foldl (\<lambda>x e. f e x) (dw, disk) es = (dw', disk')"
  shows "watch_inv dirs parser texts acc h (dw', disk') \<and> same_for dirs acc disk disk'
    \<and> dw_open dw' = dw_open dw \<and> (\<exists>ps. dw_queue dw' = dw_queue dw @ ps)"
  using assms(2,5) one
proof (induction es arbitrary: dw disk)
  case (Cons e es)
  obtain dw1 disk1 where x: "f e (dw, disk) = (dw1, disk1)" by (cases "f e (dw, disk)")
  have "watch_inv dirs parser texts acc h (dw1, disk1) \<and> same_for dirs acc disk disk1 \<and> dw_open dw1 = dw_open dw
      \<and> (\<exists>ps. dw_queue dw1 = dw_queue dw @ ps)"
  proof (cases "f e (dw, disk) = (dw, disk)")
    case True
    then show ?thesis using Cons.prems(1) x by simp
  next
    case False
    then obtain n where n: "file_name n" "f e (dw, disk) = snd (claim n (dw, disk))"
      using Cons.prems(3) [of e dw disk] watch_invD(1) [OF Cons.prems(1)] by auto
    obtain b where "claim n (dw, disk) = (b, dw1, disk1)" using n(2) x by (cases "claim n (dw, disk)") auto
    from claim_inv [OF assms(1) Cons.prems(1) n(1) assms(3) this] show ?thesis by blast
  qed
  moreover have "foldl (\<lambda>x e. f e x) (dw1, disk1) es = (dw', disk')" using Cons.prems(2) x by simp
  ultimately have "watch_inv dirs parser texts acc h (dw', disk') \<and> same_for dirs acc disk1 disk'
    \<and> dw_open dw' = dw_open dw1 \<and> (\<exists>ps. dw_queue dw' = dw_queue dw1 @ ps)"
    using Cons.IH [of dw1 disk1] Cons.prems(3) by simp
  then show ?case using \<open>watch_inv _ _ _ _ _ (dw1, disk1) \<and> _\<close> same_for_trans by force
qed simp

text \<open>The start of a run, whose pool has not accepted anything.\<close>

lemma sweep_claimed_inv:
  assumes "good_dirs dirs" "watch_inv dirs parser texts [] h (dw, disk)" "dw_queue dw = []"
    "listing disk (dir_process dirs) entries" "sweep entries (dir_process dirs) True (dw, disk) = (dw', disk')"
  shows "watch_inv dirs parser texts [] h (dw', disk')" "disk' = disk" "dw_open dw' = dw_open dw"
    "entries \<noteq> None \<Longrightarrow> view dirs disk n Claimed \<noteq> None \<Longrightarrow> file_name n \<Longrightarrow> at dirs Claimed n \<in> set (dw_queue dw')"
proof -
  note W = watch_invD [OF assms(2)]
  have "watch_inv dirs parser texts [] h (dw', disk') \<and> disk' = disk \<and> dw_open dw' = dw_open dw
    \<and> (entries \<noteq> None \<longrightarrow> view dirs disk n Claimed \<noteq> None \<longrightarrow> file_name n \<longrightarrow> at dirs Claimed n \<in> set (dw_queue dw'))"
  proof (cases entries)
    case None
    then show ?thesis using assms(2,5) by (simp add: sweep_def)
  next
    case (Some names)
    have l: "distinct names" "\<And>m. m \<in> set names \<longleftrightarrow> file_name m \<and> view dirs disk m Claimed \<noteq> None"
      using assms(4) Some by (simp_all add: listing_def at_join [OF assms(1)] view_def)
    have r: "is_regular disk (at dirs Claimed m) \<and> m \<in> dom texts" if m: "m \<in> set names" for m
    proof -
      obtain t where t: "texts m = Some t" using W(6) [of m] l(2) [of m] m by (cases "texts m") (auto simp: domIff)
      then have "view dirs disk m Claimed = Some (Regular t)"
        using W(9) [OF t] l(2) [of m] m by (auto simp: file_at_def split: option.splits)
      then show ?thesis using t by (auto simp: is_regular_def view_def)
    qed
    have d: "dw' = dw\<lparr>dw_queue := map (at dirs Claimed) names\<rparr>" "disk' = disk"
      using assms(3,5) r Some by (simp_all add: sweep_def sweep_claimed at_join [OF assms(1)] cong: filter_cong)
    have "distinct (map (at dirs Claimed) names)"
      using l assms(1) by (auto simp: distinct_map inj_on_def)
    moreover have "\<exists>n. n \<in> dom texts \<and> p = at dirs Claimed n \<and> view dirs disk n Claimed \<noteq> None"
      if "p \<in> set (map (at dirs Claimed) names)" for p
      using that r l(2) unfolding set_map by blast
    ultimately have "watch_inv dirs parser texts [] h (dw', disk')"
      using watch_queue [OF assms(2), of "map (at dirs Claimed) names"] by (simp add: d)
    then show ?thesis using l(2) by (simp add: d)
  qed
  then show "watch_inv dirs parser texts [] h (dw', disk')" "disk' = disk" "dw_open dw' = dw_open dw"
    "entries \<noteq> None \<Longrightarrow> view dirs disk n Claimed \<noteq> None \<Longrightarrow> file_name n \<Longrightarrow> at dirs Claimed n \<in> set (dw_queue dw')"
    by blast+
qed

lemma new_watcher_inv:
  assumes "good_dirs dirs" "listing disk (dir_process dirs) claimed" "listing disk (dir_ready dirs) names"
    "new_watcher su (dir_ready dirs) (dir_process dirs) claimed names disk = (dw, disk')"
    and w: "watch_inv dirs parser texts [] h
      (\<lparr>dw_source = dir_ready dirs, dw_target = dir_process dirs, dw_queue = [], dw_open = False\<rparr>, disk)"
  shows "watch_inv dirs parser texts [] h (dw, disk')"
proof (cases "dirs_ok su \<and> inotify_ok su \<and> watch_ok su \<and> eventfd_ok su")
  case False
  then show ?thesis using assms(4) w by (auto simp: new_watcher_def Let_def split: if_splits)
next
  case True
  let ?dw = "\<lparr>dw_source = dir_ready dirs, dw_target = dir_process dirs, dw_queue = [], dw_open = True\<rparr>"
  obtain dw1 disk1 where s: "sweep claimed (dir_process dirs) True (?dw, disk) = (dw1, disk1)" by (rule prod.exhaust)
  have "watch_inv dirs parser texts [] h (?dw, disk)" using w by (simp add: watch_inv_def)
  from sweep_claimed_inv(1,2) [OF assms(1) this _ assms(2) s]
  have i: "watch_inv dirs parser texts [] h (dw1, disk1)" and d: "disk1 = disk" by simp_all
  have e: "sweep names (dir_ready dirs) False (dw1, disk) = (dw, disk')"
    using assms(4) True s d by (simp add: new_watcher_def)
  show ?thesis
  proof (cases names)
    case None
    then show ?thesis using i e d by (simp add: sweep_def)
  next
    case (Some ns)
    have "file_name n" if "n \<in> set ns" for n using assms(3) that Some by (simp add: listing_def)
    then have one: "sweep_entry (dir_ready dirs) False n (dw, disk) = (dw, disk)
        \<or> (\<exists>m. file_name m \<and> sweep_entry (dir_ready dirs) False n (dw, disk) = snd (claim m (dw, disk)))"
      if "n \<in> set ns" for n dw disk using that by (auto simp: sweep_entry_def)
    have f: "foldl (\<lambda>x n. sweep_entry (dir_ready dirs) False n x) (dw1, disk1) ns = (dw, disk')"
      using e Some d by (simp add: sweep_def)
    from claims_inv [where f = "sweep_entry (dir_ready dirs) False", OF assms(1) i _ one f] show ?thesis by simp
  qed
qed

section \<open>The invariant\<close>

text \<open>
  \<open>H\<close> is the history of the runs before this one, \<open>h\<close> that of this run. What the pool has accepted are
  claimed files of which the earlier runs have applied a beginning.
\<close>

definition plant_inv ::
    "FileDirs \<Rightarrow> (string \<Rightarrow> CdrRecord option) \<Rightarrow> cmd list \<Rightarrow> history \<Rightarrow> history \<Rightarrow> 'w Plant \<Rightarrow> bool" where
  "plant_inv dirs parser c0 H h s \<longleftrightarrow>
     ingest_inv (pt_sys s) dirs parser (\<lambda>src. progress src (c0 @ history_cmds H)) h (pt_run s)
     \<and> shared_rel (c0 @ history_cmds H) h (in_sink (pt_run s))
     \<and> watch_inv dirs parser (pt_sent s) (p_accepted (in_pool (pt_run s))) H (pt_watch s, pt_disk s)
     \<and> (\<forall>p. p \<in> set (p_accepted (in_pool (pt_run s))) \<longrightarrow> (\<exists>n t. pt_sent s n = Some t \<and> p = at dirs Claimed n
          \<and> in_given (pt_run s) p = Some t \<and> prefix (concat (batches_of n H)) (file_records parser t)))
     \<and> finite (dom (pt_sent s)) \<and> (\<forall>n. n \<notin> dom (pt_sent s) \<longrightarrow> batches_of n H = []) \<and> list_all (\<lambda>(src, b). src \<noteq> []) H"

lemma plant_invD:
  assumes "plant_inv dirs parser c0 H h s"
  shows "ingest_inv (pt_sys s) dirs parser (\<lambda>src. progress src (c0 @ history_cmds H)) h (pt_run s)"
    "shared_rel (c0 @ history_cmds H) h (in_sink (pt_run s))"
    "watch_inv dirs parser (pt_sent s) (p_accepted (in_pool (pt_run s))) H (pt_watch s, pt_disk s)"
    "p \<in> set (p_accepted (in_pool (pt_run s))) \<Longrightarrow> \<exists>n t. pt_sent s n = Some t \<and> p = at dirs Claimed n
       \<and> in_given (pt_run s) p = Some t \<and> prefix (concat (batches_of n H)) (file_records parser t)"
    "finite (dom (pt_sent s))" "n \<notin> dom (pt_sent s) \<Longrightarrow> batches_of n H = []" "list_all (\<lambda>(src, b). src \<noteq> []) H"
  using assms by (simp_all add: plant_inv_def)

lemma plant_names:
  assumes "plant_inv dirs parser c0 H h s" "good_dirs dirs"
  shows "n \<in> dom (pt_sent s) \<Longrightarrow> file_name n"
    "p \<in> set (p_accepted (in_pool (pt_run s))) \<Longrightarrow> \<exists>n. n \<in> dom (pt_sent s) \<and> file_name n \<and> p = at dirs Claimed n"
    "apart dirs (p_accepted (in_pool (pt_run s)))"
proof -
  note P = plant_invD [OF assms(1)]
  show 1: "file_name n" if "n \<in> dom (pt_sent s)" for n using that watch_invD(7) [OF P(3)] by auto
  show 2: "\<exists>n. n \<in> dom (pt_sent s) \<and> file_name n \<and> p = at dirs Claimed n"
    if "p \<in> set (p_accepted (in_pool (pt_run s)))" for p using P(4) [OF that] 1 by blast
  have "distinct (p_accepted (in_pool (pt_run s)))" using watch_invD(4) [OF P(3)] by simp
  then show "apart dirs (p_accepted (in_pool (pt_run s)))" using apart_names [OF assms(2)] 2 by blast
qed

section \<open>What the workers touch\<close>

lemma work_given: "work_step sys dirs parser sk r r' \<Longrightarrow> in_given r' = in_given r"
  by (induction rule: work_step.induct) simp_all

lemma work_disk:
  assumes "work_step sys dirs parser sk r r'"
    "\<And>i p. i < length (p_workers (in_pool r)) \<Longrightarrow> p_workers (in_pool r) ! i = Running p \<Longrightarrow> p \<in> set ps"
    "q \<notin> set ps" "q \<notin> done_path dirs ` set ps" "q \<notin> fail_path dirs ` set ps"
  shows "in_disk r' q = in_disk r q"
  using assms(1)
proof cases
  case (closed i p src st batch src')
  then have "p \<in> set ps" using assms(2) by blast
  then have "q \<noteq> p" "q \<noteq> dir_done dirs @ basename_of p" "q \<noteq> dir_fail dirs @ basename_of p"
    using assms(3-5) by (auto simp: done_path_def fail_path_def)
  then show ?thesis unfolding closed(1) by (simp add: dispose_def rename_file_def Let_def)
qed simp_all

lemma work_views:
  assumes "good_dirs dirs" "plant_inv dirs parser c0 H h s" "work_step (pt_sys s) dirs parser sk (pt_run s) r"
    and n: "file_name n" and a: "a = Ready \<or> at dirs Claimed n \<notin> set (p_accepted (in_pool (pt_run s)))"
  shows "view dirs (in_disk r) n a = view dirs (pt_disk s) n a"
proof -
  note N = plant_names [OF assms(2,1)]
  let ?acc = "p_accepted (in_pool (pt_run s))"
  have "at dirs a n \<noteq> q \<and> at dirs a n \<noteq> done_path dirs q \<and> at dirs a n \<noteq> fail_path dirs q" if q: "q \<in> set ?acc" for q
    using N(2) [OF q] q assms(1) n a by (auto simp: at_moves)
  then have "at dirs a n \<notin> set ?acc" "at dirs a n \<notin> done_path dirs ` set ?acc" "at dirs a n \<notin> fail_path dirs ` set ?acc"
    by blast+
  then show ?thesis
    using work_disk [OF assms(3) worker_task(1) [OF plant_invD(1) [OF assms(2)] N(3)]] by (simp add: view_def)
qed

lemma work_located:
  assumes "good_dirs dirs" "plant_inv dirs parser c0 H h s" "work_step (pt_sys s) dirs parser sk (pt_run s) r"
  shows "located dirs (pt_sent s) (in_disk r)"
proof -
  note P = plant_invD [OF assms(2)]
  note W = watch_invD [OF P(3)]
  note N = plant_names [OF assms(2,1)]
  show ?thesis
    using assms(3)
  proof cases
    case (closed i p src st batch src')
    note T = worker_task [OF P(1) N(3) closed(2,3)]
    obtain n t where n: "pt_sent s n = Some t" "p = at dirs Claimed n" "in_given (pt_run s) p = Some t" using P(4) [OF T(1)] by blast
    then have c: "view dirs (pt_disk s) n Claimed = Some (Regular t)" using T(4) by (simp add: view_def text_of_def)
    have f: "file_name n" by (rule W(7) [OF n(1)])
    let ?b = "if st = DONE then Done else Failed"
    have dest: "(if st = DONE then dir_done dirs else dir_fail dirs) @ basename_of p = at dirs ?b n"
      by (simp add: n(2) at_basename [OF assms(1) f]) (simp add: at_def)
    have "plain dirs (pt_disk s)" by (rule W(3))
    then have "pt_disk s (at dirs ?b n) \<noteq> Some Directory" by (simp add: plain_def at_def)
    then have "dispose dirs p (st = DONE) (pt_disk s) = ((pt_disk s)(at dirs Claimed n := None))(at dirs ?b n := Some (Regular t))"
      using c dest by (simp add: dispose_def rename_file_def n(2) view_def)
    moreover have "located dirs (pt_sent s) (((pt_disk s)(at dirs Claimed n := None))(at dirs ?b n := Some (Regular t)))"
      by (rule located_move [OF assms(1) W(10) n(1) f c]) simp
    ultimately show ?thesis unfolding closed(1) by simp
  qed (use W(10) in simp_all)
qed

section \<open>Every step keeps it\<close>

lemma dropped_watch_inv:
  assumes "good_dirs dirs" "watch_inv dirs parser texts acc h (dw, disk)" "file_name n" "texts n = None"
    "at dirs Claimed n \<notin> set acc" "batches_of n h = []"
  shows "watch_inv dirs parser (texts(n \<mapsto> t)) acc h (dw, disk(at dirs Ready n := Some (Regular t)))"
proof -
  note W = watch_invD [OF assms(2)]
  let ?disk = "disk(at dirs Ready n := Some (Regular t))"
  have v: "view dirs ?disk m a = (if a = Ready \<and> m = n then Some (Regular t) else view dirs disk m a)" if "file_name m" for m a
    by (rule view_upd [OF assms(1) that assms(3)])
  have new: "n \<notin> dom texts" using assms(4) by auto
  show ?thesis
    unfolding watch_inv_def prod.case
  proof (intro conjI allI impI)
    show "plain dirs ?disk" using W(3) by (simp add: plain_upd)
    show "located dirs (texts(n \<mapsto> t)) ?disk"
    proof (rule located_upd [OF W(10)])
      have "view dirs disk n = (\<lambda>a. None)" using W(10) assms(3,4) by (auto simp: located_def)
      then show "stands dirs ?disk n t Ready" by (auto simp: stands_view fun_eq_iff v [OF assms(3)])
      show "view dirs ?disk m = view dirs disk m" if "file_name m" "m \<noteq> n" for m
        by (rule ext) (simp add: v [OF that(1)] that(2))
    qed
    show "dw_source dw = dir_ready dirs" "dw_target dw = dir_process dirs" "distinct (dw_queue dw @ acc)"
      using W(1,2,4) by simp_all
    show "\<exists>m. m \<in> dom (texts(n \<mapsto> t)) \<and> p = at dirs Claimed m \<and> view dirs ?disk m Claimed \<noteq> None"
      if q: "p \<in> set (dw_queue dw)" for p
    proof -
      obtain m where m: "m \<in> dom texts" "p = at dirs Claimed m" "view dirs disk m Claimed \<noteq> None"
        using W(5) [OF q] by blast
      then have "view dirs ?disk m Claimed \<noteq> None" using v [of m Claimed] W(7) by auto
      then show ?thesis using m by (intro exI [of _ m]) auto
    qed
    show "view dirs ?disk m Ready = None" "view dirs ?disk m Claimed = None" if "file_name m" "m \<notin> dom (texts(n \<mapsto> t))" for m
      using that W(6) [of m] v by auto
    show "file_name m" if "(texts(n \<mapsto> t)) m = Some u" for m u
      using that W(7) [of m u] assms(3) by (auto split: if_splits)
    show "if at dirs Claimed m \<in> set acc then view dirs ?disk m Ready = None
        else file_at dirs ?disk m u (file_records parser u) (batches_of m h)" if m: "(texts(n \<mapsto> t)) m = Some u" for m u
    proof (cases "m = n")
      case True
      then show ?thesis using m assms(5,6) v [OF assms(3)] W(6) [OF assms(3) new] by (simp add: file_at_def)
    next
      case False
      then have m: "texts m = Some u" using m by simp
      have e: "view dirs ?disk m a = view dirs disk m a" for a using v [OF W(7) [OF m]] False by simp
      show ?thesis using W(8,9) [OF m] file_at_frame [OF e] e by simp
    qed
  qed
qed

lemma plant_dropped:
  assumes "good_dirs dirs" "plant_inv dirs parser c0 H h s" "file_name n" "pt_sent s n = None"
  shows "plant_inv dirs parser c0 H h (s\<lparr>pt_sent := (pt_sent s)(n \<mapsto> t),
      pt_run := (pt_run s)\<lparr>in_disk := deliver (path_join (dir_ready dirs) n, t) (pt_disk s)\<rparr>\<rparr>)"
proof -
  note P = plant_invD [OF assms(2)]
  note W = watch_invD [OF P(3)]
  note N = plant_names [OF assms(2,1)]
  let ?disk = "(pt_disk s)(at dirs Ready n := Some (Regular t))"
  have d: "deliver (path_join (dir_ready dirs) n, t) (pt_disk s) = ?disk" by (simp add: deliver_def at_join [OF assms(1)])
  have new: "n \<notin> dom (pt_sent s)" using assms(4) by auto
  have na: "at dirs Claimed n \<notin> set (p_accepted (in_pool (pt_run s)))" using N(2) new assms(1,3) by fastforce
  have "ingest_inv (pt_sys s) dirs parser (\<lambda>src. progress src (c0 @ history_cmds H)) h ((pt_run s)\<lparr>in_disk := ?disk\<rparr>)"
  proof (rule inv_delivered [OF P(1)])
    show "plain dirs ?disk" using W(3) by (simp add: plain_upd)
    show "?disk p = pt_disk s p \<and> ?disk (done_path dirs p) = pt_disk s (done_path dirs p) \<and> ?disk (fail_path dirs p) = pt_disk s (fail_path dirs p)"
      if "p \<in> dom (in_given (pt_run s))" for p
      using that N(2) [of p] ingest_invD(2) [OF P(1)] assms(1,3) by (auto simp: at_moves)
  qed
  moreover have "watch_inv dirs parser ((pt_sent s)(n \<mapsto> t)) (p_accepted (in_pool (pt_run s))) H (pt_watch s, ?disk)"
    by (rule dropped_watch_inv [OF assms(1) P(3) assms(3,4) na P(6) [OF new]])
  moreover have "\<exists>m u. ((pt_sent s)(n \<mapsto> t)) m = Some u \<and> p = at dirs Claimed m
      \<and> in_given (pt_run s) p = Some u \<and> prefix (concat (batches_of m H)) (file_records parser u)"
    if "p \<in> set (p_accepted (in_pool (pt_run s)))" for p
    using P(4) [OF that] new by (metis domI fun_upd_other)
  ultimately show ?thesis using P(2,5,6,7) by (simp add: plant_inv_def d)
qed

lemma plant_noticed:
  assumes "good_dirs dirs" "plant_inv dirs parser c0 H h s" "list_all (\<lambda>(n, is_dir). CHR ''/'' \<notin> set n) evs"
    "read_events (Events [] evs) (pt_watch s, pt_disk s) = (True, dw, disk)"
  shows "plant_inv dirs parser c0 H h (s\<lparr>pt_watch := dw, pt_run := (pt_run s)\<lparr>in_disk := disk\<rparr>\<rparr>)"
proof -
  note P = plant_invD [OF assms(2)]
  note N = plant_names [OF assms(2,1)]
  let ?acc = "p_accepted (in_pool (pt_run s))"
  have f: "foldl (\<lambda>x e. on_event e x) (pt_watch s, pt_disk s) evs = (dw, disk)"
    using assms(4) by (simp add: read_events_def)
  have one: "on_event e (dw, disk) = (dw, disk) \<or> (\<exists>n. file_name n \<and> on_event e (dw, disk) = snd (claim n (dw, disk)))"
    if "e \<in> set evs" for e dw disk
    using assms(3) that by (cases e) (auto simp: on_event_def file_name_def list_all_iff)
  have "watch_inv dirs parser (pt_sent s) ?acc H (dw, disk)" "same_for dirs ?acc (pt_disk s) disk"
    using claims_inv [where f = on_event, OF assms(1) P(3) _ one f] N(2) by blast+
  moreover have "ingest_inv (pt_sys s) dirs parser (\<lambda>src. progress src (c0 @ history_cmds H)) h ((pt_run s)\<lparr>in_disk := disk\<rparr>)"
    using calculation ingest_invD(2) [OF P(1)]
    by (intro inv_delivered [OF P(1)]) (auto simp: same_for_def dest: watch_invD(3))
  ultimately show ?thesis using P(2,4-7) by (simp add: plant_inv_def)
qed

lemma handed_watch_inv:
  assumes "watch_inv dirs parser texts acc h (dw, disk)" "dw_queue dw = p # ps" "p = at dirs Claimed n"
    "view dirs disk n Ready = None" "acc' = acc @ [p] \<or> acc' = acc" "good_dirs dirs" "file_name n"
  shows "watch_inv dirs parser texts acc' h (dw\<lparr>dw_queue := ps\<rparr>, disk)"
proof -
  note W = watch_invD [OF assms(1)]
  have d: "p \<notin> set acc" "p \<notin> set ps" "distinct (ps @ acc)" using W(4) assms(2) by auto
  show ?thesis
    unfolding watch_inv_def prod.case
  proof (intro conjI allI impI)
    show "dw_source (dw\<lparr>dw_queue := ps\<rparr>) = dir_ready dirs" "dw_target (dw\<lparr>dw_queue := ps\<rparr>) = dir_process dirs"
      "plain dirs disk" "located dirs texts disk" "distinct (dw_queue (dw\<lparr>dw_queue := ps\<rparr>) @ acc')"
      using W(1-3,10) d assms(5) by auto
    show "\<exists>m. m \<in> dom texts \<and> q = at dirs Claimed m \<and> view dirs disk m Claimed \<noteq> None"
      if "q \<in> set (dw_queue (dw\<lparr>dw_queue := ps\<rparr>))" for q
      using that W(5) [of q] assms(2) by simp
    show "view dirs disk m Ready = None" "view dirs disk m Claimed = None"
      if "file_name m" "m \<notin> dom texts" for m using W(6) [OF that] by simp_all
    show "file_name m" if "texts m = Some v" for m v by (rule W(7) [OF that])
    show "if at dirs Claimed m \<in> set acc' then view dirs disk m Ready = None
        else file_at dirs disk m v (file_records parser v) (batches_of m h)" if m: "texts m = Some v" for m v
    proof (cases "at dirs Claimed m = p")
      case True
      then have "m = n" using W(7) [OF m] assms(3,6,7) by simp
      then show ?thesis using W(9) [OF m] assms(4) d(1) True by simp
    next
      case False
      then show ?thesis using W(8,9) [OF m] assms(5) by auto
    qed
  qed
qed

lemma plant_handed:
  assumes "good_dirs dirs" "plant_inv dirs parser c0 H h s" "dw_queue (pt_watch s) = p # ps"
    "pt_disk s p = Some (Regular t)" "submit p (in_pool (pt_run s)) = Some (b, pl)"
  shows "plant_inv dirs parser c0 H h (s\<lparr>pt_watch := (pt_watch s)\<lparr>dw_queue := ps\<rparr>, pt_run := (pt_run s)\<lparr>in_pool := pl,
      in_given := if b then (in_given (pt_run s))(p \<mapsto> t) else in_given (pt_run s)\<rparr>\<rparr>)"
proof -
  note P = plant_invD [OF assms(2)]
  note W = watch_invD [OF P(3)]
  note N = plant_names [OF assms(2,1)]
  let ?acc = "p_accepted (in_pool (pt_run s))"
  obtain n where n: "n \<in> dom (pt_sent s)" "p = at dirs Claimed n" "view dirs (pt_disk s) n Claimed \<noteq> None"
    using W(5) [of p] assms(3) by auto
  then obtain u where u: "pt_sent s n = Some u" by auto
  have na: "p \<notin> set ?acc" "distinct (ps @ ?acc)" using W(4) assms(3) by auto
  have "file_at dirs (pt_disk s) n u (file_records parser u) (batches_of n H)" using W(9) [OF u] na(1) n(2) by simp
  then have f: "u = t" "view dirs (pt_disk s) n Ready = None" "prefix (concat (batches_of n H)) (file_records parser u)"
    using n(2,3) assms(4) by (auto simp: file_at_def view_def split: option.splits)
  have acc: "p_accepted pl = (if b then ?acc @ [p] else ?acc)" by (rule submit_simps(3) [OF assms(5)])
  have "apart dirs (p_accepted pl)"
  proof (rule apart_names [OF assms(1)])
    show "distinct (p_accepted pl)" using na by (simp add: acc)
    show "\<exists>m. file_name m \<and> q = at dirs Claimed m" if "q \<in> set (p_accepted pl)" for q
      using that N(1) [OF n(1)] N(2) [of q] n(2) by (auto simp: acc split: if_splits)
  qed
  from inv_submitted [OF P(1) this assms(4,5)]
  have "ingest_inv (pt_sys s) dirs parser (\<lambda>src. progress src (c0 @ history_cmds H)) h
    ((pt_run s)\<lparr>in_pool := pl, in_given := if b then (in_given (pt_run s))(p \<mapsto> t) else in_given (pt_run s)\<rparr>)" .
  moreover have "watch_inv dirs parser (pt_sent s) (p_accepted pl) H ((pt_watch s)\<lparr>dw_queue := ps\<rparr>, pt_disk s)"
    by (rule handed_watch_inv [OF P(3) assms(3) n(2) f(2) _ assms(1) N(1) [OF n(1)]]) (simp add: acc)
  moreover have "\<exists>m v. pt_sent s m = Some v \<and> q = at dirs Claimed m
      \<and> (if b then (in_given (pt_run s))(p \<mapsto> t) else in_given (pt_run s)) q = Some v \<and> prefix (concat (batches_of m H)) (file_records parser v)"
    if "q \<in> set (p_accepted pl)" for q
  proof (cases "q = p \<and> b")
    case True
    then show ?thesis using u n(2) f by (intro exI [of _ n] exI [of _ u]) simp
  next
    case False
    then have q: "q \<in> set ?acc" using that by (auto simp: acc split: if_splits)
    then have "q \<noteq> p" using na(1) by auto
    then show ?thesis using P(4) [OF q] by simp
  qed
  ultimately show ?thesis using P(2,5-7) by (simp add: plant_inv_def)
qed

lemma plant_worked:
  assumes "good_dirs dirs" "plant_inv dirs parser c0 H h s" "reliable_redis E"
    "work_step (pt_sys s) dirs parser (thread_sink E) (pt_run s) r"
  shows "\<exists>h'. plant_inv dirs parser c0 H h' (s\<lparr>pt_run := r\<rparr>)"
proof -
  note P = plant_invD [OF assms(2)]
  note W = watch_invD [OF P(3)]
  note N = plant_names [OF assms(2,1)]
  let ?acc = "p_accepted (in_pool (pt_run s))" and ?base = "\<lambda>src. progress src (c0 @ history_cmds H)"
  have "readers (thread_sink E) (shared_rel (c0 @ history_cmds H)) ?base"
    by (intro readers.intro reliable_redis.thread_contract [OF assms(3)])
  from readers.work_inv [OF this assms(4) P(1,2) N(3)]
  obtain h' where h': "ingest_inv (pt_sys s) dirs parser ?base h' r" "shared_rel (c0 @ history_cmds H) h' (in_sink r)" by blast
  note v = work_views [OF assms(1,2,4)]
  have "watch_inv dirs parser (pt_sent s) ?acc H (pt_watch s, in_disk r)"
    by (rule watch_disk [OF P(3) ingest_invD(3) [OF h'(1)] work_located [OF assms(1,2,4)] v]) (use N(2) assms(1) in fastforce)+
  then show ?thesis using h' P(4-7) work_accepted [OF assms(4)] work_given [OF assms(4)]
    by (intro exI [of _ h']) (simp add: plant_inv_def)
qed

section \<open>The end of a run\<close>

text \<open>The files anybody delivers: rising sequences, and names the store has not met.\<close>

definition deliveries_ok :: "(string \<Rightarrow> CdrRecord option) \<Rightarrow> cmd list \<Rightarrow> (string \<rightharpoonup> string) \<Rightarrow> bool" where
  "deliveries_ok parser c0 texts \<longleftrightarrow>
     (\<forall>n t. texts n = Some t \<longrightarrow> rising (file_records parser t) \<and> progress n c0 = 0)"

lemma batches_of_append [simp]: "batches_of n (a @ b) = batches_of n a @ batches_of n b"
  by (simp add: batches_of_def)

lemma plant_file:
  assumes "good_dirs dirs" "plant_inv dirs parser c0 H h s" "deliveries_ok parser c0 (pt_sent s)" "pt_sent s n = Some t"
  shows "file_at dirs (pt_disk s) n t (file_records parser t) (batches_of n (H @ h))"
proof -
  note P = plant_invD [OF assms(2)]
  note W = watch_invD [OF P(3)]
  note N = plant_names [OF assms(2,1)]
  let ?acc = "p_accepted (in_pool (pt_run s))" and ?p = "at dirs Claimed n" and ?rs = "file_records parser t"
  have n: "file_name n" by (rule W(7) [OF assms(4)])
  show ?thesis
  proof (cases "?p \<in> set ?acc")
    case False
    have "batches_of n h = []"
    proof (rule ccontr)
      assume "batches_of n h \<noteq> []"
      then obtain q where q: "q \<in> set ?acc" "n = basename_of q" using ingest_invD(7) [OF P(1)] by blast
      then obtain m where "file_name m" "q = at dirs Claimed m" using N(2) by blast
      then show False using q False at_basename [OF assms(1)] by simp
    qed
    then show ?thesis using W(9) [OF assms(4) False] by simp
  next
    case True
    obtain m u where m: "pt_sent s m = Some u" "?p = at dirs Claimed m" "in_given (pt_run s) ?p = Some u"
        "prefix (concat (batches_of m H)) (file_records parser u)" using P(4) [OF True] by blast
    then have "m = n" using W(7) [OF m(1)] n assms(1) by simp
    then have g: "text_of (pt_run s) ?p = t" "prefix (concat (batches_of n H)) ?rs"
      using m assms(4) by (simp_all add: text_of_def)
    then obtain rest where rest: "?rs = concat (batches_of n H) @ rest" by (auto simp: prefix_def)
    let ?y = "yield_of (pt_sys s) parser (\<lambda>src. progress src (c0 @ history_cmds H)) (pt_run s) ?p"
    have "fresh (progress n (c0 @ history_cmds H)) ?rs = rest"
      using resume_rest [OF _ rest _ P(7)] assms(3,4) by (simp add: deliveries_ok_def)
    then have y: "?y = None \<or> ?y = Some rest"
      using yield_cases [of "pt_sys s" parser ?p t "progress n (c0 @ history_cmds H)"]
      by (simp add: yield_of_def g(1) at_basename [OF assms(1) n])
    note f = inv_file [OF P(1) N(3) True, unfolded g(1) at_basename [OF assms(1) n]]
    have r: "view dirs (pt_disk s) n Ready = None" by (rule W(8) [OF assms(4) True])
    show ?thesis
    proof (cases "?p \<in> set (p_finished (in_pool (pt_run s)))")
      case True
      then have "settled dirs (in_stop (pt_run s)) (pt_disk s) ?p t ?y (batches_of n h)" using f by simp
      then show ?thesis using r y rest
        by (auto simp: settled_def file_at_def view_def at_moves [OF assms(1) n])
    next
      case False
      then show ?thesis using f r y rest by (auto simp: file_at_def view_def)
    qed
  qed
qed

lemma plant_restarted:
  assumes "good_dirs dirs" "plant_inv dirs parser c0 H h s" "deliveries_ok parser c0 (pt_sent s)"
    and r: "new_pool mc n c = Inr pl" "listing (pt_disk s) (dir_process dirs) claimed" "listing (pt_disk s) (dir_ready dirs) names"
      "new_watcher su (dir_ready dirs) (dir_process dirs) claimed names (pt_disk s) = (dw, disk)"
    and c0: "list_all is_write c0"
  shows "plant_inv dirs parser c0 (H @ h) [] \<lparr>pt_run = ingest_start pl disk (zero_run, new_server (pt_log s) w),
      pt_sys = sys, pt_watch = dw, pt_sent = pt_sent s\<rparr>"
proof -
  note P = plant_invD [OF assms(2)]
  note W = watch_invD [OF P(3)]
  let ?l = "c0 @ history_cmds (H @ h)"
  have l: "pt_log s = ?l" "list_all (\<lambda>(src, b). src \<noteq> []) h"
    using P(2) by (auto simp: shared_rel_def history_cmds_def split: prod.splits)
  have "watch_inv dirs parser (pt_sent s) [] (H @ h)
      (\<lparr>dw_source = dir_ready dirs, dw_target = dir_process dirs, dw_queue = [], dw_open = False\<rparr>, pt_disk s)"
    using W(3,6,7,10) plant_file [OF assms(1-3)] by (simp add: watch_inv_def)
  from new_watcher_inv [OF assms(1) r(2-4) this] have w: "watch_inv dirs parser (pt_sent s) [] (H @ h) (dw, disk)" .
  have "ingest_inv sys dirs parser (\<lambda>src. progress src ?l) [] (ingest_start pl disk (zero_run, new_server ?l w))"
    using new_pool_inv [OF r(1)] r(1) watch_invD(3) [OF w]
    by (auto simp: ingest_inv_def ingest_start_def new_pool_def split: if_splits)
  moreover have "shared_rel ?l [] (zero_run, new_server ?l w)"
    using c0 history_writes by (intro new_server_rel) simp
  moreover have "p_accepted pl = []" using r(1) by (auto simp: new_pool_def split: if_splits)
  moreover have "batches_of m h = []" if "m \<notin> dom (pt_sent s)" for m
  proof (rule ccontr)
    assume "batches_of m h \<noteq> []"
    then obtain q where "q \<in> set (p_accepted (in_pool (pt_run s)))" "m = basename_of q" using ingest_invD(7) [OF P(1)] by blast
    then show False using plant_names(2) [OF assms(2,1)] at_basename [OF assms(1)] that by metis
  qed
  ultimately show ?thesis using w l P(5-7) by (simp add: plant_inv_def ingest_start_def)
qed

text \<open>All steps together.\<close>

lemma plant_sent: "plant_step dirs parser E s s' \<Longrightarrow> pt_sent s \<subseteq>\<^sub>m pt_sent s'"
  by (induction rule: plant_step.induct) (auto simp: map_le_def)

lemma deliveries_before: "pt_sent s \<subseteq>\<^sub>m pt_sent s' \<Longrightarrow> deliveries_ok parser c0 (pt_sent s') \<Longrightarrow> deliveries_ok parser c0 (pt_sent s)"
  unfolding deliveries_ok_def map_le_def by (metis domI)

lemma plant_step_inv:
  assumes "plant_step dirs parser E s s'" "good_dirs dirs" "plant_inv dirs parser c0 H h s" "reliable_redis E"
    "list_all is_write c0" "deliveries_ok parser c0 (pt_sent s')"
  shows "\<exists>H' h'. plant_inv dirs parser c0 H' h' s'"
  using assms(1)
proof cases
  case (dropped n t)
  show ?thesis using plant_dropped [OF assms(2,3) dropped(2,3)] unfolding dropped(1) by blast
next
  case (noticed evs dw disk)
  show ?thesis using plant_noticed [OF assms(2,3) noticed(4,5)] unfolding noticed(1) by blast
next
  case (handed p ps t b pl)
  show ?thesis using plant_handed [OF assms(2,3) handed(3-5)] unfolding handed(1) by blast
next
  case (worked r)
  show ?thesis using plant_worked [OF assms(2,3,4) worked(2)] unfolding worked(1) by blast
next
  case (restarted mc n c pl claimed names su dw disk w sys)
  have "deliveries_ok parser c0 (pt_sent s)" by (rule deliveries_before [OF plant_sent [OF assms(1)] assms(6)])
  from plant_restarted [OF assms(2,3) this restarted(2-5) assms(5)] show ?thesis
    unfolding restarted(1) by (intro exI)
qed

text \<open>The disk before the first run: the four directories are empty.\<close>

definition empty_dirs :: "FileDirs \<Rightarrow> filesys \<Rightarrow> bool" where
  "empty_dirs dirs disk \<longleftrightarrow> plain dirs disk \<and> (\<forall>n. file_name n \<longrightarrow> view dirs disk n = (\<lambda>a. None))"

lemma plant_start_inv:
  assumes "empty_dirs dirs disk" "list_all is_write c0"
  shows "plant_inv dirs parser c0 [] [] (plant_start dirs disk c0 w)"
proof -
  have "pool_inv no_pool" by (simp add: no_pool_def pool_inv_def)
  then show ?thesis using assms new_server_rel [OF assms(2)]
    by (auto simp: plant_inv_def plant_start_def ingest_inv_def ingest_start_def watch_inv_def empty_dirs_def no_pool_def history_cmds_def
      located_def)
qed

lemma plant_steps_inv:
  assumes "(plant_step dirs parser E)\<^sup>*\<^sup>* (plant_start dirs disk c0 w) s" "good_dirs dirs" "empty_dirs dirs disk"
    "reliable_redis E" "list_all is_write c0" "deliveries_ok parser c0 (pt_sent s)"
  shows "\<exists>H h. plant_inv dirs parser c0 H h s"
  using assms(1,6)
proof (induction rule: rtranclp_induct)
  case base
  show ?case by (intro exI) (rule plant_start_inv [OF assms(3,5)])
next
  case (step s s')
  then have "deliveries_ok parser c0 (pt_sent s)" using deliveries_before plant_sent by blast
  then obtain H h where "plant_inv dirs parser c0 H h s" using step.IH by blast
  then show ?case using plant_step_inv [OF step(2) assms(2) _ assms(4,5) step.prems] by blast
qed

end
