(* ===== verification/Recovery.thy ===== *)
theory Recovery
  imports Plant
begin

text \<open>
  What the plant of \<open>Plant\<close> promises: every delivered file is applied exactly once over any number of
  runs, every record is counted once, and a start at which the system calls succeed can take up all that
  is left. The first part builds the run that catches up, from the sweep of the watcher on.
\<close>

section \<open>A run that gets through\<close>

lemma work_steps:
  assumes "(work_step (pt_sys s) dirs parser (thread_sink E))\<^sup>*\<^sup>* (pt_run s) r" "good_dirs dirs" "reliable_redis E"
    "plant_inv dirs parser c0 H h s"
  shows "(plant_step dirs parser E)\<^sup>*\<^sup>* s (s\<lparr>pt_run := r\<rparr>) \<and> (\<exists>h'. plant_inv dirs parser c0 H h' (s\<lparr>pt_run := r\<rparr>))
    \<and> p_accepted (in_pool r) = p_accepted (in_pool (pt_run s))
    \<and> (\<forall>n a. file_name n \<longrightarrow> a = Ready \<or> at dirs Claimed n \<notin> set (p_accepted (in_pool (pt_run s))) \<longrightarrow>
         view dirs (in_disk r) n a = view dirs (pt_disk s) n a)"
  using assms(1)
proof (induction rule: rtranclp_induct)
  case base
  have "s\<lparr>pt_run := pt_run s\<rparr> = s" by simp
  then show ?case using assms(4) by auto
next
  case (step r r')
  let ?s = "s\<lparr>pt_run := r\<rparr>"
  obtain h1 where h1: "plant_inv dirs parser c0 H h1 ?s" using step.IH by blast
  have w: "work_step (pt_sys ?s) dirs parser (thread_sink E) (pt_run ?s) r'" using step(2) by simp
  obtain h2 where "plant_inv dirs parser c0 H h2 (?s\<lparr>pt_run := r'\<rparr>)" using plant_worked [OF assms(2) h1 assms(3) w] by blast
  moreover have "plant_step dirs parser E ?s (?s\<lparr>pt_run := r'\<rparr>)" by (rule plant_step.worked [OF w])
  moreover have "view dirs (in_disk r') n a = view dirs (in_disk r) n a"
    if "file_name n" "a = Ready \<or> at dirs Claimed n \<notin> set (p_accepted (in_pool (pt_run s)))" for n a
    using work_views [OF assms(2) h1 w that(1), of a] that(2) step.IH by simp
  ultimately show ?case using step.IH work_accepted [OF step(2)] by auto
qed

lemma listing_exists:
  assumes "good_dirs dirs" "plant_inv dirs parser c0 H h s" "a = Ready \<or> a = Claimed"
  shows "\<exists>names. distinct names \<and> (\<forall>n. n \<in> set names \<longleftrightarrow> file_name n \<and> view dirs (pt_disk s) n a \<noteq> None)"
proof -
  have "{n. file_name n \<and> view dirs (pt_disk s) n a \<noteq> None} \<subseteq> dom (pt_sent s)"
  proof (rule subsetI, rule ccontr)
    fix n assume "n \<in> {n. file_name n \<and> view dirs (pt_disk s) n a \<noteq> None}" "n \<notin> dom (pt_sent s)"
    then show False using watch_invD(6) [OF plant_invD(3) [OF assms(2)], of n] assms(3) by auto
  qed
  then have "finite {n. file_name n \<and> view dirs (pt_disk s) n a \<noteq> None}"
    using plant_invD(5) [OF assms(2)] finite_subset by blast
  then show ?thesis using finite_distinct_list by fastforce
qed

text \<open>Nothing that is still to be done is outside the queue; what is not taken up has not moved since \<open>s0\<close>.\<close>

definition catching_up ::
    "FileDirs \<Rightarrow> (string \<Rightarrow> CdrRecord option) \<Rightarrow> cmd list \<Rightarrow> filesys \<Rightarrow> (string \<rightharpoonup> string) \<Rightarrow> 'w Plant \<Rightarrow> bool" where
  "catching_up dirs parser c0 disk0 texts s \<longleftrightarrow>
     (let pool = in_pool (pt_run s) in
      (\<exists>H h. plant_inv dirs parser c0 H h s) \<and> pt_sent s = texts \<and> dw_open (pt_watch s) \<and> \<not> in_stop (pt_run s)
      \<and> \<not> p_stop pool \<and> 0 < p_capacity pool \<and> p_workers pool \<noteq> [] \<and> set (p_finished pool) = set (p_accepted pool)
      \<and> pt_sys s = all_calls_ok
      \<and> (\<forall>n. n \<in> dom texts \<longrightarrow> view dirs (pt_disk s) n Ready = None
           \<and> (at dirs Claimed n \<notin> set (dw_queue (pt_watch s) @ p_accepted pool) \<longrightarrow>
                view dirs (pt_disk s) n = view dirs disk0 n \<and> view dirs (pt_disk s) n Claimed = None)))"

abbreviation all_well :: watch_setup where
  "all_well \<equiv> \<lparr>dirs_ok = True, inotify_ok = True, watch_ok = True, eventfd_ok = True\<rparr>"

lemma sweep_open: "dw_open (fst (sweep entries dir b x)) = dw_open (fst x)"
proof -
  have one: "dw_open (fst (sweep_entry dir b n x)) = dw_open (fst x)" for n x
    by (cases x) (simp add: sweep_entry_def claim_def Let_def split: prod.split)
  have "dw_open (fst (foldl (\<lambda>x n. sweep_entry dir b n x) x names)) = dw_open (fst x)" for names
    by (induction names arbitrary: x) (simp_all add: one)
  then show ?thesis by (simp add: sweep_def split: option.split)
qed

lemma new_watcher_open:
  "dw_open (fst (new_watcher all_well (dir_ready dirs) (dir_process dirs) claimed ready disk))"
  by (simp add: new_watcher_def sweep_open)

lemma new_watcher_sweeps:
  assumes "good_dirs dirs" "located dirs texts disk0" "\<And>n. n \<in> dom texts \<Longrightarrow> file_name n"
    "listing disk0 (dir_process dirs) (Some claimed)" "listing disk0 (dir_ready dirs) (Some ready)"
    "new_watcher all_well (dir_ready dirs) (dir_process dirs) (Some claimed) (Some ready) disk0 = (dw, disk)"
    and n: "n \<in> dom texts"
  shows "view dirs disk n Ready = None"
    "at dirs Claimed n \<notin> set (dw_queue dw) \<Longrightarrow> view dirs disk n = view dirs disk0 n \<and> view dirs disk n Claimed = None"
proof -
  have lists: "distinct ready" "\<And>n. n \<in> set claimed \<longleftrightarrow> file_name n \<and> view dirs disk0 n Claimed \<noteq> None"
      "\<And>n. n \<in> set ready \<longleftrightarrow> file_name n \<and> view dirs disk0 n Ready \<noteq> None"
    using assms(4,5) by (simp_all add: listing_def at_join [OF assms(1)] view_def)
  have place: "\<exists>t a. stands dirs disk0 m t a" if "file_name m" "view dirs disk0 m b \<noteq> None" for m b
    using that assms(2) by (fastforce simp: located_def split: option.splits)
  have regular: "is_regular disk0 (at dirs b m)" if "file_name m" "view dirs disk0 m b \<noteq> None" for m b
    using place [OF that] that(2) by (auto simp: stands_view is_regular_def view_def [symmetric] split: if_splits)
  have one: "view dirs disk0 m b = None \<or> view dirs disk0 m c = None" if "file_name m" "b \<noteq> c" for m b c
    using place [OF that(1), of b] that(2)
    by (cases "view dirs disk0 m b = None") (auto simp: stands_view split: if_splits)
  let ?dw = "\<lparr>dw_source = dir_ready dirs, dw_target = dir_process dirs, dw_queue = map (at dirs Claimed) claimed, dw_open = True\<rparr>"
  have "foldl (\<lambda>x n. sweep_entry (dw_source ?dw) False n x) (?dw, disk0) ready = (dw, disk)"
    using assms(6) regular lists(2)
    by (simp add: new_watcher_def sweep_def sweep_claimed at_join [OF assms(1)] cong: filter_cong)
  moreover have "path_join (dw_source ?dw) a \<noteq> path_join (dw_target ?dw) b" if "a \<in> set ready" "b \<in> set ready" for a b
    using that lists(3) assms(1) by (simp add: at_join)
  moreover have "disk0 (path_join (dw_target ?dw) a) \<noteq> Some Directory" if "a \<in> set ready" for a
    using one [of a Ready Claimed] that lists(3) assms(1) by (auto simp: at_join view_def)
  ultimately have sw: "dw_queue dw = dw_queue ?dw @ map (at dirs Claimed) (filter (\<lambda>n. is_regular disk0 (at dirs Ready n)) ready)"
      "\<And>m. m \<in> set ready \<Longrightarrow> is_regular disk0 (at dirs Ready m) \<Longrightarrow> disk (at dirs Ready m) = None"
      "\<And>p. (\<And>m. m \<in> set ready \<Longrightarrow> p \<noteq> at dirs Ready m \<and> p \<noteq> at dirs Claimed m) \<Longrightarrow> disk p = disk0 p"
    using sweep_source [OF lists(1), of ?dw disk0 dw disk] by (simp_all add: at_join [OF assms(1)])
  have q: "dw_queue dw = map (at dirs Claimed) (claimed @ ready)"
    using sw(1) regular lists(3) by (simp cong: filter_cong)
  have still: "view dirs disk n b = view dirs disk0 n b" if "n \<notin> set ready" for b
  proof -
    have "disk (at dirs b n) = disk0 (at dirs b n)"
    proof (rule sw(3))
      fix m assume m: "m \<in> set ready"
      then have "file_name m" "m \<noteq> n" using lists(3) that by auto
      then show "at dirs b n \<noteq> at dirs Ready m \<and> at dirs b n \<noteq> at dirs Claimed m"
        using assms(1) assms(3) [OF n] by simp
    qed
    then show ?thesis by (simp add: view_def)
  qed
  show "view dirs disk n Ready = None"
  proof (cases "n \<in> set ready")
    case True
    then show ?thesis using sw(2) [OF True] regular lists(3) by (simp add: view_def)
  next
    case False
    then show ?thesis using still lists(3) assms(3) [OF n] by auto
  qed
  show "view dirs disk n = view dirs disk0 n \<and> view dirs disk n Claimed = None" if "at dirs Claimed n \<notin> set (dw_queue dw)"
  proof -
    have out: "n \<notin> set ready" "n \<notin> set claimed" using that by (auto simp: q)
    have "view dirs disk n = view dirs disk0 n" by (rule ext) (rule still [OF out(1)])
    then show ?thesis using out(2) lists(2) assms(3) [OF n] by simp
  qed
qed

lemma watcher_catches_up:
  assumes "good_dirs dirs" "plant_inv dirs parser c0 H h s" "deliveries_ok parser c0 (pt_sent s)" "list_all is_write c0"
  shows "\<exists>s'. plant_step dirs parser E s s' \<and> catching_up dirs parser c0 (pt_disk s) (pt_sent s) s'"
proof -
  note W = watch_invD [OF plant_invD(3) [OF assms(2)]]
  let ?disk = "pt_disk s"
  obtain ready claimed where lists: "listing ?disk (dir_process dirs) (Some claimed)" "listing ?disk (dir_ready dirs) (Some ready)"
    using listing_exists [OF assms(1,2), of Ready] listing_exists [OF assms(1,2), of Claimed]
    by (auto simp: listing_def at_join [OF assms(1)] view_def)
  obtain dw disk where n: "new_watcher all_well (dir_ready dirs) (dir_process dirs) (Some claimed) (Some ready) ?disk = (dw, disk)"
    by (rule prod.exhaust)
  have names: "file_name m" if "m \<in> dom (pt_sent s)" for m using W(7) that by blast
  obtain pl :: "string Pool" where pl: "new_pool roomy 1 1 = Inr pl" by (simp add: new_pool_roomy kMaxThreads_def)
  let ?s = "\<lparr>pt_run = ingest_start pl disk (zero_run, new_server (pt_log s) undefined), pt_sys = all_calls_ok, pt_watch = dw, pt_sent = pt_sent s\<rparr>"
  have "plant_step dirs parser E s ?s" by (rule plant_step.restarted [OF pl lists n])
  moreover have "dw_open dw" using new_watcher_open [of dirs "Some claimed" "Some ready" ?disk] by (simp add: n)
  moreover have "view dirs (pt_disk ?s) m Ready = None \<and> (at dirs Claimed m \<notin> set (dw_queue dw @ p_accepted pl) \<longrightarrow>
      view dirs (pt_disk ?s) m = view dirs ?disk m \<and> view dirs (pt_disk ?s) m Claimed = None)" if "m \<in> dom (pt_sent s)" for m
    using new_watcher_sweeps [OF assms(1) W(10) names lists n that] by (auto simp: ingest_start_def)
  moreover have "\<exists>H h. plant_inv dirs parser c0 H h ?s"
    by (intro exI) (rule plant_restarted [OF assms(1-3) pl lists n assms(4)])
  ultimately show ?thesis
    using pl by (intro exI [of _ ?s]) (simp add: catching_up_def Let_def ingest_start_def new_pool_roomy kMaxThreads_def, fastforce)
qed

lemma catching_upD:
  assumes "catching_up dirs parser c0 disk0 texts s"
  shows "\<exists>H h. plant_inv dirs parser c0 H h s" "pt_sent s = texts" "dw_open (pt_watch s)" "\<not> in_stop (pt_run s)"
    "\<not> p_stop (in_pool (pt_run s))" "0 < p_capacity (in_pool (pt_run s))" "p_workers (in_pool (pt_run s)) \<noteq> []"
    "set (p_finished (in_pool (pt_run s))) = set (p_accepted (in_pool (pt_run s)))" "pt_sys s = all_calls_ok"
    "n \<in> dom texts \<Longrightarrow> view dirs (pt_disk s) n Ready = None"
    "n \<in> dom texts \<Longrightarrow> at dirs Claimed n \<notin> set (dw_queue (pt_watch s) @ p_accepted (in_pool (pt_run s))) \<Longrightarrow>
       view dirs (pt_disk s) n = view dirs disk0 n"
    "n \<in> dom texts \<Longrightarrow> at dirs Claimed n \<notin> set (dw_queue (pt_watch s) @ p_accepted (in_pool (pt_run s))) \<Longrightarrow>
       view dirs (pt_disk s) n Claimed = None"
  using assms unfolding catching_up_def Let_def by blast+

lemma drained_queue:
  assumes "pool_inv pl" "distinct (p_accepted pl)" "set (p_finished pl) = set (p_accepted pl)"
  shows "p_queue pl = []"
proof (rule ccontr)
  assume "p_queue pl \<noteq> []"
  then obtain t where t: "t \<in> set (p_queue pl)" by fastforce
  have m: "mset (p_started pl) = mset (p_finished pl) + running (p_workers pl)" "p_accepted pl = p_started pl @ p_queue pl"
    using assms(1) by (simp_all add: pool_inv_def)
  then have "t \<in> set (p_finished pl)" using t assms(3) by simp
  then have "t \<in># mset (p_started pl)" using m(1) by simp
  then show False using t assms(2) m(2) by auto
qed

text \<open>The pool takes the file at the head of the watcher's queue at once.\<close>

lemma head_taken:
  assumes "catching_up dirs parser c0 disk0 texts s" "dw_queue (pt_watch s) = p # ps"
  obtains t where "pt_disk s p = Some (Regular t)"
    "submit p (in_pool (pt_run s)) = Some (True, (in_pool (pt_run s))\<lparr>p_queue := [p], p_accepted := p_accepted (in_pool (pt_run s)) @ [p]\<rparr>)"
proof -
  note C = catching_upD [OF assms(1)]
  obtain H h where i: "plant_inv dirs parser c0 H h s" using C(1) by blast
  note P = plant_invD [OF i]
  note W = watch_invD [OF P(3)]
  let ?pool = "in_pool (pt_run s)"
  have d: "distinct (p_accepted ?pool)" "p \<notin> set (p_accepted ?pool)" using W(4) assms(2) by simp_all
  obtain n t where n: "pt_sent s n = Some t" "p = at dirs Claimed n" "view dirs (pt_disk s) n Claimed \<noteq> None"
    using W(5) [of p] assms(2) by auto
  have "file_at dirs (pt_disk s) n t (file_records parser t) (batches_of n H)" using W(9) [OF n(1)] d(2) n(2) by simp
  then have "pt_disk s p = Some (Regular t)" using n(2,3) by (auto simp: file_at_def view_def split: option.splits)
  moreover have "p_queue ?pool = []" using drained_queue [OF _ d(1) C(8)] ingest_invD(1) [OF P(1)] by blast
  ultimately show ?thesis using C(5,6) by (intro that) (simp_all add: submit_def)
qed

lemma catching_up_step:
  assumes "catching_up dirs parser c0 disk0 texts s" "dw_queue (pt_watch s) = p # ps" "good_dirs dirs" "reliable_redis E"
  shows "\<exists>s'. (plant_step dirs parser E)\<^sup>*\<^sup>* s s' \<and> catching_up dirs parser c0 disk0 texts s' \<and> dw_queue (pt_watch s') = ps"
proof -
  note C = catching_upD [OF assms(1)]
  obtain H h where i: "plant_inv dirs parser c0 H h s" using C(1) by blast
  note P = plant_invD [OF i]
  note W = watch_invD [OF P(3)]
  let ?pool = "in_pool (pt_run s)"
  let ?pl = "?pool\<lparr>p_queue := [p], p_accepted := p_accepted ?pool @ [p]\<rparr>"
  obtain t where t: "pt_disk s p = Some (Regular t)" and sub: "submit p ?pool = Some (True, ?pl)"
    by (rule head_taken [OF assms(1,2)])
  let ?s = "s\<lparr>pt_watch := (pt_watch s)\<lparr>dw_queue := ps\<rparr>, pt_run := (pt_run s)\<lparr>in_pool := ?pl,
      in_given := (in_given (pt_run s))(p \<mapsto> t)\<rparr>\<rparr>"
  have one: "plant_step dirs parser E s ?s" using plant_step.handed [OF C(3) assms(2) t sub, of dirs parser E] by simp
  have i': "plant_inv dirs parser c0 H h ?s" using plant_handed [OF assms(3) i assms(2) t sub] by simp
  have "pool_inv (in_pool (pt_run ?s))" "p_workers (in_pool (pt_run ?s)) \<noteq> []"
    using ingest_invD(1) [OF plant_invD(1) [OF i']] C(7) by simp_all
  from workers_finish [OF this, of "pt_sys ?s" dirs parser "thread_sink E"]
  obtain r where r: "(work_step (pt_sys ?s) dirs parser (thread_sink E))\<^sup>*\<^sup>* (pt_run ?s) r" "kept (pt_run ?s) r"
      "set (p_finished (in_pool r)) = set (p_accepted (in_pool r))" by blast
  note w = work_steps [OF r(1) assms(3,4) i']
  let ?s' = "?s\<lparr>pt_run := r\<rparr>"
  have acc: "p_accepted (in_pool r) = p_accepted ?pool @ [p]" using w by simp
  have v: "view dirs (in_disk r) m a = view dirs (pt_disk s) m a"
    if m: "m \<in> dom texts" and "a = Ready \<or> at dirs Claimed m \<notin> set (p_accepted (in_pool r))" for m a
  proof -
    have "file_name m" using m W(7) by (auto simp: C(2) [symmetric])
    then show ?thesis using w that(2) by (auto simp: acc)
  qed
  have "catching_up dirs parser c0 disk0 texts ?s'"
    unfolding catching_up_def Let_def
  proof (intro conjI allI impI)
    show "\<exists>H h. plant_inv dirs parser c0 H h ?s'" using w by blast
    show "pt_sent ?s' = texts" "dw_open (pt_watch ?s')" "pt_sys ?s' = all_calls_ok" using C(2,3,9) by simp_all
    show "\<not> in_stop (pt_run ?s')" "\<not> p_stop (in_pool (pt_run ?s'))" "0 < p_capacity (in_pool (pt_run ?s'))"
      using r(2) C(4-6) by (simp_all add: kept_def)
    have "length (p_workers (in_pool r)) = length (p_workers ?pool)" using r(2) by (simp add: kept_def)
    then show "p_workers (in_pool (pt_run ?s')) \<noteq> []" using C(7) by auto
    show "set (p_finished (in_pool (pt_run ?s'))) = set (p_accepted (in_pool (pt_run ?s')))" using r(3) by simp
    show "view dirs (pt_disk ?s') m Ready = None" if "m \<in> dom texts" for m
      using v [OF that, of Ready] C(10) [OF that] by simp
    show "view dirs (pt_disk ?s') m = view dirs disk0 m" "view dirs (pt_disk ?s') m Claimed = None"
      if m: "m \<in> dom texts" and q: "at dirs Claimed m \<notin> set (dw_queue (pt_watch ?s') @ p_accepted (in_pool (pt_run ?s')))" for m
    proof -
      have "at dirs Claimed m \<notin> set (p_accepted (in_pool r))" "at dirs Claimed m \<notin> set (dw_queue (pt_watch s) @ p_accepted ?pool)"
        using q assms(2) by (auto simp: acc)
      then have e: "view dirs (pt_disk ?s') m = view dirs (pt_disk s) m"
          and c: "view dirs (pt_disk s) m = view dirs disk0 m" "view dirs (pt_disk s) m Claimed = None"
        using v [OF m] C(11,12) [OF m] by auto
      show "view dirs (pt_disk ?s') m = view dirs disk0 m" unfolding e by (rule c(1))
      show "view dirs (pt_disk ?s') m Claimed = None" unfolding e by (rule c(2))
    qed
  qed
  moreover have "(plant_step dirs parser E)\<^sup>*\<^sup>* s ?s'" using one w by (simp add: converse_rtranclp_into_rtranclp)
  ultimately show ?thesis by (intro exI [of _ ?s']) simp
qed

lemma caught_up:
  assumes "good_dirs dirs" "reliable_redis E" "catching_up dirs parser c0 disk0 texts s"
  shows "\<exists>s'. (plant_step dirs parser E)\<^sup>*\<^sup>* s s' \<and> catching_up dirs parser c0 disk0 texts s' \<and> dw_queue (pt_watch s') = []"
  using assms(3)
proof (induction "dw_queue (pt_watch s)" arbitrary: s)
  case (Cons p ps)
  obtain s1 where s1: "(plant_step dirs parser E)\<^sup>*\<^sup>* s s1" "catching_up dirs parser c0 disk0 texts s1" "dw_queue (pt_watch s1) = ps"
    using catching_up_step [OF Cons.prems _ assms(1,2), of p ps] Cons.hyps(2) by auto
  from Cons.hyps(1) [OF s1(3) [symmetric] s1(2)] s1(1) show ?case by (meson rtranclp_trans)
qed auto

text \<open>A file that can be read and taken up is done.\<close>

lemma caught_up_file:
  assumes "catching_up dirs parser c0 disk0 texts s" "dw_queue (pt_watch s) = []" "good_dirs dirs"
    "deliveries_ok parser c0 texts" "texts n = Some t"
  shows "stands dirs (pt_disk s) n t Done
    \<or> stands dirs (pt_disk s) n t Failed \<and> (view dirs disk0 n Failed \<noteq> None \<or> parse_header t = None)"
proof -
  note C = catching_upD [OF assms(1)]
  obtain H h where i: "plant_inv dirs parser c0 H h s" using C(1) by blast
  note P = plant_invD [OF i]
  note W = watch_invD [OF P(3)]
  have f: "file_name n" using W(7) [of n t] assms(5) by (simp add: C(2))
  have "case texts n of None \<Rightarrow> view dirs (pt_disk s) n = (\<lambda>a. None) | Some t \<Rightarrow> \<exists>a. stands dirs (pt_disk s) n t a"
    using W(10) f by (simp add: located_def C(2))
  then obtain a where a: "stands dirs (pt_disk s) n t a" using assms(5) by auto
  have d: "n \<in> dom texts" using assms(5) by blast
  let ?p = "at dirs Claimed n"
  show ?thesis
  proof (cases "?p \<in> set (p_accepted (in_pool (pt_run s)))")
    case False
    then have "view dirs (pt_disk s) n = view dirs disk0 n" "view dirs (pt_disk s) n Claimed = None" "view dirs (pt_disk s) n Ready = None"
      using C(10-12) [OF d] assms(2) by auto
    then show ?thesis using a by (cases a) (auto simp: stands_view dest: fun_cong [of _ _ Failed])
  next
    case True
    obtain m u where m: "pt_sent s m = Some u" "?p = at dirs Claimed m" "in_given (pt_run s) ?p = Some u"
      using P(4) [OF True] by blast
    then have "m = n" using W(7) [OF m(1)] f assms(3) by simp
    then have g: "text_of (pt_run s) ?p = t" using m assms(5) by (simp add: text_of_def C(2))
    have st: "settled dirs (in_stop (pt_run s)) (pt_disk s) ?p t (yield_of (pt_sys s) parser (\<lambda>src. progress src (c0 @ history_cmds H)) (pt_run s) ?p)
        (batches_of n h)"
      using inv_file [OF P(1) plant_names(3) [OF i assms(3)] True] True C(8) by (simp add: g at_basename [OF assms(3) f])
    have "yield_of (pt_sys s) parser (\<lambda>src. progress src (c0 @ history_cmds H)) (pt_run s) ?p \<noteq> None" if "parse_header t \<noteq> None"
    proof -
      obtain hd body where "parse_header t = Some (hd, body)" using \<open>parse_header t \<noteq> None\<close> by auto
      moreover then have "t \<noteq> []" by (auto simp: parse_header_def find_from_def)
      ultimately have "readable (pt_sys s) [?p \<mapsto> Regular t] ?p body" by (simp add: readable_def C(9) all_calls_ok_def)
      then show ?thesis using yield_readable by (simp add: yield_of_def g)
    qed
    then show ?thesis using st a C(4)
      by (cases a) (auto simp: settled_def stands_view at_moves [OF assms(3) f] view_def fun_eq_iff split: option.splits if_splits)
  qed
qed

text \<open>A plant with one file.\<close>

definition toy_text :: string where
  "toy_text = header_text ''csv'' 2 @ toy_body"

lemma toy_good: "good_dirs toy_dirs"
  by (simp add: good_dirs_def toy_dirs_def)

lemma toy_empty: "empty_dirs toy_dirs (\<lambda>p. None)"
  by (simp add: empty_dirs_def plain_def view_def fun_eq_iff)

lemma toy_header: "parse_header toy_text = Some (\<lparr>format = ''csv'', record_count = of_nat 2\<rparr>, toy_body)"
  unfolding toy_text_def by (rule parse_header_text) (simp_all add: line_feed_def)

lemma toy_deliveries: "deliveries_ok toy_parser [] [''f'' \<mapsto> toy_text]"
  by (simp add: deliveries_ok_def file_records_def toy_header toy_rising)

abbreviation toy_plant_step :: "unit Plant \<Rightarrow> unit Plant \<Rightarrow> bool" where
  "toy_plant_step \<equiv> plant_step toy_dirs toy_parser perfect_env"

abbreviation toy_plant :: "unit Plant" where
  "toy_plant \<equiv> plant_start toy_dirs (\<lambda>p. None) [] ()"

lemma no_writes: "list_all is_write []"
  by simp

lemma toy_delivered:
  "\<exists>s. toy_plant_step toy_plant s \<and> pt_sent s = [''f'' \<mapsto> toy_text] \<and> view toy_dirs (pt_disk s) ''f'' Failed = None"
proof -
  let ?s = "toy_plant\<lparr>pt_sent := (pt_sent toy_plant)(''f'' \<mapsto> toy_text), pt_run := (pt_run toy_plant)\<lparr>in_disk :=
    deliver (path_join (dir_ready toy_dirs) ''f'', toy_text) (pt_disk toy_plant)\<rparr>\<rparr>"
  have "toy_plant_step toy_plant ?s" by (rule dropped) (simp_all add: file_name_def plant_start_def)
  moreover have "view toy_dirs (pt_disk ?s) ''f'' Failed = None"
    by (simp add: view_def at_def deliver_def path_join_def toy_dirs_def plant_start_def ingest_start_def)
  ultimately show ?thesis by (intro exI [of _ ?s]) (simp add: plant_start_def)
qed

section \<open>Properties\<close>

text \<open>What is known of every state the plant can reach, and of a plant that has caught up.\<close>

fun has_landed :: "place \<Rightarrow> CdrRecord list \<Rightarrow> CdrRecord list list \<Rightarrow> bool" where
  "has_landed Ready rs bs \<longleftrightarrow> bs = []"
| "has_landed Claimed rs bs \<longleftrightarrow> prefix (concat bs) rs"
| "has_landed Done rs bs \<longleftrightarrow> concat bs = rs"
| "has_landed Failed rs bs \<longleftrightarrow> prefix (concat bs) rs"

lemma stands_landed: "stands dirs disk n t a \<Longrightarrow> file_at dirs disk n t rs bs \<Longrightarrow> has_landed a rs bs"
  by (cases a) (auto simp: stands_view file_at_def)

lemma plant_history:
  assumes "plant_inv dirs parser c0 H h s" "good_dirs dirs" "deliveries_ok parser c0 (pt_sent s)"
  shows "pt_log s = c0 @ history_cmds (H @ h)" "batches_of n (H @ h) \<noteq> [] \<Longrightarrow> n \<in> dom (pt_sent s)"
    "pt_sent s n = Some t \<Longrightarrow> \<exists>a. stands dirs (pt_disk s) n t a \<and> has_landed a (file_records parser t) (batches_of n (H @ h))"
proof -
  note P = plant_invD [OF assms(1)]
  note W = watch_invD [OF P(3)]
  show "pt_log s = c0 @ history_cmds (H @ h)" using P(2) by (auto simp: shared_rel_def history_cmds_def split: prod.splits)
  show "n \<in> dom (pt_sent s)" if b: "batches_of n (H @ h) \<noteq> []" for n
  proof (cases "batches_of n H = []")
    case True
    then obtain q where "q \<in> set (p_accepted (in_pool (pt_run s)))" "n = basename_of q" using b ingest_invD(7) [OF P(1), of n] by auto
    then show ?thesis using plant_names(2) [OF assms(1,2)] at_basename [OF assms(2)] by metis
  qed (use P(6) in blast)
  show "\<exists>a. stands dirs (pt_disk s) n t a \<and> has_landed a (file_records parser t) (batches_of n (H @ h))" if t: "pt_sent s n = Some t"
  proof -
    have "case pt_sent s n of None \<Rightarrow> view dirs (pt_disk s) n = (\<lambda>a. None) | Some t \<Rightarrow> \<exists>a. stands dirs (pt_disk s) n t a"
      using W(10) W(7) [OF t] by (simp add: located_def)
    then show ?thesis using t stands_landed [OF _ plant_file [OF assms(2,1,3) t]] by auto
  qed
qed

lemma plant_completes:
  assumes "(plant_step dirs parser E)\<^sup>*\<^sup>* (plant_start dirs disk c0 w) s" "good_dirs dirs" "empty_dirs dirs disk"
    "reliable_redis E" "list_all is_write c0" "deliveries_ok parser c0 (pt_sent s)"
  shows "\<exists>s'. (plant_step dirs parser E)\<^sup>*\<^sup>* s s' \<and> pt_sent s' = pt_sent s
    \<and> (\<forall>n t. pt_sent s n = Some t \<longrightarrow> stands dirs (pt_disk s') n t Done
        \<or> stands dirs (pt_disk s') n t Failed \<and> (view dirs (pt_disk s) n Failed \<noteq> None \<or> parse_header t = None))"
proof -
  obtain H h where i: "plant_inv dirs parser c0 H h s" using plant_steps_inv [OF assms] by blast
  obtain s1 where s1: "plant_step dirs parser E s s1" "catching_up dirs parser c0 (pt_disk s) (pt_sent s) s1"
    using watcher_catches_up [OF assms(2) i assms(6,5)] by blast
  obtain s2 where s2: "(plant_step dirs parser E)\<^sup>*\<^sup>* s1 s2" "catching_up dirs parser c0 (pt_disk s) (pt_sent s) s2"
      "dw_queue (pt_watch s2) = []" using caught_up [OF assms(2,4) s1(2)] by blast
  have "pt_sent s2 = pt_sent s" by (rule catching_upD(2) [OF s2(2)])
  then show ?thesis using caught_up_file [OF s2(2,3) assms(2,6)] converse_rtranclp_into_rtranclp [OF s1(1) s2(1)]
    by (intro exI [of _ s2]) simp
qed

text \<open>When all files are done, the store has their records, in some batches and some order.\<close>

lemma plant_records:
  assumes "(plant_step dirs parser E)\<^sup>*\<^sup>* (plant_start dirs disk c0 w) s" "good_dirs dirs" "empty_dirs dirs disk"
    "reliable_redis E" "list_all is_write c0" "deliveries_ok parser c0 (pt_sent s)" "distinct ns" "set ns = dom (pt_sent s)"
    and "\<And>n t. pt_sent s n = Some t \<Longrightarrow> stands dirs (pt_disk s) n t Done"
  obtains h where "pt_log s = c0 @ history_cmds h"
    "mset (all_records h) = mset (concat (map (\<lambda>n. file_records parser (the (pt_sent s n))) ns))"
proof -
  obtain H h where i: "plant_inv dirs parser c0 H h s" using plant_steps_inv [OF assms(1-6)] by blast
  note L = plant_history [OF i assms(2,6)]
  let ?h = "H @ h"
  have "concat (batches_of n ?h) = file_records parser (the (pt_sent s n))" if n: "n \<in> set ns" for n
  proof -
    obtain t where t: "pt_sent s n = Some t" using n assms(8) by auto
    obtain a where a: "stands dirs (pt_disk s) n t a" "has_landed a (file_records parser t) (batches_of n ?h)" using L(3) [OF t] by blast
    have "a = Done" using a(1) assms(9) [OF t] by (auto simp: stands_view fun_eq_iff split: if_splits dest: spec [of _ Done])
    then show ?thesis using a(2) t by simp
  qed
  then have "map (\<lambda>n. concat (batches_of n ?h)) ns = map (\<lambda>n. file_records parser (the (pt_sent s n))) ns" by simp
  moreover have "mset (all_records ?h) = mset (concat (map (\<lambda>n. concat (batches_of n ?h)) ns))"
    by (rule all_records_by_file [OF assms(7)]) (use L(2) assms(8) in blast)
  ultimately have "mset (all_records ?h) = mset (concat (map (\<lambda>n. file_records parser (the (pt_sent s n))) ns))" by metis
  then show ?thesis using L(1) by (rule that [rotated])
qed

lemma toy_recovered:
  "\<exists>s. toy_plant_step\<^sup>*\<^sup>* toy_plant s \<and> pt_sent s = [''f'' \<mapsto> toy_text] \<and> stands toy_dirs (pt_disk s) ''f'' toy_text Done"
proof -
  obtain s1 where s1: "toy_plant_step toy_plant s1" "pt_sent s1 = [''f'' \<mapsto> toy_text]"
      and disk: "view toy_dirs (pt_disk s1) ''f'' Failed = None" using toy_delivered by blast
  have "deliveries_ok toy_parser [] (pt_sent s1)" by (simp add: s1(2) toy_deliveries)
  from plant_completes [OF r_into_rtranclp [where r = toy_plant_step, OF s1(1)] toy_good toy_empty live.reliable_redis_axioms no_writes this]
  obtain s2 where "toy_plant_step\<^sup>*\<^sup>* s1 s2" "pt_sent s2 = pt_sent s1"
      "\<And>t. pt_sent s1 ''f'' = Some t \<Longrightarrow> stands toy_dirs (pt_disk s2) ''f'' t Done
        \<or> view toy_dirs (pt_disk s1) ''f'' Failed \<noteq> None \<or> parse_header t = None"
    by metis
  moreover from this(3) [of toy_text] have "stands toy_dirs (pt_disk s2) ''f'' toy_text Done"
    using disk toy_header s1(2) by simp
  ultimately show ?thesis using s1 by (intro exI [of _ s2]) (simp add: converse_rtranclp_into_rtranclp)
qed

text \<open>
  C7: Every delivered file is applied exactly once, over any number of runs, as long as Redis is well. Files may be
  delivered at any time, claimed by the watcher, queued, read by any number of workers side by side; the
  process may be stopped or die at any moment and be started again on the disk and the store it left. In every
  state that can be reached, each delivered file stands, whole, in exactly one of the four directories, and
  that directory tells what the store has of it: nothing of a file that is ready, a beginning of the
  records of one that is claimed, all of them, each in one batch, of one that is done, and a beginning of
  the records of one that failed. Nothing else is in the store but what was there before. What this takes:
  Redis can be reached all the time, takes every command and refuses none, inside a transaction either, so
  that the commands the store has logged are those it has applied (a broken connection can lose a record for
  good, see \<open>AggregateSink\<close>); the four directories are distinct, end in a slash and hold no file at the
  start; no name is delivered twice; and of each delivered file the sequences rise from 1 (a record with
  sequence 0 is skipped) and the store has no progress under its name before. A rename between the directories
  fails only when the file is gone or a directory is in its place.
\<close>

theorem ingestion_exactly_once:
  assumes "reliable_redis E" "good_dirs dirs" "empty_dirs dirs disk" "list_all is_write c0"
    and "(plant_step dirs parser E)\<^sup>*\<^sup>* (plant_start dirs disk c0 w) s" "deliveries_ok parser c0 (pt_sent s)"
  shows "\<exists>h. pt_log s = c0 @ history_cmds h
    \<and> (\<forall>n. batches_of n h \<noteq> [] \<longrightarrow> n \<in> dom (pt_sent s))
    \<and> (\<forall>n t. pt_sent s n = Some t \<longrightarrow>
         (\<exists>a. stands dirs (pt_disk s) n t a \<and> has_landed a (file_records parser t) (batches_of n h)))"
proof -
  obtain H h where i: "plant_inv dirs parser c0 H h s" using plant_steps_inv [OF assms(5,2,3,1,4,6)] by blast
  show ?thesis using plant_history [OF i assms(2,6)] by (intro exI [of _ "H @ h"]) simp
qed

theorem ingestion_exactly_once_witness:
  "\<exists>s h. toy_plant_step\<^sup>*\<^sup>* toy_plant s \<and> pt_sent s = [''f'' \<mapsto> toy_text] \<and> pt_log s = [] @ history_cmds h
    \<and> concat (batches_of ''f'' h) = [call_record 1, call_record 2]"
proof -
  obtain s where s: "toy_plant_step\<^sup>*\<^sup>* toy_plant s" "pt_sent s = [''f'' \<mapsto> toy_text]" "stands toy_dirs (pt_disk s) ''f'' toy_text Done"
    using toy_recovered by blast
  have "deliveries_ok toy_parser [] (pt_sent s)" by (simp add: s(2) toy_deliveries)
  from ingestion_exactly_once [OF live.reliable_redis_axioms toy_good toy_empty no_writes s(1) this]
  obtain h where h0: "pt_log s = [] @ history_cmds h" "\<And>n t. pt_sent s n = Some t \<Longrightarrow>
      \<exists>a. stands toy_dirs (pt_disk s) n t a \<and> has_landed a (file_records toy_parser t) (batches_of n h)" by auto
  have "pt_sent s ''f'' = Some toy_text" by (simp add: s(2))
  from h0(2) [OF this] obtain a where h: "stands toy_dirs (pt_disk s) ''f'' toy_text a"
      "has_landed a (file_records toy_parser toy_text) (batches_of ''f'' h)" by blast
  have "a = Done" using h(1) s(3) by (auto simp: stands_view fun_eq_iff split: if_splits dest: spec [of _ Done])
  then show ?thesis using s h h0(1) by (intro exI [of _ s] exI [of _ h]) (simp add: file_records_def toy_header toy_records)
qed

text \<open>
  C11: Every record is counted exactly once, as long as Redis is well. When all the delivered files have arrived in
  the done directory, however many runs, crashes and orders of the workers it took, each counter of the store has
  grown by what one sequential fold over the records of all the files computes. What this takes is the same
  as for each file: Redis can be reached all the time, takes every command and refuses none;
  the directories are distinct, end in a slash and hold no file at the start; no name is delivered
  twice; the sequences of each file rise from 1, and the store has no progress under its name before.
\<close>

theorem ingestion_counters:
  assumes "reliable_redis E" "good_dirs dirs" "empty_dirs dirs disk" "list_all is_write c0"
    and "(plant_step dirs parser E)\<^sup>*\<^sup>* (plant_start dirs disk c0 w) s" "deliveries_ok parser c0 (pt_sent s)"
    and "distinct ns" "set ns = dom (pt_sent s)"
    and "\<And>n t. pt_sent s n = Some t \<Longrightarrow> stands dirs (pt_disk s) n t Done"
  shows "let rs = concat (map (\<lambda>n. file_records parser (the (pt_sent s n))) ns); l = pt_log s; d = fold_batch rs in
    list_all (\<lambda>(f, g). of_nat (hsum (sub_key m) f l) = of_nat (hsum (sub_key m) f c0) + g (sub_at d m)) sub_fields
    \<and> list_all (\<lambda>(f, g). of_nat (hsum (op_key j) f l) = of_nat (hsum (op_key j) f c0) + g (op_at d j)) op_fields
    \<and> list_all (\<lambda>(f, g). of_nat (hsum (link_key (owner k)) (dec64 (peer k) @ f) l)
          = of_nat (hsum (link_key (owner k)) (dec64 (peer k) @ f) c0) + g (link_at d k)) link_fields"
proof -
  obtain h where l: "pt_log s = c0 @ history_cmds h"
    and m: "mset (all_records h) = mset (concat (map (\<lambda>n. file_records parser (the (pt_sent s n))) ns))"
    by (rule plant_records [OF assms(5,2,3,1,4,6-9)])
  show ?thesis unfolding Let_def l list_all_iff by (auto simp: field_sums fold_permuted [OF m])
qed

theorem ingestion_counters_witness:
  "\<exists>s. toy_plant_step\<^sup>*\<^sup>* toy_plant s
    \<and> list_all (\<lambda>(f, g). of_nat (hsum (sub_key 7) f (pt_log s)) = g (sub_at (fold_batch [call_record 1, call_record 2]) 7)) sub_fields"
proof -
  obtain s where s: "toy_plant_step\<^sup>*\<^sup>* toy_plant s" "pt_sent s = [''f'' \<mapsto> toy_text]" "stands toy_dirs (pt_disk s) ''f'' toy_text Done"
    using toy_recovered by blast
  have "deliveries_ok toy_parser [] (pt_sent s)" "distinct [''f'']" "set [''f''] = dom (pt_sent s)" by (simp_all add: s(2) toy_deliveries)
  moreover have "\<And>n t. pt_sent s n = Some t \<Longrightarrow> stands toy_dirs (pt_disk s) n t Done"
    using s(3) by (simp add: s(2) split: if_splits)
  ultimately have "list_all (\<lambda>(f, g). of_nat (hsum (sub_key 7) f (pt_log s)) = g (sub_at (fold_batch [call_record 1, call_record 2]) 7)) sub_fields"
    using ingestion_counters [OF live.reliable_redis_axioms toy_good toy_empty no_writes s(1), of "[''f'']", unfolded Let_def,
        THEN conjunct1, of 7]
    by (simp add: s(2) file_records_def toy_header toy_records)
  then show ?thesis using s(1) by blast
qed

text \<open>
  C22: A plant can always catch up. Whatever happened before, a start at which the system calls succeed
  can take up all the work that is left: without another delivery it comes to a state in which every
  delivered file is in the done directory, but for those that had failed before and those without a
  readable header, which are in the failed directory. Redis can be reached all the time, takes every command
  and refuses none, the directories are distinct, end in a slash and held no file at the first start, no
  name is delivered twice, and the sequences of each file rise from 1 and are new to the store.
\<close>

theorem ingestion_catches_up:
  assumes "reliable_redis E" "good_dirs dirs" "empty_dirs dirs disk" "list_all is_write c0"
    and "(plant_step dirs parser E)\<^sup>*\<^sup>* (plant_start dirs disk c0 w) s" "deliveries_ok parser c0 (pt_sent s)"
  shows "\<exists>s'. (plant_step dirs parser E)\<^sup>*\<^sup>* s s' \<and> pt_sent s' = pt_sent s
    \<and> (\<forall>n t. pt_sent s n = Some t \<longrightarrow> stands dirs (pt_disk s') n t Done
        \<or> stands dirs (pt_disk s') n t Failed \<and> (view dirs (pt_disk s) n Failed \<noteq> None \<or> parse_header t = None))"
  by (rule plant_completes [OF assms(5,2,3,1,4,6)])

theorem ingestion_catches_up_witness:
  "\<exists>s s'. toy_plant_step toy_plant s \<and> toy_plant_step\<^sup>*\<^sup>* s s' \<and> pt_sent s' = [''f'' \<mapsto> toy_text]
    \<and> stands toy_dirs (pt_disk s') ''f'' toy_text Done"
proof -
  obtain s where s: "toy_plant_step toy_plant s" "pt_sent s = [''f'' \<mapsto> toy_text]"
      "view toy_dirs (pt_disk s) ''f'' Failed = None" using toy_delivered by blast
  have "deliveries_ok toy_parser [] (pt_sent s)" by (simp add: s(2) toy_deliveries)
  from ingestion_catches_up [OF live.reliable_redis_axioms toy_good toy_empty no_writes r_into_rtranclp [where r = toy_plant_step, OF s(1)] this]
  obtain s' where s': "toy_plant_step\<^sup>*\<^sup>* s s'" "pt_sent s' = pt_sent s" "\<And>n t. pt_sent s n = Some t \<Longrightarrow>
      stands toy_dirs (pt_disk s') n t Done \<or> view toy_dirs (pt_disk s) n Failed \<noteq> None \<or> parse_header t = None" by metis
  have "pt_sent s ''f'' = Some toy_text" by (simp add: s(2))
  from s'(3) [OF this] have "stands toy_dirs (pt_disk s') ''f'' toy_text Done" using s(3) toy_header by simp
  then show ?thesis using s(1,2) s'(1,2) by metis
qed

end
