(* ===== verification/Factories.thy ===== *)
theory Factories
  imports CsvParser RedisStore RedisQuery Settings
begin

text \<open>
  The four registries that turn a name of the configuration into an object:
  \<open>src/parser/parser_factory.cpp\<close>, \<open>src/store/store_factory.cpp\<close>, \<open>src/query/query_factory.cpp\<close> and
  the registry of \<open>src/ingest/ingestor_factory.cpp\<close>. Each keeps a map from names to creators. Their
  common contract is the locale \<open>factory\<close>, proved once and interpreted on all of them (on the last
  in \<open>Ingestors\<close>, with the objects it creates). A null pointer is \<open>None\<close>.
\<close>

type_synonym ('p, 'o) creators = "string \<Rightarrow> ('p \<Rightarrow> 'o) option"

section \<open>The contract\<close>

locale factory =
  fixes register :: "string \<Rightarrow> ('p \<Rightarrow> 'o) \<Rightarrow> ('p, 'o) creators \<Rightarrow> ('p, 'o) creators"
    and has :: "string \<Rightarrow> ('p, 'o) creators \<Rightarrow> bool"
    and create :: "string \<Rightarrow> ('p, 'o) creators \<Rightarrow> 'p \<Rightarrow> 'o option"
  assumes create_registered: "create name (register other creator f) p =
      (if name = other then Some (creator p) else create name f p)"
    and has_created: "has name f \<longleftrightarrow> create name f p \<noteq> None"
begin

text \<open>The last creator registered under a name is the one used, whatever came between.\<close>

lemma create_latest:
  "name \<notin> fst ` set later \<Longrightarrow>
     create name (foldl (\<lambda>f (n, c). register n c f) (register name creator f) later) p = Some (creator p)"
proof (induction later rule: rev_induct)
  case (snoc e later)
  then show ?case by (cases e) (auto simp: create_registered)
qed (simp add: create_registered)

lemma has_registered: "has name (register other creator f) \<longleftrightarrow> name = other \<or> has name f"
  using has_created [of name "register other creator f" undefined] has_created [of name f undefined]
  by (simp add: create_registered)

text \<open>What a registry of these names knows.\<close>

lemma has_all:
  assumes "\<And>name. \<not> has name f"
  shows "has name (foldl (\<lambda>f (n, c). register n c f) f cs) \<longleftrightarrow> name \<in> fst ` set cs"
proof (induction cs rule: rev_induct)
  case (snoc e cs)
  then show ?case by (cases e) (auto simp: has_registered)
qed (simp add: assms)

end

section \<open>Parsers\<close>

definition registerParser ::
    "string \<Rightarrow> (unit \<Rightarrow> string \<Rightarrow> CdrRecord option) \<Rightarrow> (unit, string \<Rightarrow> CdrRecord option) creators
       \<Rightarrow> (unit, string \<Rightarrow> CdrRecord option) creators" where
  "registerParser name creator m_parsers = m_parsers(name \<mapsto> creator)"

definition hasParser :: "string \<Rightarrow> (unit, string \<Rightarrow> CdrRecord option) creators \<Rightarrow> bool" where
  "hasParser name m_parsers \<longleftrightarrow> m_parsers name \<noteq> None"

definition createParser ::
    "string \<Rightarrow> (unit, string \<Rightarrow> CdrRecord option) creators \<Rightarrow> unit \<Rightarrow> (string \<Rightarrow> CdrRecord option) option" where
  "createParser name m_parsers u = (case m_parsers name of None \<Rightarrow> None | Some creator \<Rightarrow> Some (creator u))"

definition ParserFactory :: "Config \<Rightarrow> (unit, string \<Rightarrow> CdrRecord option) creators" where
  "ParserFactory cfg = registerParser ''csv'' (\<lambda>_. CsvParser.parse (csv_separator cfg)) (\<lambda>_. None)"

interpretation parsers: factory registerParser hasParser createParser
  by unfold_locales (simp_all add: registerParser_def hasParser_def createParser_def split: option.split)

section \<open>Stores\<close>

definition registerStore ::
    "string \<Rightarrow> (unit \<Rightarrow> 'st IStore) \<Rightarrow> (unit, 'st IStore) creators \<Rightarrow> (unit, 'st IStore) creators" where
  "registerStore name creator m_stores = m_stores(name \<mapsto> creator)"

definition hasStore :: "string \<Rightarrow> (unit, 'st IStore) creators \<Rightarrow> bool" where
  "hasStore name m_stores \<longleftrightarrow> m_stores name \<noteq> None"

definition createStore :: "string \<Rightarrow> (unit, 'st IStore) creators \<Rightarrow> unit \<Rightarrow> 'st IStore option" where
  "createStore name m_stores u = (case m_stores name of None \<Rightarrow> None | Some creator \<Rightarrow> Some (creator u))"

definition StoreFactory :: "'w env \<Rightarrow> (unit, 'w RS IStore) creators" where
  "StoreFactory E = registerStore ''redis'' (\<lambda>_. redis_vt E) (\<lambda>_. None)"

interpretation stores: factory registerStore hasStore createStore
  by unfold_locales (simp_all add: registerStore_def hasStore_def createStore_def split: option.split)

section \<open>Query stores\<close>

definition registerQuery ::
    "string \<Rightarrow> (unit \<Rightarrow> IQueryStore) \<Rightarrow> (unit, IQueryStore) creators \<Rightarrow> (unit, IQueryStore) creators" where
  "registerQuery name creator m_queries = m_queries(name \<mapsto> creator)"

definition hasQuery :: "string \<Rightarrow> (unit, IQueryStore) creators \<Rightarrow> bool" where
  "hasQuery name m_queries \<longleftrightarrow> m_queries name \<noteq> None"

definition createQuery :: "string \<Rightarrow> (unit, IQueryStore) creators \<Rightarrow> unit \<Rightarrow> IQueryStore option" where
  "createQuery name m_queries u = (case m_queries name of None \<Rightarrow> None | Some creator \<Rightarrow> Some (creator u))"

definition QueryFactory :: "'w env \<Rightarrow> 'w asker \<Rightarrow> 'w RS \<Rightarrow> (unit, IQueryStore) creators" where
  "QueryFactory E ask s = registerQuery ''redis'' (\<lambda>_. redis_query E ask s) (\<lambda>_. None)"

interpretation queries: factory registerQuery hasQuery createQuery
  by unfold_locales (simp_all add: registerQuery_def hasQuery_def createQuery_def split: option.split)

section \<open>The names there are\<close>

lemma createParser_names:
  "createParser name (ParserFactory cfg) () = (if name = ''csv'' then Some (CsvParser.parse (csv_separator cfg)) else None)"
  unfolding ParserFactory_def by (simp add: parsers.create_registered createParser_def [where m_parsers = "\<lambda>_. None"])

lemma hasParser_names: "hasParser name (ParserFactory cfg) \<longleftrightarrow> name = ''csv''"
  by (simp add: parsers.has_created [where p = "()"] createParser_names)

lemma createStore_names:
  "createStore name (StoreFactory E) () = (if name = ''redis'' then Some (redis_vt E) else None)"
  unfolding StoreFactory_def by (simp add: stores.create_registered createStore_def [where m_stores = "\<lambda>_. None"])

lemma createQuery_names:
  "createQuery name (QueryFactory E ask s) () = (if name = ''redis'' then Some (redis_query E ask s) else None)"
  unfolding QueryFactory_def by (simp add: queries.create_registered createQuery_def [where m_queries = "\<lambda>_. None"])

end
