(* ===== verification/Ingestors.thy ===== *)
theory Ingestors
  imports Factories Rabbit Gateway
begin

text \<open>
  The life of the two ingestors, \<open>src/ingest/file_ingestor.cpp\<close> and \<open>src/ingest/rabbit_ingestor.cpp\<close>
  (what they do with a file and with the queue is in \<open>FileIngestor\<close> and \<open>Rabbit\<close>), the loop that feeds
  the readers, and \<open>src/ingest/ingestor_factory.cpp\<close>. A thread that was started is a flag or a count
  until it is joined; creating directories is an answer of the environment. What \<open>start\<close> and \<open>stop\<close>
  promise is the locale \<open>lifecycle\<close>, met by both ingestors and by the gateway.
\<close>

section \<open>The file ingestor\<close>

text \<open>\<open>ensure_dir\<close>: what \<open>create_directories\<close> and \<open>is_directory\<close> reported.\<close>

definition ensure_dir :: "(string \<Rightarrow> bool \<times> bool \<times> bool) \<Rightarrow> string \<Rightarrow> bool" where
  "ensure_dir mkdirs dir =
     (case mkdirs dir of (created, ec, is_dir) \<Rightarrow>
        if created then True else if ec \<or> \<not> is_dir then False else True)"

record 's FileIngestor =
  fi_sink :: "'s ISink"
  fi_format :: string
  fi_dirs :: FileDirs
  fi_parser :: "(string \<Rightarrow> CdrRecord option) option"
  fi_watcher :: DirWatcher
  fi_pool :: "string Pool option"
  fi_feeder :: bool
  fi_stop :: bool
  fi_running :: bool

text \<open>The constructor; it throws when that of the pool does.\<close>

definition new_file_ingestor ::
    "machine \<Rightarrow> Config \<Rightarrow> (string \<Rightarrow> string \<Rightarrow> DirWatcher) \<Rightarrow> 's ISink \<Rightarrow> string + 's FileIngestor" where
  "new_file_ingestor mc cfg watch sk =
     (let dirs = file_dirs cfg; format = source_format cfg in
      case new_pool mc (unat (file_readers cfg)) (unat (2 * file_readers cfg)) of
        Inl e \<Rightarrow> Inl e
      | Inr pool \<Rightarrow>
          Inr \<lparr>fi_sink = sk, fi_format = format, fi_dirs = dirs,
            fi_parser = createParser format (ParserFactory cfg) (),
            fi_watcher = watch (dir_ready dirs) (dir_process dirs), fi_pool = Some pool,
            fi_feeder = False, fi_stop = False, fi_running = False\<rparr>)"

definition file_start :: "(string \<Rightarrow> bool \<times> bool \<times> bool) \<Rightarrow> 's FileIngestor \<Rightarrow> bool \<times> 's FileIngestor" where
  "file_start mkdirs g =
     (if fi_running g then (True, g)
      else if fi_parser g = None then (False, g)
      else if \<not> watcher_ok (fi_watcher g) then (False, g)
      else if \<not> ensure_dir mkdirs (dir_done (fi_dirs g)) \<or> \<not> ensure_dir mkdirs (dir_fail (fi_dirs g)) then (False, g)
      else (True, g\<lparr>fi_feeder := True, fi_running := True\<rparr>))"

definition file_stop :: "'s FileIngestor \<Rightarrow> 's FileIngestor" where
  "file_stop g =
     (if \<not> fi_running g then g
      else g\<lparr>fi_stop := True, fi_feeder := False, fi_pool := None, fi_running := False\<rparr>)"

text \<open>
  The feeder: the tasks it submits, in order. The first argument answers the loop's reads of the stop
  flag, one for each round; a script that has run out leaves the flag set. A call of \<open>next_file\<close> that
  stays blocked ends the run.
\<close>

fun feed :: "bool list \<Rightarrow> wakeup list \<Rightarrow> DirWatcher \<times> filesys \<Rightarrow> string list \<times> DirWatcher \<times> filesys" where
  "feed [] wks x = ([], x)"
| "feed (stop # stops) wks x =
     (if stop then ([], x)
      else case next_file wks x of
        None \<Rightarrow> ([], x)
      | Some (None, wks, x) \<Rightarrow> ([], x)
      | Some (Some p, wks, x) \<Rightarrow> (case feed stops wks x of (ps, x) \<Rightarrow> (p # ps, x)))"

section \<open>The Rabbit ingestor\<close>

record 's RabbitIngestor =
  ri_format :: string
  ri_sink :: "'s ISink"
  ri_conns :: "RabbitConn list"
  ri_threads :: nat
  ri_stop :: bool
  ri_running :: bool

definition new_rabbit_ingestor :: "Config \<Rightarrow> 's ISink \<Rightarrow> 's RabbitIngestor" where
  "new_rabbit_ingestor cfg sk =
     \<lparr>ri_format = source_format cfg, ri_sink = sk, ri_conns = [], ri_threads = 0, ri_stop = False, ri_running = False\<rparr>"

text \<open>The memory and the threads of the consumers are taken to be there.\<close>

definition rabbit_start :: "Config \<Rightarrow> 's RabbitIngestor \<Rightarrow> bool \<times> 's RabbitIngestor" where
  "rabbit_start cfg g =
     (if ri_running g then (True, g)
      else if \<not> hasParser (ri_format g) (ParserFactory cfg) then (False, g)
      else
        let conns = ri_conns g @ replicate (unat (rabbit_consumers cfg)) closed_conn
        in (True, g\<lparr>ri_conns := conns, ri_stop := False, ri_threads := ri_threads g + length conns, ri_running := True\<rparr>))"

definition rabbit_stop :: "'s RabbitIngestor \<Rightarrow> 's RabbitIngestor" where
  "rabbit_stop g =
     (if \<not> ri_running g then g
      else g\<lparr>ri_stop := True, ri_threads := 0, ri_conns := [], ri_running := False\<rparr>)"

section \<open>The ingestor factory\<close>

datatype 's ingestor = File "'s FileIngestor" | Rabbit "'s RabbitIngestor"

text \<open>\<open>Inl\<close> is the exception of a constructor.\<close>

definition registerIngestor ::
    "string \<Rightarrow> ('s ISink \<Rightarrow> string + 's ingestor) \<Rightarrow> ('s ISink, string + 's ingestor) creators
       \<Rightarrow> ('s ISink, string + 's ingestor) creators" where
  "registerIngestor name creator m_ingestors = m_ingestors(name \<mapsto> creator)"

definition hasIngestor :: "string \<Rightarrow> ('s ISink, string + 's ingestor) creators \<Rightarrow> bool" where
  "hasIngestor name m_ingestors \<longleftrightarrow> m_ingestors name \<noteq> None"

definition createIngestor ::
    "string \<Rightarrow> ('s ISink, string + 's ingestor) creators \<Rightarrow> 's ISink \<Rightarrow> (string + 's ingestor) option" where
  "createIngestor name m_ingestors sk = (case m_ingestors name of None \<Rightarrow> None | Some creator \<Rightarrow> Some (creator sk))"

definition IngestorFactory ::
    "machine \<Rightarrow> Config \<Rightarrow> (string \<Rightarrow> string \<Rightarrow> DirWatcher) \<Rightarrow> ('s ISink, string + 's ingestor) creators" where
  "IngestorFactory mc cfg watch =
     registerIngestor ''rabbit'' (\<lambda>sk. Inr (Rabbit (new_rabbit_ingestor cfg sk)))
       (registerIngestor ''file'' (\<lambda>sk. map_sum id File (new_file_ingestor mc cfg watch sk)) (\<lambda>_. None))"

interpretation ingestors: factory registerIngestor hasIngestor createIngestor
  by unfold_locales (simp_all add: registerIngestor_def hasIngestor_def createIngestor_def split: option.split)

text \<open>The virtual functions.\<close>

definition ingestor_start ::
    "Config \<Rightarrow> (string \<Rightarrow> bool \<times> bool \<times> bool) \<Rightarrow> 's ingestor \<Rightarrow> bool \<times> 's ingestor" where
  "ingestor_start cfg mkdirs g =
     (case g of File f \<Rightarrow> map_prod id File (file_start mkdirs f) | Rabbit r \<Rightarrow> map_prod id Rabbit (rabbit_start cfg r))"

definition ingestor_stop :: "'s ingestor \<Rightarrow> 's ingestor" where
  "ingestor_stop g = (case g of File f \<Rightarrow> File (file_stop f) | Rabbit r \<Rightarrow> Rabbit (rabbit_stop r))"

definition ingestor_running :: "'s ingestor \<Rightarrow> bool" where
  "ingestor_running g = (case g of File f \<Rightarrow> fi_running f | Rabbit r \<Rightarrow> ri_running r)"

section \<open>What start and stop promise\<close>

datatype life_call = Start | Stop

definition life_calls :: "('g \<Rightarrow> bool \<times> 'g) \<Rightarrow> ('g \<Rightarrow> 'g) \<Rightarrow> life_call list \<Rightarrow> 'g \<Rightarrow> 'g" where
  "life_calls go halt cs g = foldl (\<lambda>g c. case c of Start \<Rightarrow> snd (go g) | Stop \<Rightarrow> halt g) g cs"

lemma life_calls_simps [simp]:
  "life_calls go halt [] g = g"
  "life_calls go halt (cs @ [c]) g =
     (case c of Start \<Rightarrow> snd (go (life_calls go halt cs g)) | Stop \<Rightarrow> halt (life_calls go halt cs g))"
  by (simp add: life_calls_def, cases c, simp_all add: life_calls_def)

text \<open>What every single call keeps holds after all of them.\<close>

lemma life_calls_inv:
  assumes "P g" "\<And>g. P g \<Longrightarrow> P (snd (go g))" "\<And>g. P g \<Longrightarrow> P (halt g)"
  shows "P (life_calls go halt cs g)"
  using assms(1)
proof (induction cs rule: rev_induct)
  case (snoc c cs)
  then show ?case by (cases c) (simp_all add: assms(2,3))
qed simp

locale lifecycle =
  fixes start :: "'g \<Rightarrow> bool \<times> 'g"
    and stop :: "'g \<Rightarrow> 'g"
    and running :: "'g \<Rightarrow> bool"
  assumes start_again: "running g \<Longrightarrow> start g = (True, g)"
    and start_result: "running (snd (start g)) = fst (start g)"
    and start_failed: "\<not> fst (start g) \<Longrightarrow> snd (start g) = g"
    and stop_idle: "\<not> running g \<Longrightarrow> stop g = g"
    and stop_stops: "\<not> running (stop g)"
begin

lemma start_twice: "start (snd (start g)) = (if fst (start g) then (True, snd (start g)) else start g)"
proof (cases "fst (start g)")
  case True
  then show ?thesis using start_again [of "snd (start g)"] start_result [of g] by simp
qed (simp add: start_failed)

lemma stop_twice: "stop (stop g) = stop g"
  by (rule stop_idle [OF stop_stops])

text \<open>Whatever was called before, a stop leaves it stopped, and a second start or stop changes nothing.\<close>

lemma calls_then_stop: "\<not> running (life_calls start stop (cs @ [Stop]) g)"
  by (simp add: stop_stops)

lemma last_call_twice: "life_calls start stop (cs @ [c] @ [c]) g = life_calls start stop (cs @ [c]) g"
  unfolding append_assoc [symmetric] life_calls_simps by (cases c) (simp_all add: stop_twice start_twice)

end

interpretation file_life: lifecycle "file_start mkdirs" file_stop fi_running
  by unfold_locales (auto simp: file_start_def file_stop_def split: if_splits)

text \<open>A consumer that was started never fails to make its source.\<close>

lemma started_source:
  assumes "\<not> ri_running g" "fst (rabbit_start cfg g)" "ri_format g = source_format cfg"
  shows "make_source (createParser (source_format cfg) (ParserFactory cfg) ()) = Inr new_source"
  using assms
  by (auto simp: rabbit_start_def make_source_def hasParser_def createParser_def split: if_splits option.split)

interpretation rabbit_life: lifecycle "rabbit_start cfg" rabbit_stop ri_running
  by unfold_locales (auto simp: rabbit_start_def rabbit_stop_def Let_def split: if_splits)

interpretation gateway_life: lifecycle "gateway_start any_port can_bind" gateway_stop g_running
  by unfold_locales (auto simp: gateway_start_def gateway_stop_def Let_def split: if_splits)

interpretation ingestor_life: lifecycle "ingestor_start cfg mkdirs" ingestor_stop ingestor_running
proof unfold_locales
  fix g :: "'a ingestor"
  note defs = ingestor_running_def ingestor_start_def ingestor_stop_def
  show "ingestor_running g \<Longrightarrow> ingestor_start cfg mkdirs g = (True, g)"
    by (cases g) (simp_all add: defs file_life.start_again rabbit_life.start_again)
  show "ingestor_running (snd (ingestor_start cfg mkdirs g)) = fst (ingestor_start cfg mkdirs g)"
    by (cases g) (simp_all add: defs file_life.start_result rabbit_life.start_result)
  show "\<not> fst (ingestor_start cfg mkdirs g) \<Longrightarrow> snd (ingestor_start cfg mkdirs g) = g"
    by (cases g) (simp_all add: defs file_life.start_failed rabbit_life.start_failed)
  show "\<not> ingestor_running g \<Longrightarrow> ingestor_stop g = g"
    by (cases g) (simp_all add: defs file_life.stop_idle rabbit_life.stop_idle)
  show "\<not> ingestor_running (ingestor_stop g)"
    by (cases g) (simp_all add: defs file_life.stop_stops rabbit_life.stop_stops)
qed

section \<open>Threads\<close>

text \<open>What holds of both ingestors between any two calls.\<close>

definition rabbit_inv :: "Config \<Rightarrow> 's RabbitIngestor \<Rightarrow> bool" where
  "rabbit_inv cfg r \<longleftrightarrow> length (ri_conns r) = ri_threads r
     \<and> ri_threads r = (if ri_running r then unat (rabbit_consumers cfg) else 0)
     \<and> (ri_running r \<longrightarrow> \<not> ri_stop r) \<and> ri_format r = source_format cfg"

definition file_inv :: "'s FileIngestor \<Rightarrow> bool" where
  "file_inv f \<longleftrightarrow> fi_feeder f = fi_running f \<and> (fi_pool f = None) = fi_stop f"

lemma rabbit_inv_calls: "rabbit_inv cfg r \<Longrightarrow> rabbit_inv cfg (snd (rabbit_start cfg r)) \<and> rabbit_inv cfg (rabbit_stop r)"
  by (auto simp: rabbit_inv_def rabbit_start_def rabbit_stop_def Let_def)

lemma file_inv_calls: "file_inv f \<Longrightarrow> file_inv (snd (file_start mkdirs f)) \<and> file_inv (file_stop f)"
  by (auto simp: file_inv_def file_start_def file_stop_def)

definition ingestor_inv :: "Config \<Rightarrow> 's ingestor \<Rightarrow> bool" where
  "ingestor_inv cfg g \<longleftrightarrow> (case g of File f \<Rightarrow> file_inv f | Rabbit r \<Rightarrow> rabbit_inv cfg r)"

lemma ingestor_inv_calls:
  "ingestor_inv cfg g \<Longrightarrow> ingestor_inv cfg (life_calls (ingestor_start cfg mkdirs) ingestor_stop cs g)"
  by (rule life_calls_inv [where P = "ingestor_inv cfg"])
    (auto simp: ingestor_inv_def ingestor_start_def ingestor_stop_def file_inv_calls rabbit_inv_calls split: ingestor.splits)

lemma createIngestor_names:
  "createIngestor mode (IngestorFactory mc cfg watch) sk =
     (if mode = ''rabbit'' then Some (Inr (Rabbit (new_rabbit_ingestor cfg sk)))
      else if mode = ''file'' then Some (map_sum id File (new_file_ingestor mc cfg watch sk)) else None)"
  unfolding IngestorFactory_def by (simp add: ingestors.create_registered createIngestor_def [where m_ingestors = "\<lambda>_. None"])

lemma new_ingestor_inv:
  "createIngestor mode (IngestorFactory mc cfg watch) sk = Some (Inr g) \<Longrightarrow> ingestor_inv cfg g \<and> \<not> ingestor_running g"
  by (auto simp: createIngestor_names new_file_ingestor_def new_rabbit_ingestor_def ingestor_inv_def file_inv_def
      rabbit_inv_def ingestor_running_def Let_def split: if_splits sum.splits)

section \<open>Properties\<close>

text \<open>
  The life of an ingestor. The factory knows the two modes and no other; the constructor of the file
  ingestor throws only for a number of readers its pool cannot have; whatever sequence of
  starts and stops the ingestor it makes goes through, a stop leaves it stopped, a repeated call changes
  nothing, the file ingestor has its feeder exactly while it runs, and the Rabbit ingestor has
  one connection and one thread for each configured consumer while it runs and none otherwise.
\<close>

theorem ingestor_lifecycle:
  "case createIngestor mode (IngestorFactory mc cfg watch) sk of
     None \<Rightarrow> mode \<notin> {''file'', ''rabbit''}
   | Some (Inl e) \<Rightarrow> mode = ''file'' \<and> (0 \<in> {file_readers cfg, 2 * file_readers cfg}
       \<or> kMaxThreads < unat (file_readers cfg) \<or> \<not> grants mc (unat (file_readers cfg)))
   | Some (Inr g0) \<Rightarrow>
       let life = life_calls (ingestor_start cfg mkdirs) ingestor_stop; g = life cs g0 in
       mode \<in> {''file'', ''rabbit''} \<and> \<not> ingestor_running (life [Stop] g)
       \<and> life (cs @ [c] @ [c]) g0 = life (cs @ [c]) g0
       \<and> (case g of
            File f \<Rightarrow> fi_feeder f = fi_running f
          | Rabbit r \<Rightarrow> length (ri_conns r) = ri_threads r
              \<and> ri_threads r = (if ri_running r then unat (rabbit_consumers cfg) else 0))"
proof (cases "createIngestor mode (IngestorFactory mc cfg watch) sk")
  case (Some x)
  show ?thesis
  proof (cases x)
    case (Inl e)
    then show ?thesis using Some
      by (auto simp: createIngestor_names new_file_ingestor_def unat_eq_0 Let_def
          dest!: new_pool_Inl split: if_splits sum.splits)
  next
    case (Inr g0)
    note g0 = Some [unfolded Inr]
    let ?g = "life_calls (ingestor_start cfg mkdirs) ingestor_stop cs g0"
    have "ingestor_inv cfg ?g" using new_ingestor_inv [OF g0] ingestor_inv_calls by blast
    moreover have "mode \<in> {''file'', ''rabbit''}" using g0 by (auto simp: createIngestor_names split: if_splits)
    moreover have "\<not> ingestor_running (life_calls (ingestor_start cfg mkdirs) ingestor_stop [Stop] ?g)"
      using ingestor_life.calls_then_stop [of cfg mkdirs "[]" ?g] by simp
    ultimately show ?thesis unfolding Some Inr
      using ingestor_life.last_call_twice [of cfg mkdirs cs c g0]
      by (auto simp: ingestor_inv_def file_inv_def rabbit_inv_def Let_def split: ingestor.split)
  qed
qed (auto simp: createIngestor_names split: if_splits)

text \<open>
  A file ingestor that is stopped and started again says it runs and ingests nothing: the stop flag
  stays set, so the feeder submits no file and a reader would leave one untouched, and the pool is
  gone. The Rabbit ingestor clears the flag.
\<close>

theorem file_restart_inert:
  "(case file_start mkdirs (file_stop g) of (good, g2) \<Rightarrow>
     if fi_running g then
       good = (fi_parser g \<noteq> None \<and> watcher_ok (fi_watcher g) \<and> ensure_dir mkdirs (dir_done (fi_dirs g))
         \<and> ensure_dir mkdirs (dir_fail (fi_dirs g)))
       \<and> fi_running g2 = good \<and> fi_feeder g2 = good \<and> fi_stop g2 \<and> fi_pool g2 = None
       \<and> feed (fi_stop g2 # stops) wks x = ([], x)
       \<and> process sys (fi_dirs g2) (fi_sink g2) parser (fi_stop g2) p y = y
     else True) \<and>
   (case rabbit_start cfg (rabbit_stop r) of (good, r2) \<Rightarrow> ri_running r2 = good \<and> (if good then \<not> ri_stop r2 else ri_conns r2 = ri_conns (rabbit_stop r)))"
  by (cases y) (auto simp: file_start_def file_stop_def process_def rabbit_start_def rabbit_stop_def Let_def)

end
