(* ===== verification/Programs.thy ===== *)
theory Programs
  imports Ingestors
begin

text \<open>
  The two programs, \<open>src/processor_main.cpp\<close> and \<open>src/gateway_main.cpp\<close>, and the wait for a signal,
  \<open>src/util/signal_waiter.cpp\<close>. The configuration is the value \<open>cfg\<close>; what the run does between its
  start and the signal is in the other theories, here the state of the sink at the signal is an argument.
\<close>

section \<open>Signals\<close>

definition SIGINT :: int where "SIGINT = 2"
definition SIGTERM :: int where "SIGTERM = 15"

text \<open>The mask while a waiter lives, from the one in place before, and the one after it.\<close>

record SignalWaiter =
  m_mask :: "int set"
  m_previous :: "int set"

definition new_waiter :: "int set \<Rightarrow> SignalWaiter \<times> int set" where
  "new_waiter current =
     (let mask = {SIGINT, SIGTERM} in (\<lparr>m_mask = mask, m_previous = current\<rparr>, current \<union> mask))"

definition drop_waiter :: "SignalWaiter \<Rightarrow> int set" where
  "drop_waiter w = m_previous w"

text \<open>
  \<open>wait\<close> over the results of \<open>sigwait\<close>, each an error number and the signal; a script that has run out
  is a wait that has not ended.
\<close>

fun signal_wait :: "(int \<times> int) list \<Rightarrow> int option" where
  "signal_wait [] = None"
| "signal_wait ((rc, signum) # rest) = (if rc \<noteq> 0 then signal_wait rest else Some signum)"

section \<open>The processor\<close>

datatype 's outcome =
  Thrown string
| Waiting "'s ingestor"
| Exited int "'s ingestor option" "string option"

text \<open>The exit code, the ingestor as it is left, and the line with the totals.\<close>

definition processor_main ::
    "machine \<Rightarrow> Config \<Rightarrow> 'w env \<Rightarrow> (string \<Rightarrow> string \<Rightarrow> DirWatcher) \<Rightarrow> (string \<Rightarrow> bool \<times> bool \<times> bool)
       \<Rightarrow> (int \<times> int) list \<Rightarrow> RunTotals \<times> 'w RS \<Rightarrow> (RunTotals \<times> 'w RS) outcome" where
  "processor_main mc cfg E watch mkdirs signals at_signal =
     (case createStore (store_type cfg) (StoreFactory E) () of
        None \<Rightarrow> Exited 1 None None
      | Some store \<Rightarrow>
          (case make_sink (Some store) of
             Inl e \<Rightarrow> Thrown e
           | Inr vt \<Rightarrow>
               (case createIngestor (source_mode cfg) (IngestorFactory mc cfg watch) (aggregate_sink vt) of
                  None \<Rightarrow> Exited 1 None None
                | Some (Inl e) \<Rightarrow> Thrown e
                | Some (Inr g) \<Rightarrow>
                    (case ingestor_start cfg mkdirs g of (started, g) \<Rightarrow>
                       if \<not> started then Exited 1 (Some g) None
                       else (case signal_wait signals of
                         None \<Rightarrow> Waiting g
                       | Some signum \<Rightarrow>
                           Exited 0 (Some (ingestor_stop g))
                             (Some (''totals of this run:'' @ totals_format (sink_snapshot at_signal))))))))"

section \<open>The gateway\<close>

text \<open>The exit code and the server as it is left; \<open>None\<close> while it serves.\<close>

definition gateway_main ::
    "Config \<Rightarrow> 'w env \<Rightarrow> 'w asker \<Rightarrow> 'w RS \<Rightarrow> (int \<Rightarrow> bool) \<Rightarrow> int \<Rightarrow> (int \<times> int) list
       \<Rightarrow> (int \<times> HttpGateway option) option" where
  "gateway_main cfg E ask s can_bind any_port signals =
     (case createQuery (store_type cfg) (QueryFactory E ask s) () of
        None \<Rightarrow> Some (1, None)
      | Some store \<Rightarrow>
          (case gateway_start any_port can_bind (new_gateway (query_port cfg) (query_host cfg)) of (started, g) \<Rightarrow>
             if \<not> started then Some (1, Some g)
             else (case signal_wait signals of
               None \<Rightarrow> None
             | Some signum \<Rightarrow> Some (0, Some (gateway_stop g)))))"

section \<open>Properties\<close>

text \<open>
  How the processor ends. From a configuration that loaded one constructor only may throw, that of
  the pool of readers, for more of them than a vector or the machine can hold; else the program
  starts ingesting exactly when the store is the one there is and, for files, the watcher and the
  two directories are in place; it then waits for a signal, stops the ingestor, reports the totals of
  the run and exits with 0. Otherwise it exits with 1 and nothing is left running.
\<close>

theorem processor_exits:
  "case Config_init loaded cores of
     Inl e \<Rightarrow> True
   | Inr (cfg, l) \<Rightarrow>
       let ready = (store_type cfg = ''redis'' \<and> (source_mode cfg = ''rabbit''
             \<or> watcher_ok (watch (file_ready_dir cfg) (file_process_dir cfg))
               \<and> ensure_dir mkdirs (file_done_dir cfg) \<and> ensure_dir mkdirs (file_fail_dir cfg)))
       in (case processor_main mc cfg E watch mkdirs signals at_signal of
             Thrown e \<Rightarrow> store_type cfg = ''redis'' \<and> source_mode cfg = ''file''
               \<and> (kMaxThreads < unat (file_readers cfg) \<or> \<not> grants mc (unat (file_readers cfg)))
           | Waiting g \<Rightarrow> ready \<and> signal_wait signals = None \<and> ingestor_running g
           | Exited code g line \<Rightarrow>
               code = (if ready then 0 else 1)
               \<and> line = (if ready then Some (''totals of this run:'' @ totals_format (sink_snapshot at_signal)) else None)
               \<and> (case g of None \<Rightarrow> store_type cfg \<noteq> ''redis'' | Some g \<Rightarrow> \<not> ingestor_running g))"
proof (cases "Config_init loaded cores")
  case (Inr x)
  obtain cfg l where x: "x = (cfg, l)" by (cases x)
  note fit = settings_facts [OF Inr [unfolded x]]
  let ?n = "unat (file_readers cfg)" and ?c = "unat (2 * file_readers cfg)"
  have pool: "case new_pool mc ?n ?c :: string + string Pool of
      Inl e \<Rightarrow> if kMaxThreads < ?n then e = ''vector::reserve'' else \<not> grants mc ?n
    | Inr p \<Rightarrow> ?n \<le> kMaxThreads \<and> grants mc ?n \<and> length (p_workers p) = ?n \<and> p_capacity p = ?c"
    by (rule new_pool_cases) (use fit(2,3) in simp_all)
  show ?thesis
    unfolding Inr x sum.case prod.case Let_def
    using fit(4,5) pool ingestor_life.stop_stops
    by (auto simp: processor_main_def createStore_names make_sink_def createIngestor_names new_file_ingestor_def
        createParser_names ingestor_start_def file_start_def rabbit_start_def hasParser_names new_rabbit_ingestor_def
        file_dirs_def ingestor_running_def Let_def split: option.splits sum.splits if_splits)
qed simp

text \<open>
  How the gateway ends: it exits with 1 when the store type is unknown or its port cannot be bound,
  serves the configured port until a signal otherwise, and is stopped before it exits with 0. The
  signal mask of the program is the one it started with.
\<close>

theorem gateway_exits:
  "case Config_init loaded cores of
     Inl e \<Rightarrow> True
   | Inr (cfg, l) \<Rightarrow>
       let ready = (store_type cfg = ''redis'' \<and> can_bind (query_port cfg))
       in (case gateway_main cfg E ask s can_bind any_port signals of
             None \<Rightarrow> ready \<and> signal_wait signals = None
           | Some (code, g) \<Rightarrow> code = (if ready then 0 else 1)
               \<and> g = (if store_type cfg = ''redis'' then Some (new_gateway (query_port cfg) (query_host cfg)) else None))
         \<and> drop_waiter (fst (new_waiter current)) = current"
proof (cases "Config_init loaded cores")
  case (Inr x)
  obtain cfg l where x: "x = (cfg, l)" by (cases x)
  note fit = settings_facts [OF Inr [unfolded x]]
  show ?thesis
    unfolding Inr x sum.case prod.case Let_def
    using fit(6)
    by (auto simp: gateway_main_def createQuery_names gateway_start_def gateway_stop_def new_gateway_def drop_waiter_def new_waiter_def
        Let_def split: option.splits)
qed simp

end
