(* ===== verification/Consumers.thy ===== *)
theory Consumers
  imports Rabbit SharedStore History
begin

text \<open>
  All consumer threads of \<open>src/ingest/rabbit_ingestor.cpp\<close> at once, each with its connection, before
  one sink. \<open>Rabbit\<close> has a consumer by itself, as the two loops of the code; here the same thread is a
  machine that makes one step at a time, between two looks at what other threads share: a look at
  the stop flag with the call on its own connection that follows, the call on the sink, the
  acknowledgement. The lemmas show that a machine left alone computes what the loops compute, and what the
  store holds, and who has acknowledged what, in every state that any interleaving reaches.
\<close>

section \<open>One thread in steps\<close>

datatype phase = Outside | Reading RabbitSource | Holding RabbitSource "CdrRecord list" | Acking RabbitSource | Gone

record Member =
  mb_conn :: RabbitConn
  mb_phase :: phase
  mb_k :: "unit Consumer"
  mb_world :: World

definition new_member :: "World \<Rightarrow> Member" where
  "new_member w = \<lparr>mb_conn = closed_conn, mb_phase = Outside,
     mb_k = \<lparr>k_sink = (), k_total = 0, k_rejected = 0, k_delay = 0, k_down = False, k_trace = []\<rparr>, mb_world = w\<rparr>"

text \<open>The end of the inner loop: the rejected messages are counted and the source is gone.\<close>

definition leave :: "RabbitSource \<Rightarrow> Member \<Rightarrow> Member" where
  "leave src m = m\<lparr>mb_phase := Outside, mb_k := (mb_k m)\<lparr>k_rejected := k_rejected (mb_k m) + r_rejected src\<rparr>\<rparr>"

text \<open>\<open>Outside\<close>: the top of the outer loop, up to a new source or the end of a backoff.\<close>

definition outside_step :: "Member \<Rightarrow> Member" where
  "outside_step m =
     (let k = mb_k m; (stopped, w) = stop_set (mb_world m) in
      if stopped then m\<lparr>mb_phase := Gone, mb_world := w\<rparr>
      else
        let (t, w) = next_open w; (opened, c) = rabbit_open t (mb_conn m) in
        if \<not> opened then
          let delay = (if k_delay k \<noteq> 0 then min (k_delay k * 2) kRabbitBackoffMaxMs else kRabbitBackoffMinMs)
          in m\<lparr>mb_conn := c, mb_k := k\<lparr>k_delay := delay, k_down := True\<rparr>, mb_world := snd (rabbit_backoff delay w)\<rparr>
        else
          m\<lparr>mb_conn := c, mb_phase := Reading new_source,
            mb_k := k\<lparr>k_delay := 0, k_down := False, k_trace := k_trace k @ [T_open]\<rparr>, mb_world := w\<rparr>)"

text \<open>\<open>Reading\<close>: the top of the inner loop, up to the call on the sink if there is one.\<close>

definition reading_step :: "(string \<Rightarrow> CdrRecord option) \<Rightarrow> RabbitSource \<Rightarrow> Member \<Rightarrow> Member" where
  "reading_step parser src m =
     (let k = mb_k m; (stopped, w) = stop_set (mb_world m) in
      if stopped then leave src (m\<lparr>mb_world := w\<rparr>)
      else
        let (st, batch, src, msgs, w) = rabbit_next parser (mb_conn m) src w;
            m = m\<lparr>mb_k := k\<lparr>k_trace := k_trace k @ map T_taken msgs\<rparr>, mb_world := w\<rparr> in
        if st = FAIL then leave src m
        else if batch = [] then m\<lparr>mb_phase := Reading src\<rparr>
        else m\<lparr>mb_phase := Holding src batch\<rparr>)"

definition acking_step :: "RabbitSource \<Rightarrow> Member \<Rightarrow> Member" where
  "acking_step src m =
     (let (acked, w) = rabbit_ack (mb_conn m) (r_last_tag src) True (mb_world m);
          m = m\<lparr>mb_k := (mb_k m)\<lparr>k_trace := k_trace (mb_k m) @ [T_ack (r_last_tag src) True]\<rparr>, mb_world := w\<rparr>
      in if acked then m\<lparr>mb_phase := Reading src\<rparr> else leave src m)"

definition member_step :: "'x ISink \<Rightarrow> (string \<Rightarrow> CdrRecord option) \<Rightarrow> Member \<times> 'x \<Rightarrow> Member \<times> 'x" where
  "member_step sk parser = (\<lambda>(m, x).
     case mb_phase m of
       Outside \<Rightarrow> (outside_step m, x)
     | Reading src \<Rightarrow> (reading_step parser src m, x)
     | Holding src batch \<Rightarrow>
         (m\<lparr>mb_phase := Acking src,
            mb_k := (mb_k m)\<lparr>k_total := k_total (mb_k m) + of_nat (length batch),
                       k_trace := k_trace (mb_k m) @ [T_consume batch]\<rparr>\<rparr>,
          sk_consume sk batch [] x)
     | Acking src \<Rightarrow> (acking_step src m, x)
     | Gone \<Rightarrow> (m, x))"

section \<open>A thread left alone\<close>

text \<open>The same consumer with and without the sink it calls.\<close>

definition with_sink :: "'x \<Rightarrow> unit Consumer \<Rightarrow> 'x Consumer" where
  "with_sink x k = \<lparr>k_sink = x, k_total = k_total k, k_rejected = k_rejected k, k_delay = k_delay k,
     k_down = k_down k, k_trace = k_trace k\<rparr>"

lemma with_sink_simps [simp]:
  "k_sink (with_sink x k) = x" "k_total (with_sink x k) = k_total k" "k_rejected (with_sink x k) = k_rejected k"
  "k_delay (with_sink x k) = k_delay k" "k_down (with_sink x k) = k_down k" "k_trace (with_sink x k) = k_trace k"
  by (simp_all add: with_sink_def)

lemma with_sink_update:
  "(with_sink x k)\<lparr>k_trace := t\<rparr> = with_sink x (k\<lparr>k_trace := t\<rparr>)"
  "(with_sink x k)\<lparr>k_delay := d\<rparr> = with_sink x (k\<lparr>k_delay := d\<rparr>)"
  "(with_sink x k)\<lparr>k_down := b\<rparr> = with_sink x (k\<lparr>k_down := b\<rparr>)"
  "(with_sink x k)\<lparr>k_total := n\<rparr> = with_sink x (k\<lparr>k_total := n\<rparr>)"
  "(with_sink x k)\<lparr>k_rejected := r\<rparr> = with_sink x (k\<lparr>k_rejected := r\<rparr>)"
  "(with_sink x k)\<lparr>k_sink := y\<rparr> = with_sink y k"
  by (simp_all add: with_sink_def)

definition moves :: "'x ISink \<Rightarrow> (string \<Rightarrow> CdrRecord option) \<Rightarrow> Member \<times> 'x \<Rightarrow> Member \<times> 'x \<Rightarrow> bool" where
  "moves sk parser a b \<longleftrightarrow> mb_phase (fst a) \<noteq> Gone \<and> b = member_step sk parser a"

lemma move: "member_step sk parser (m, x) = b \<Longrightarrow> mb_phase m \<noteq> Gone \<Longrightarrow> moves sk parser (m, x) b"
  by (auto simp: moves_def)

text \<open>One turn of the inner loop is one step of the machine, or three.\<close>

lemma turn_alone:
  assumes "mb_phase m = Reading src" "inner_body sk parser (mb_conn m) (src, with_sink x (mb_k m), mb_world m) = (go, src', k', w')"
  shows "\<exists>k. k' = with_sink (k_sink k') k \<and>
    (moves sk parser)\<^sup>*\<^sup>* (m, x)
      (if go then m\<lparr>mb_phase := Reading src', mb_k := k, mb_world := w'\<rparr>
       else leave src' (m\<lparr>mb_k := k, mb_world := w'\<rparr>), k_sink k')"
  using assms(2)
proof (cases rule: inner_body_cases)
  case stopped
  then have "member_step sk parser (m, x) = (leave src' (m\<lparr>mb_world := w'\<rparr>), x)"
    by (simp add: member_step_def assms(1) reading_step_def Let_def)
  from move [OF this] show ?thesis using stopped assms(1)
    by (intro exI [of _ "mb_k m"]) (auto simp: r_into_rtranclp)
next
  case (turn w1 st batch msgs w2)
  let ?k = "(mb_k m)\<lparr>k_trace := k_trace (mb_k m) @ map T_taken msgs\<rparr>"
  have "member_step sk parser (m, x) =
      (if go then m\<lparr>mb_phase := Reading src', mb_k := ?k, mb_world := w'\<rparr> else leave src' (m\<lparr>mb_k := ?k, mb_world := w'\<rparr>), x)"
    using turn by (auto simp: member_step_def assms(1) reading_step_def Let_def)
  from move [OF this] show ?thesis using turn assms(1)
    by (intro exI [of _ ?k]) (auto simp: r_into_rtranclp with_sink_update)
next
  case (batch w1 st batch msgs w2)
  let ?k1 = "(mb_k m)\<lparr>k_trace := k_trace (mb_k m) @ map T_taken msgs\<rparr>"
  let ?k2 = "?k1\<lparr>k_total := k_total ?k1 + of_nat (length batch), k_trace := k_trace ?k1 @ [T_consume batch]\<rparr>"
  let ?k3 = "?k2\<lparr>k_trace := k_trace ?k2 @ [T_ack (r_last_tag src') True]\<rparr>"
  let ?m1 = "m\<lparr>mb_phase := Holding src' batch, mb_k := ?k1, mb_world := w2\<rparr>"
  let ?m2 = "m\<lparr>mb_phase := Acking src', mb_k := ?k2, mb_world := w2\<rparr>"
  let ?x = "sk_consume sk batch [] x"
  have "moves sk parser (m, x) (?m1, x)"
    by (rule move) (use batch in \<open>simp_all add: member_step_def assms(1) reading_step_def Let_def\<close>)
  moreover have "moves sk parser (?m1, x) (?m2, ?x)"
    by (rule move) (simp_all add: member_step_def)
  moreover have "moves sk parser (?m2, ?x)
      (if go then m\<lparr>mb_phase := Reading src', mb_k := ?k3, mb_world := w'\<rparr> else leave src' (m\<lparr>mb_k := ?k3, mb_world := w'\<rparr>), ?x)"
    by (rule move) (use batch(6) in \<open>simp_all add: member_step_def acking_step_def leave_def\<close>)
  ultimately have "(moves sk parser)\<^sup>*\<^sup>* (m, x)
      (if go then m\<lparr>mb_phase := Reading src', mb_k := ?k3, mb_world := w'\<rparr> else leave src' (m\<lparr>mb_k := ?k3, mb_world := w'\<rparr>), ?x)"
    by (meson converse_rtranclp_into_rtranclp r_into_rtranclp)
  then show ?thesis using batch(5) by (intro exI [of _ ?k3]) (simp add: with_sink_update)
qed

text \<open>The inner loop, and one turn of the outer loop.\<close>

lemma inner_alone:
  assumes "consumer_inner sk parser (mb_conn m) (src, with_sink x (mb_k m), mb_world m) = (src', k', w')"
    and "mb_phase m = Reading src"
  shows "\<exists>k. k' = with_sink (k_sink k') k \<and>
    (moves sk parser)\<^sup>*\<^sup>* (m, x) (leave src' (m\<lparr>mb_k := k, mb_world := w'\<rparr>), k_sink k')"
proof -
  have "consumer_inner sk parser c y = (src', k', w') \<Longrightarrow> mb_conn m = c \<Longrightarrow>
      y = (src, with_sink x (mb_k m), mb_world m) \<Longrightarrow> mb_phase m = Reading src \<Longrightarrow>
    \<exists>k. k' = with_sink (k_sink k') k \<and>
      (moves sk parser)\<^sup>*\<^sup>* (m, x) (leave src' (m\<lparr>mb_k := k, mb_world := w'\<rparr>), k_sink k')" for c y
  proof (induction sk parser c y arbitrary: m src x rule: consumer_inner.induct)
    case (1 sk parser c y)
    obtain go src1 k1 w1 where b: "inner_body sk parser c y = (go, src1, k1, w1)"
      using prod_cases4 by blast
    from turn_alone [OF "1.prems"(4) b [unfolded "1.prems"(3) "1.prems"(2) [symmetric]]]
    obtain k where k: "k1 = with_sink (k_sink k1) k"
      "(moves sk parser)\<^sup>*\<^sup>* (m, x)
        (if go then m\<lparr>mb_phase := Reading src1, mb_k := k, mb_world := w1\<rparr>
         else leave src1 (m\<lparr>mb_k := k, mb_world := w1\<rparr>), k_sink k1)" by blast
    show ?case
    proof (cases go)
      case True
      let ?m = "m\<lparr>mb_phase := Reading src1, mb_k := k, mb_world := w1\<rparr>"
      have "consumer_inner sk parser c (src1, k1, w1) = (src', k', w')"
        using "1.prems"(1) b True by (subst (asm) consumer_inner.simps) simp
      from "1.IH" [OF b [symmetric, unfolded eqTrueI [OF True]] refl this, of ?m src1 "k_sink k1"] obtain k2 where
        "k' = with_sink (k_sink k') k2"
        "(moves sk parser)\<^sup>*\<^sup>* (?m, k_sink k1) (leave src' (?m\<lparr>mb_k := k2, mb_world := w'\<rparr>), k_sink k')"
        using k(1) "1.prems"(2) by auto
      then show ?thesis using k(2) True
        by (intro exI [of _ k2]) (simp add: leave_def)
    next
      case False
      then show ?thesis using "1.prems"(1) b k by (subst (asm) consumer_inner.simps) auto
    qed
  qed
  then show ?thesis using assms by blast
qed

lemma outer_alone:
  assumes "outer_body sk parser (mb_conn m, with_sink x (mb_k m), mb_world m) = (go, c', k', w')" "mb_phase m = Outside"
  shows "\<exists>k. k' = with_sink (k_sink k') k \<and> (moves sk parser)\<^sup>*\<^sup>* (m, x)
    (m\<lparr>mb_conn := c', mb_phase := if go then Outside else Gone, mb_k := k, mb_world := w'\<rparr>, k_sink k')"
  using assms(1)
proof (cases rule: outer_body_cases)
  case stopped
  have "moves sk parser (m, x) (m\<lparr>mb_conn := c', mb_phase := Gone, mb_world := w'\<rparr>, x)"
    by (rule move) (use stopped assms(2) in \<open>simp_all add: member_step_def outside_step_def\<close>)
  then show ?thesis using stopped by (intro exI [of _ "mb_k m"]) (auto simp: r_into_rtranclp)
next
  case (refused w1 t w2 delay)
  let ?k = "(mb_k m)\<lparr>k_delay := delay, k_down := True\<rparr>"
  have "moves sk parser (m, x) (m\<lparr>mb_conn := c', mb_phase := Outside, mb_k := ?k, mb_world := w'\<rparr>, x)"
    by (rule move) (use refused assms(2) in \<open>simp_all add: member_step_def outside_step_def Let_def\<close>)
  then show ?thesis using refused by (intro exI [of _ ?k]) (auto simp: r_into_rtranclp with_sink_update)
next
  case (opened w1 t w2 src k1)
  let ?k = "(mb_k m)\<lparr>k_delay := 0, k_down := False, k_trace := k_trace (mb_k m) @ [T_open]\<rparr>"
  let ?m = "m\<lparr>mb_conn := c', mb_phase := Reading new_source, mb_k := ?k, mb_world := w2\<rparr>"
  have 1: "moves sk parser (m, x) (?m, x)"
    by (rule move) (use opened assms(2) in \<open>simp_all add: member_step_def outside_step_def Let_def\<close>)
  have "consumer_inner sk parser (mb_conn ?m) (new_source, with_sink x (mb_k ?m), mb_world ?m) = (src, k1, w')"
    using opened(5) by (simp add: with_sink_update)
  from inner_alone [OF this] obtain k where k: "k1 = with_sink (k_sink k1) k"
    "(moves sk parser)\<^sup>*\<^sup>* (?m, x) (leave src (?m\<lparr>mb_k := k, mb_world := w'\<rparr>), k_sink k1)" by auto
  let ?k' = "k\<lparr>k_rejected := k_rejected k + r_rejected src\<rparr>"
  have "leave src (?m\<lparr>mb_k := k, mb_world := w'\<rparr>) = m\<lparr>mb_conn := c', mb_phase := Outside, mb_k := ?k', mb_world := w'\<rparr>"
    by (simp add: leave_def)
  moreover have "k' = with_sink (k_sink k') ?k'"
    using opened(6)
    by (metis k(1) with_sink_simps(3) with_sink_update(5) Consumer.select_convs(1) Consumer.surjective Consumer.update_convs(3))
  ultimately show ?thesis using converse_rtranclp_into_rtranclp [OF 1 k(2)] opened(1,6)
    by (intro exI [of _ ?k']) simp
qed

lemma loop_alone:
  assumes "consumer_loop sk parser (mb_conn m, with_sink x (mb_k m), mb_world m) = (c', k', w')" "mb_phase m = Outside"
  shows "\<exists>k. k' = with_sink (k_sink k') k \<and> (moves sk parser)\<^sup>*\<^sup>* (m, x)
    (m\<lparr>mb_conn := c', mb_phase := Gone, mb_k := k, mb_world := w'\<rparr>, k_sink k')"
proof -
  have "consumer_loop sk parser y = (c', k', w') \<Longrightarrow> y = (mb_conn m, with_sink x (mb_k m), mb_world m) \<Longrightarrow>
      mb_phase m = Outside \<Longrightarrow> \<exists>k. k' = with_sink (k_sink k') k \<and> (moves sk parser)\<^sup>*\<^sup>* (m, x)
        (m\<lparr>mb_conn := c', mb_phase := Gone, mb_k := k, mb_world := w'\<rparr>, k_sink k')" for y
  proof (induction sk parser y arbitrary: m x rule: consumer_loop.induct)
    case (1 sk parser y)
    obtain go c1 k1 w1 where b: "outer_body sk parser y = (go, c1, k1, w1)" using prod_cases4 by blast
    let ?m = "\<lambda>k. m\<lparr>mb_conn := c1, mb_phase := if go then Outside else Gone, mb_k := k, mb_world := w1\<rparr>"
    from outer_alone [OF b [unfolded "1.prems"(2)] "1.prems"(3)] obtain k where k: "k1 = with_sink (k_sink k1) k"
      "(moves sk parser)\<^sup>*\<^sup>* (m, x) (?m k, k_sink k1)" by blast
    show ?case
    proof (cases go)
      case True
      have "consumer_loop sk parser (c1, k1, w1) = (c', k', w')"
        using "1.prems"(1) b True by (subst (asm) consumer_loop.simps) simp
      from "1.IH" [OF b [symmetric, unfolded eqTrueI [OF True]] refl this, of "?m k" "k_sink k1"] k(1) True
      obtain k2 where "k' = with_sink (k_sink k') k2"
        "(moves sk parser)\<^sup>*\<^sup>* (?m k, k_sink k1) ((?m k)\<lparr>mb_conn := c', mb_phase := Gone, mb_k := k2, mb_world := w'\<rparr>, k_sink k')"
        by auto
      then show ?thesis using k(2) True by (intro exI [of _ k2]) simp
    next
      case False
      then show ?thesis using "1.prems"(1) b k by (subst (asm) consumer_loop.simps) auto
    qed
  qed
  then show ?thesis using assms by blast
qed

section \<open>All of them\<close>

text \<open>
  The consumers and the sink they share. \<open>cr_calls\<close> is a ghost: who called \<open>consume\<close> with what, in order.
\<close>

record 'x Crew =
  cr_of :: "nat \<Rightarrow> Member"
  cr_sink :: 'x
  cr_calls :: "(nat \<times> CdrRecord list) list"

definition crew_start :: "(nat \<Rightarrow> World) \<Rightarrow> 'x \<Rightarrow> 'x Crew" where
  "crew_start ws x = \<lparr>cr_of = (\<lambda>i. new_member (ws i)), cr_sink = x, cr_calls = []\<rparr>"

definition call_of :: "nat \<Rightarrow> phase \<Rightarrow> (nat \<times> CdrRecord list) list" where
  "call_of i ph = (case ph of Holding src batch \<Rightarrow> [(i, batch)] | _ \<Rightarrow> [])"

inductive crew_step ::
    "nat \<Rightarrow> (nat \<Rightarrow> 'x ISink) \<Rightarrow> (string \<Rightarrow> CdrRecord option) \<Rightarrow> 'x Crew \<Rightarrow> 'x Crew \<Rightarrow> bool"
  for n sk parser where
  acts: "i < n \<Longrightarrow> mb_phase (cr_of s i) \<noteq> Gone \<Longrightarrow> member_step (sk i) parser (cr_of s i, cr_sink s) = (m, x) \<Longrightarrow>
    crew_step n sk parser s
      (s\<lparr>cr_of := (cr_of s)(i := m), cr_sink := x, cr_calls := cr_calls s @ call_of i (mb_phase (cr_of s i))\<rparr>)"

section \<open>What a thread knows in each phase\<close>

text \<open>
  Outside, and after every acknowledgement, what was acknowledged is covered; while a batch is held, its
  records are what the messages taken still owe the sink.
\<close>

definition owed :: "(string \<Rightarrow> CdrRecord option) \<Rightarrow> trace list \<Rightarrow> RabbitSource \<Rightarrow> CdrRecord list \<Rightarrow> bool" where
  "owed parser tr src b \<longleftrightarrow> \<not> r_stop src \<and>
     (\<exists>d c. tr_state parser tr = (True, d, c) \<and> parsed parser d = c @ b \<and> (d \<noteq> [] \<longrightarrow> r_last_tag src = tag (last d)))"

definition phase_ok :: "(string \<Rightarrow> CdrRecord option) \<Rightarrow> trace list \<Rightarrow> phase \<Rightarrow> bool" where
  "phase_ok parser tr ph \<longleftrightarrow> acks_covered parser tr \<and>
     (case ph of
        Reading src \<Rightarrow> owed parser tr src []
      | Holding src b \<Rightarrow> owed parser tr src b \<and> b \<noteq> []
      | Acking src \<Rightarrow> owed parser tr src [] \<and> fst (snd (tr_state parser tr)) \<noteq> []
      | _ \<Rightarrow> True)"

definition member_ok :: "(string \<Rightarrow> CdrRecord option) \<Rightarrow> Member \<Rightarrow> bool" where
  "member_ok parser m \<longleftrightarrow> phase_ok parser (k_trace (mb_k m)) (mb_phase m)
     \<and> k_total (mb_k m) = of_nat (length (concat (consumed (k_trace (mb_k m)))))"

lemma new_member_ok: "member_ok parser (new_member w)"
  by (simp add: member_ok_def phase_ok_def new_member_def acks_covered_def)

lemma leave_simps [simp]:
  "mb_phase (leave src m) = Outside" "k_trace (mb_k (leave src m)) = k_trace (mb_k m)"
  "k_total (mb_k (leave src m)) = k_total (mb_k m)"
  by (simp_all add: leave_def)

text \<open>A step adds to the trace; what it hands to the sink is what it held.\<close>

lemma outside_ok:
  assumes "phase_ok parser (k_trace (mb_k m)) Outside" "mb_phase m = Outside"
  shows "phase_ok parser (k_trace (mb_k (outside_step m))) (mb_phase (outside_step m))"
    "consumed (k_trace (mb_k (outside_step m))) = consumed (k_trace (mb_k m))"
    "k_total (mb_k (outside_step m)) = k_total (mb_k m)"
proof -
  obtain g d e where "tr_state parser (k_trace (mb_k m)) = (g, d, e)" using prod_cases3 by blast
  then show "phase_ok parser (k_trace (mb_k (outside_step m))) (mb_phase (outside_step m))"
    using assms by (auto simp: outside_step_def phase_ok_def owed_def acks_covered_def new_source_def Let_def split: prod.split)
qed (simp_all add: outside_step_def Let_def split: prod.split)

lemma reading_ok:
  assumes "phase_ok parser (k_trace (mb_k m)) (Reading src)"
  shows "phase_ok parser (k_trace (mb_k (reading_step parser src m))) (mb_phase (reading_step parser src m))"
    "consumed (k_trace (mb_k (reading_step parser src m))) = consumed (k_trace (mb_k m))"
    "k_total (mb_k (reading_step parser src m)) = k_total (mb_k m)"
proof -
  obtain b w1 where 1: "stop_set (mb_world m) = (b, w1)" by (cases "stop_set (mb_world m)")
  obtain st batch src' msgs w2 where 2: "rabbit_next parser (mb_conn m) src w1 = (st, batch, src', msgs, w2)"
    using prod_cases5 by blast
  from assms obtain d where d: "\<not> r_stop src" "tr_state parser (k_trace (mb_k m)) = (True, d, parsed parser d)"
    "d \<noteq> [] \<longrightarrow> r_last_tag src = tag (last d)" by (auto simp: phase_ok_def owed_def)
  note n = rabbit_next_spec [OF 2 d(1)]
  have t: "tr_state parser (k_trace (mb_k m) @ map T_taken msgs) = (True, d @ msgs, parsed parser d)"
    using d by (simp add: tr_state_append tr_taken)
  show "phase_ok parser (k_trace (mb_k (reading_step parser src m))) (mb_phase (reading_step parser src m))"
    using 1 2 n d t assms by (auto simp: reading_step_def phase_ok_def owed_def acks_covered_def Let_def)
  show "consumed (k_trace (mb_k (reading_step parser src m))) = consumed (k_trace (mb_k m))"
    "k_total (mb_k (reading_step parser src m)) = k_total (mb_k m)"
    using 1 2 by (simp_all add: reading_step_def Let_def)
qed

lemma acking_ok:
  assumes "phase_ok parser (k_trace (mb_k m)) (Acking src)"
  shows "phase_ok parser (k_trace (mb_k (acking_step src m))) (mb_phase (acking_step src m))"
    "consumed (k_trace (mb_k (acking_step src m))) = consumed (k_trace (mb_k m))"
    "k_total (mb_k (acking_step src m)) = k_total (mb_k m)"
proof -
  obtain a w where 1: "rabbit_ack (mb_conn m) (r_last_tag src) True (mb_world m) = (a, w)"
    by (cases "rabbit_ack (mb_conn m) (r_last_tag src) True (mb_world m)")
  show "phase_ok parser (k_trace (mb_k (acking_step src m))) (mb_phase (acking_step src m))"
    using assms 1 by (auto simp: acking_step_def phase_ok_def owed_def acks_covered_def Let_def)
  show "consumed (k_trace (mb_k (acking_step src m))) = consumed (k_trace (mb_k m))"
    "k_total (mb_k (acking_step src m)) = k_total (mb_k m)"
    using 1 by (simp_all add: acking_step_def Let_def)
qed

lemma call_of_simps [simp]:
  "call_of i Outside = []" "call_of i (Reading src) = []" "call_of i (Holding src b) = [(i, b)]"
  "call_of i (Acking src) = []" "call_of i Gone = []"
  by (simp_all add: call_of_def)

definition sink_calls :: "(nat \<Rightarrow> 'x ISink) \<Rightarrow> (nat \<times> CdrRecord list) list \<Rightarrow> 'x \<Rightarrow> 'x" where
  "sink_calls sk cs x = foldl (\<lambda>x (i, b). sk_consume (sk i) b [] x) x cs"

lemma sink_calls_simps [simp]:
  "sink_calls sk [] x = x" "sink_calls sk (cs @ [(i, b)]) x = sk_consume (sk i) b [] (sink_calls sk cs x)"
  by (simp_all add: sink_calls_def)

lemma member_step_ok:
  assumes "member_ok parser m" "member_step (sk i) parser (m, x) = (m', x')"
  shows "member_ok parser m'
    \<and> consumed (k_trace (mb_k m')) = consumed (k_trace (mb_k m)) @ map snd (call_of i (mb_phase m))
    \<and> x' = sink_calls sk (call_of i (mb_phase m)) x \<and> list_all (\<lambda>(j, b). j = i \<and> b \<noteq> []) (call_of i (mb_phase m))"
proof (cases "mb_phase m")
  case Outside
  then show ?thesis using assms outside_ok [of parser m] by (auto simp: member_step_def member_ok_def)
next
  case (Reading src)
  then show ?thesis using assms reading_ok [of parser m src] by (auto simp: member_step_def member_ok_def)
next
  case (Holding src b)
  have p: "phase_ok parser (k_trace (mb_k m)) (Holding src b)" using assms(1) Holding by (simp add: member_ok_def)
  then obtain d c where d: "tr_state parser (k_trace (mb_k m)) = (True, d, c)" "parsed parser d = c @ b" "b \<noteq> []"
    by (auto simp: phase_ok_def owed_def)
  then have "d \<noteq> []" by auto
  then have "phase_ok parser (k_trace (mb_k m) @ [T_consume b]) (Acking src)"
    using p d by (auto simp: phase_ok_def owed_def acks_covered_def)
  then show ?thesis using assms d(3) by (auto simp: member_step_def member_ok_def Holding sink_calls_def)
next
  case (Acking src)
  then show ?thesis using assms acking_ok [of parser m src] by (auto simp: member_step_def member_ok_def)
next
  case Gone
  then show ?thesis using assms by (auto simp: member_step_def)
qed

definition calls_by :: "nat \<Rightarrow> (nat \<times> CdrRecord list) list \<Rightarrow> CdrRecord list list" where
  "calls_by i cs = map snd (filter (\<lambda>(j, b). j = i) cs)"

definition crew_inv ::
    "nat \<Rightarrow> (nat \<Rightarrow> 'x ISink) \<Rightarrow> (string \<Rightarrow> CdrRecord option) \<Rightarrow> 'x \<Rightarrow> 'x Crew \<Rightarrow> bool" where
  "crew_inv n sk parser x0 s \<longleftrightarrow>
     (\<forall>i. member_ok parser (cr_of s i) \<and> consumed (k_trace (mb_k (cr_of s i))) = calls_by i (cr_calls s))
     \<and> cr_sink s = sink_calls sk (cr_calls s) x0 \<and> list_all (\<lambda>(i, b). i < n \<and> b \<noteq> []) (cr_calls s)"

lemma crew_start_inv: "crew_inv n sk parser x0 (crew_start ws x0)"
  by (simp add: crew_inv_def crew_start_def new_member_ok calls_by_def) (simp add: new_member_def)

lemma sink_calls_append: "sink_calls sk (a @ b) x = sink_calls sk b (sink_calls sk a x)"
  by (simp add: sink_calls_def)

lemma crew_step_inv:
  assumes "crew_step n sk parser s s'" "crew_inv n sk parser x0 s"
  shows "crew_inv n sk parser x0 s'"
  using assms(1)
proof cases
  case (acts i m x)
  let ?cs = "call_of i (mb_phase (cr_of s i))"
  have "member_ok parser (cr_of s i)" using assms(2) by (simp add: crew_inv_def)
  note step = member_step_ok [where sk = sk and i = i, OF this acts(4)]
  have "calls_by j ?cs = (if j = i then map snd ?cs else [])" for j
    using step by (cases "mb_phase (cr_of s i)") (auto simp: calls_by_def)
  moreover have "calls_by j (cr_calls s @ ?cs) = calls_by j (cr_calls s) @ calls_by j ?cs" for j
    by (simp add: calls_by_def)
  ultimately show ?thesis using assms(2) step acts(2)
    by (auto simp: acts(1) crew_inv_def sink_calls_append list_all_iff)
qed

lemma crew_steps_inv: "(crew_step n sk parser)\<^sup>*\<^sup>* (crew_start ws x) s \<Longrightarrow> crew_inv n sk parser x s"
  by (induction rule: rtranclp_induct) (blast intro: crew_start_inv crew_step_inv)+

section \<open>What was acknowledged is stored\<close>

text \<open>
  The messages the broker may drop: those taken from the connection before an acknowledgement of
  its last and all before it, and the ones with the tag of an acknowledgement of one message.
\<close>

fun ack_step :: "Message list \<times> Message list \<Rightarrow> trace \<Rightarrow> Message list \<times> Message list" where
  "ack_step (a, d) T_open = (a, [])"
| "ack_step (a, d) (T_taken m) = (a, d @ [m])"
| "ack_step (a, d) (T_consume b) = (a, d)"
| "ack_step (a, d) (T_ack n multiple) =
     (if multiple then (a @ d, []) else (a @ filter (\<lambda>m. tag m = n) d, filter (\<lambda>m. tag m \<noteq> n) d))"

definition acked :: "trace list \<Rightarrow> Message list" where
  "acked tr = fst (foldl ack_step ([], []) tr)"

lemma acked_covered:
  "acks_covered parser tr \<Longrightarrow>
   \<exists>a d0 u e. foldl ack_step ([], []) tr = (a, u) \<and> tr_state parser tr = (True, d0 @ u, parsed parser d0 @ e)
     \<and> mset (parsed parser a) + mset e \<subseteq># mset (concat (consumed tr))"
proof (induction tr rule: rev_induct)
  case Nil
  show ?case by (auto intro!: exI [of _ "[]"])
next
  case (snoc x tr)
  obtain g d c where t: "tr_state parser tr = (g, d, c)" using prod_cases3 by blast
  have "acks_covered parser tr" using snoc.prems by (cases x) (simp_all add: acks_covered_def t)
  from snoc.IH [OF this] obtain a d0 u e where ih: "foldl ack_step ([], []) tr = (a, u)"
    "tr_state parser tr = (True, d0 @ u, parsed parser d0 @ e)"
    "mset (parsed parser a) + mset e \<subseteq># mset (concat (consumed tr))" by blast
  show ?case
  proof (cases x)
    case T_open
    then show ?thesis using ih
      by (auto intro!: exI [of _ "[]"] intro: subset_mset.order_trans mset_subset_eq_add_left)
  next
    case (T_taken m)
    then show ?thesis using ih
      by - (rule exI [of _ a], rule exI [of _ d0], rule exI [of _ "u @ [m]"], rule exI [of _ e], simp)
  next
    case (T_consume b)
    then show ?thesis using ih
      by - (rule exI [of _ a], rule exI [of _ d0], rule exI [of _ u], rule exI [of _ "e @ b"],
        simp add: add.assoc [symmetric] subset_mset.add_right_mono)
  next
    case (T_ack n multiple)
    then have "multiple" "e = parsed parser u" "d0 @ u \<noteq> []" "tag (last (d0 @ u)) = n"
      using ih(2) snoc.prems by (simp_all add: acks_covered_def)
    then show ?thesis using ih T_ack
      by - (rule exI [of _ "a @ u"], rule exI [of _ "d0 @ u"], rule exI [of _ "[]"], rule exI [of _ "[]"], simp)
  qed
qed

lemma acked_consumed: "acks_covered parser tr \<Longrightarrow> mset (parsed parser (acked tr)) \<subseteq># mset (concat (consumed tr))"
  using acked_covered [of parser tr]
  by (auto simp: acked_def intro: subset_mset.order_trans mset_subset_eq_add_left)

text \<open>The calls of all threads are those of each, in some order.\<close>

lemma calls_partition:
  assumes "list_all (\<lambda>(i, b). i < n) cs"
  shows "mset (map snd cs) = mset (concat (map (\<lambda>i. calls_by i cs) [0..<n]))"
  using assms
proof (induction cs)
  case Nil
  then show ?case by (simp add: calls_by_def)
next
  case (Cons c cs)
  obtain j b where c: "c = (j, b)" by (cases c)
  have "mset (concat (map (\<lambda>i. calls_by i (c # cs)) [0..<k])) =
      mset (concat (map (\<lambda>i. calls_by i cs) [0..<k])) + (if j < k then {#b#} else {#})" for k
    by (induction k) (auto simp: c calls_by_def)
  then show ?case using Cons by (simp add: c)
qed

lemma mset_concat_eq: "mset a = mset b \<Longrightarrow> mset (concat a) = mset (concat b)"
  by (simp add: mset_concat sum_mset_sum_list [symmetric] mset_map [symmetric] del: mset_map) (simp add: mset_map)

definition queued_history :: "(nat \<times> CdrRecord list) list \<Rightarrow> history" where
  "queued_history cs = map (\<lambda>(i, b). ([], b)) cs"

context reliable_redis
begin

lemma calls_land:
  assumes "list_all is_write c0"
  shows "sink_calls (thread_sink E) cs (run, new_server c0 w) = (run', sh) \<Longrightarrow>
     (\<forall>j. quiet (sh_thread sh j)) \<and> sh_log sh = c0 @ history_cmds (queued_history cs) \<and> list_all is_write (sh_log sh)
     \<and> run' = foldl (\<lambda>run b. merge (totals_add_batch b zero_totals) run) run (map snd cs)"
proof (induction cs arbitrary: run' sh rule: rev_induct)
  case Nil
  then show ?case using assms new_server_rel [OF assms, of run w] by (auto simp: shared_rel_def queued_history_def)
next
  case (snoc c cs)
  obtain i b where c: "c = (i, b)" by (cases c)
  obtain run1 sh1 where 1: "sink_calls (thread_sink E) cs (run, new_server c0 w) = (run1, sh1)"
    by (cases "sink_calls (thread_sink E) cs (run, new_server c0 w)")
  have q: "\<And>j. quiet (sh_thread sh1 j)" and w: "list_all is_write (sh_log sh1)"
    and l: "sh_log sh1 = c0 @ history_cmds (queued_history cs)"
    and r: "run1 = foldl (\<lambda>run b. merge (totals_add_batch b zero_totals) run) run (map snd cs)"
    using snoc.IH [OF 1] by blast+
  have "sk_consume (thread_sink E i) b [] (run1, sh1) = (run', sh)" using snoc.prems by (simp add: c 1)
  from thread_consume [OF q w this] show ?case by (simp add: c l r queued_history_def history_cmds_def)
qed

end

section \<open>They all come to an end\<close>

text \<open>What a thread can still do: its looks at the stop flag, and the steps between two of them.\<close>

fun phase_left :: "phase \<Rightarrow> nat" where
  "phase_left Gone = 0"
| "phase_left Outside = 1"
| "phase_left (Reading src) = 2"
| "phase_left (Acking src) = 3"
| "phase_left (Holding src b) = 4"

definition member_left :: "Member \<Rightarrow> nat" where
  "member_left m = 4 * length (w_stops (mb_world m)) + phase_left (mb_phase m)"

lemma stop_set_dec: "stop_set w = (b, w') \<Longrightarrow> length (w_stops w') \<le> length (w_stops w) \<and> (b \<or> length (w_stops w') < length (w_stops w))"
  by (auto simp: stop_set_def split: list.splits)

lemma leave_world [simp]: "mb_world (leave src m) = mb_world m"
  by (simp add: leave_def)

lemma member_step_less:
  assumes "mb_phase m \<noteq> Gone" "member_step sk parser (m, x) = (m', x')"
  shows "member_left m' < member_left m"
proof -
  obtain b w1 where 1: "stop_set (mb_world m) = (b, w1)" by (cases "stop_set (mb_world m)")
  note d = stop_set_dec [OF 1]
  show ?thesis
  proof (cases "mb_phase m")
    case Outside
    obtain t w2 where 2: "next_open w1 = (t, w2)" by (cases "next_open w1")
    obtain g c where 3: "rabbit_open t (mb_conn m) = (g, c)" by (cases "rabbit_open t (mb_conn m)")
    have s: "length (w_stops (snd (rabbit_backoff k w2))) \<le> length (w_stops w1)" for k
      using rabbit_backoff_stops [of k w2] next_open_stops [OF 2] by simp
    have "m' = outside_step m" using assms(2) Outside by (simp add: member_step_def)
    then show ?thesis using d Outside next_open_stops [OF 2] s
      by (cases b; cases g) (auto simp: outside_step_def 1 2 3 member_left_def Let_def intro: le_less_trans)
  next
    case (Reading src)
    obtain st batch src' msgs w2 where 2: "rabbit_next parser (mb_conn m) src w1 = (st, batch, src', msgs, w2)"
      using prod_cases5 by blast
    have "m' = reading_step parser src m" using assms(2) Reading by (simp add: member_step_def)
    then show ?thesis using d Reading rabbit_next_stops [OF 2]
      by (cases b) (auto simp: reading_step_def 1 2 member_left_def Let_def)
  next
    case (Holding src b)
    then show ?thesis using assms(2) by (auto simp: member_step_def member_left_def)
  next
    case (Acking src)
    obtain a w2 where 2: "rabbit_ack (mb_conn m) (r_last_tag src) True (mb_world m) = (a, w2)"
      by (cases "rabbit_ack (mb_conn m) (r_last_tag src) True (mb_world m)")
    have "m' = acking_step src m" using assms(2) Acking by (simp add: member_step_def)
    then show ?thesis using Acking rabbit_ack_stops [OF 2] by (auto simp: acking_step_def 2 member_left_def Let_def)
  qed (use assms(1) in simp)
qed

definition crew_left :: "nat \<Rightarrow> 'x Crew \<Rightarrow> nat" where
  "crew_left n s = (\<Sum>i<n. member_left (cr_of s i))"

lemma crew_step_less: "crew_step n sk parser s s' \<Longrightarrow> crew_left n s' < crew_left n s"
proof (induction rule: crew_step.induct)
  case (acts i s m x)
  note less = member_step_less [OF acts(2,3)]
  show ?case unfolding crew_left_def
    by (rule sum_strict_mono_ex1) (use less acts(1) in \<open>auto intro: less_imp_le\<close>)
qed

lemma crew_ends: "\<exists>s'. (crew_step n sk parser)\<^sup>*\<^sup>* s s' \<and> (\<forall>i < n. mb_phase (cr_of s' i) = Gone)"
proof (induction "crew_left n s" arbitrary: s rule: less_induct)
  case less
  show ?case
  proof (cases "\<forall>i < n. mb_phase (cr_of s i) = Gone")
    case False
    then obtain i where i: "i < n" "mb_phase (cr_of s i) \<noteq> Gone" by blast
    obtain m x where m: "member_step (sk i) parser (cr_of s i, cr_sink s) = (m, x)"
      by (cases "member_step (sk i) parser (cr_of s i, cr_sink s)")
    note step = acts [where sk = sk, OF i m]
    from less [OF crew_step_less [OF step]] show ?thesis
      using converse_rtranclp_into_rtranclp [of "crew_step n sk parser", OF step] by blast
  qed blast
qed

section \<open>What the store holds\<close>

lemma crew_store:
  assumes "reliable_redis E" "list_all is_write c0"
    and "(crew_step n (thread_sink E) parser)\<^sup>*\<^sup>* (crew_start ws (run, new_server c0 w)) s"
  shows "sh_log (snd (cr_sink s)) = c0 @ history_cmds (queued_history (cr_calls s))"
    "mset (map snd (queued_history (cr_calls s))) = mset (concat (map (\<lambda>i. consumed (k_trace (mb_k (cr_of s i)))) [0..<n]))"
    "fst (cr_sink s) = merge (totals_add_batch (all_records (queued_history (cr_calls s))) zero_totals) run"
proof -
  from crew_steps_inv [OF assms(3)]
  have c: "\<And>i. consumed (k_trace (mb_k (cr_of s i))) = calls_by i (cr_calls s)"
    and x: "cr_sink s = sink_calls (thread_sink E) (cr_calls s) (run, new_server c0 w)"
    and l: "list_all (\<lambda>(i, b). i < n) (cr_calls s)"
    by (auto simp: crew_inv_def list_all_iff)
  have f: "map snd (queued_history cs) = map snd cs" for cs
    by (simp add: queued_history_def comp_def case_prod_unfold)
  obtain run' sh where s: "cr_sink s = (run', sh)" by (cases "cr_sink s")
  have "sink_calls (thread_sink E) (cr_calls s) (run, new_server c0 w) = (run', sh)" using x s by simp
  note land = reliable_redis.calls_land [OF assms(1,2) this]
  show "sh_log (snd (cr_sink s)) = c0 @ history_cmds (queued_history (cr_calls s))" using land by (simp add: s)
  show "mset (map snd (queued_history (cr_calls s))) = mset (concat (map (\<lambda>i. consumed (k_trace (mb_k (cr_of s i)))) [0..<n]))"
    using calls_partition [OF l] by (simp add: c f)
  show "fst (cr_sink s) = merge (totals_add_batch (all_records (queued_history (cr_calls s))) zero_totals) run"
    using land by (simp add: s merged_batches all_records_def f)
qed

lemma queued_progress: "progress src (c0 @ history_cmds (queued_history cs)) = progress src c0"
proof (induction cs rule: rev_induct)
  case (snoc c cs)
  then show ?case using consume_cmds_progress [of src "c0 @ history_cmds (queued_history cs)" "[]" "snd c"]
    by (simp add: queued_history_def history_cmds_def case_prod_unfold)
qed (simp add: queued_history_def)

section \<open>Properties\<close>

text \<open>
  The machine of one thread is the code's loops: left alone it comes to an end with the sink, the counters
  and the trace that the loops compute.
\<close>

theorem machine_runs_consumer:
  "\<exists>m x'. (moves sk parser)\<^sup>*\<^sup>* (new_member w, x) (m, x') \<and> mb_phase m = Gone
     \<and> with_sink x' (mb_k m) = run_consumer sk parser x w"
proof -
  let ?m = "new_member w"
  obtain c' k' w' where r: "consumer_loop sk parser (mb_conn ?m, with_sink x (mb_k ?m), mb_world ?m) = (c', k', w')"
    using prod_cases3 by blast
  from loop_alone [OF this] obtain k where k: "k' = with_sink (k_sink k') k"
    "(moves sk parser)\<^sup>*\<^sup>* (?m, x) (?m\<lparr>mb_conn := c', mb_phase := Gone, mb_k := k, mb_world := w'\<rparr>, k_sink k')"
    by (auto simp: new_member_def)
  have "run_consumer sk parser x w = k'" using r by (simp add: run_consumer_def new_member_def with_sink_def)
  then show ?thesis using k
    by - (rule exI [of _ "?m\<lparr>mb_conn := c', mb_phase := Gone, mb_k := k, mb_world := w'\<rparr>"], rule exI [of _ "k_sink k'"], simp)
qed

text \<open>
  C10: While Redis is well, nothing that was acknowledged is missing from the store. In every state that any number
  of consumers reach, in any interleaving, whatever each of their connections to the broker and the stop flag
  do, over a Redis that can be reached all the time, takes every command and refuses none: the
  store holds exactly the batches the consumers have handed over, each as a whole and once; every
  acknowledgement any of them has sent covers the messages it took since it connected and no others; and
  the records of all messages the brokers may drop are among those stored. (When a write to Redis fails, the
  sink does not say so and the messages are acknowledged all the same, see \<open>AggregateSink\<close>.)
\<close>

theorem consumers_lose_nothing:
  assumes "reliable_redis E" "list_all is_write c0"
    and "(crew_step n (thread_sink E) parser)\<^sup>*\<^sup>* (crew_start ws (run, new_server c0 w)) s"
  shows "let tr = (\<lambda>i. k_trace (mb_k (cr_of s i))); bs = concat (map (\<lambda>i. consumed (tr i)) [0..<n]) in
    (\<exists>h. sh_log (snd (cr_sink s)) = c0 @ history_cmds h \<and> mset (map snd h) = mset bs)
    \<and> (\<forall>i. acks_covered parser (tr i) \<and> k_total (mb_k (cr_of s i)) = of_nat (length (concat (consumed (tr i)))))
    \<and> mset (concat (map (\<lambda>i. parsed parser (acked (tr i))) [0..<n])) \<subseteq># mset (concat bs)"
proof -
  let ?tr = "\<lambda>i. k_trace (mb_k (cr_of s i))"
  note store = crew_store [OF assms]
  have m: "member_ok parser (cr_of s i)" for i using crew_steps_inv [OF assms(3)] by (simp add: crew_inv_def)
  have a: "acks_covered parser (?tr i)" for i using m [of i] by (simp add: member_ok_def phase_ok_def)
  have t: "k_total (mb_k (cr_of s i)) = of_nat (length (concat (consumed (?tr i))))" for i
    using m [of i] by (simp add: member_ok_def)
  have "mset (concat (map (\<lambda>i. parsed parser (acked (?tr i))) [0..<k]))
      \<subseteq># mset (concat (concat (map (\<lambda>i. consumed (?tr i)) [0..<k])))" for k
    by (induction k) (auto intro: subset_mset.add_mono acked_consumed [OF a])
  then show ?thesis using a t store(1,2) by (auto simp: Let_def)
qed

text \<open>Two consumers, a broker that delivers one record and one line that is none to each, and a stop.\<close>

definition toy_read :: "string \<Rightarrow> CdrRecord option" where
  "toy_read line = (if line = ''call'' then Some (call_record 1) else None)"

definition toy_world :: "nat \<Rightarrow> World" where
  "toy_world i = \<lparr>w_opens = [good_try], w_events = [Delivered (Some ''call'') None 1, Delivered (Some ''junk'') None 2,
     Refused (LIBRARY_EXCEPTION STATUS_TIMEOUT)], w_acks = [True], w_stops = replicate 3 False\<rparr>"

definition toy_crew :: "(RunTotals \<times> unit Shared) Crew" where
  "toy_crew = crew_start toy_world (zero_run, new_server [] ())"

abbreviation toy_crew_step :: "(RunTotals \<times> unit Shared) Crew \<Rightarrow> (RunTotals \<times> unit Shared) Crew \<Rightarrow> bool" where
  "toy_crew_step \<equiv> crew_step 2 (thread_sink perfect_env) toy_read"

theorem consumers_lose_nothing_witness:
  "\<exists>s. toy_crew_step\<^sup>*\<^sup>* toy_crew s \<and> (\<forall>i < 2. mb_phase (cr_of s i) = Gone) \<and>
    (let tr = (\<lambda>i. k_trace (mb_k (cr_of s i))); bs = concat (map (\<lambda>i. consumed (tr i)) [0..<2]) in
      (\<exists>h. sh_log (snd (cr_sink s)) = [] @ history_cmds h \<and> mset (map snd h) = mset bs)
      \<and> (\<forall>i. acks_covered toy_read (tr i) \<and> k_total (mb_k (cr_of s i)) = of_nat (length (concat (consumed (tr i)))))
      \<and> mset (concat (map (\<lambda>i. parsed toy_read (acked (tr i))) [0..<2])) \<subseteq># mset (concat bs))"
proof -
  obtain s where s: "toy_crew_step\<^sup>*\<^sup>* toy_crew s" "\<forall>i < 2. mb_phase (cr_of s i) = Gone"
    using crew_ends by blast
  from consumers_lose_nothing [OF live.reliable_redis_axioms _ s(1) [unfolded toy_crew_def]] s
  show ?thesis by (intro exI [of _ s]) simp
qed

text \<open>
  What the consumers add to the counters. In every such state each counter in the store has grown by what
  one fold over the records of all batches handed over computes, the counters of the run are those of
  the same records, and the progress marks are untouched: the order of the consumers plays no part.
\<close>

theorem consumers_counters:
  assumes "reliable_redis E" "list_all is_write c0"
    and "(crew_step n (thread_sink E) parser)\<^sup>*\<^sup>* (crew_start ws (zero_run, new_server c0 w)) s"
  shows "let rs = concat (concat (map (\<lambda>i. consumed (k_trace (mb_k (cr_of s i)))) [0..<n]));
             l = sh_log (snd (cr_sink s)); d = fold_batch rs in
    list_all (\<lambda>(f, g). of_nat (hsum (sub_key m) f l) = of_nat (hsum (sub_key m) f c0) + g (sub_at d m)) sub_fields
    \<and> list_all (\<lambda>(f, g). of_nat (hsum (op_key j) f l) = of_nat (hsum (op_key j) f c0) + g (op_at d j)) op_fields
    \<and> list_all (\<lambda>(f, g). of_nat (hsum (link_key (owner k)) (dec64 (peer k) @ f) l)
          = of_nat (hsum (link_key (owner k)) (dec64 (peer k) @ f) c0) + g (link_at d k)) link_fields
    \<and> sink_snapshot (cr_sink s) = totals_add_batch rs zero_totals
    \<and> progress src l = progress src c0"
proof -
  note store = crew_store [OF assms]
  let ?rs = "concat (concat (map (\<lambda>i. consumed (k_trace (mb_k (cr_of s i)))) [0..<n]))"
  have m: "mset (all_records (queued_history (cr_calls s))) = mset ?rs"
    unfolding all_records_def by (rule mset_concat_eq) (rule store(2))
  have "sink_snapshot (cr_sink s) = totals_add_batch ?rs zero_totals"
    by (simp add: sink_snapshot_def store(3) snapshot_fresh totals_permuted [OF m])
  then show ?thesis unfolding Let_def store(1) list_all_iff
    by (auto simp: field_sums fold_permuted [OF m] queued_progress)
qed

theorem consumers_counters_witness:
  "\<exists>s. toy_crew_step\<^sup>*\<^sup>* toy_crew s \<and> (\<forall>i < 2. mb_phase (cr_of s i) = Gone) \<and>
    (let rs = concat (concat (map (\<lambda>i. consumed (k_trace (mb_k (cr_of s i)))) [0..<2])) in
      list_all (\<lambda>(f, g). of_nat (hsum (sub_key 7) f (sh_log (snd (cr_sink s)))) = g (sub_at (fold_batch rs) 7)) sub_fields
      \<and> sink_snapshot (cr_sink s) = totals_add_batch rs zero_totals)"
proof -
  obtain s where s: "toy_crew_step\<^sup>*\<^sup>* toy_crew s" "\<forall>i < 2. mb_phase (cr_of s i) = Gone"
    using crew_ends by blast
  from consumers_counters [OF live.reliable_redis_axioms _ s(1) [unfolded toy_crew_def], of 7] s
  show ?thesis by (intro exI [of _ s]) (simp add: Let_def)
qed

end
