(* ===== verification/PoolSync.thy ===== *)
theory PoolSync
  imports ThreadPool
begin

text \<open>
  The locks and condition variables of \<open>src/util/thread_pool.cpp\<close>. \<open>ThreadPool\<close> lets a wait end
  as soon as its predicate holds; here a thread whose predicate is false goes to sleep on its condition
  variable and stays there until another thread notifies it, or it wakes for no reason. One step is a
  critical section under \<open>m_mutex\<close>, one \<open>notify\<close>, or one task. The lemmas show that these steps are steps of
  \<open>ThreadPool\<close>, and that no wake-up is lost: a thread never sleeps on while it could go on and nobody
  is about to wake it.
\<close>

section \<open>The threads\<close>

text \<open>
  A worker: before it takes the lock, asleep on \<open>m_cv_empty\<close>, between the lock and \<open>m_cv_full.notify_one\<close>, in
  its task, or returned. A caller of \<open>submit\<close>, in the same places; and the destructor, between
  setting the flag, telling the workers, telling the callers, and joining.
\<close>

datatype 't sworker = W_ready | W_asleep | W_popped 't | W_running 't | W_left

datatype 't caller = C_out | C_ready 't | C_asleep 't | C_pushed

datatype stopper = S_none | S_flagged | S_told_workers | S_joining | S_joined

record 't Sync =
  sy_queue :: "'t list"
  sy_capacity :: nat
  sy_stop :: bool
  sy_workers :: "'t sworker list"
  sy_callers :: "'t caller list"
  sy_stopper :: stopper
  sy_accepted :: "'t list"
  sy_started :: "'t list"
  sy_finished :: "'t list"

definition new_sync :: "nat \<Rightarrow> nat \<Rightarrow> nat \<Rightarrow> 't Sync" where
  "new_sync workers capacity callers =
     \<lparr>sy_queue = [], sy_capacity = capacity, sy_stop = False, sy_workers = replicate workers W_ready,
      sy_callers = replicate callers C_out, sy_stopper = S_none, sy_accepted = [], sy_started = [], sy_finished = []\<rparr>"

text \<open>\<open>notify_one\<close> wakes one of the sleepers, any one, and does nothing when there is none.\<close>

definition wakes :: "('a \<Rightarrow> 'a option) \<Rightarrow> 'a list \<Rightarrow> 'a list \<Rightarrow> bool" where
  "wakes up xs ys \<longleftrightarrow>
     (\<exists>j x. j < length xs \<and> up (xs ! j) = Some x \<and> ys = xs[j := x]) \<or> (\<forall>x \<in> set xs. up x = None) \<and> ys = xs"

fun worker_up :: "'t sworker \<Rightarrow> 't sworker option" where
  "worker_up W_asleep = Some W_ready"
| "worker_up w = None"

fun caller_up :: "'t caller \<Rightarrow> 't caller option" where
  "caller_up (C_asleep t) = Some (C_ready t)"
| "caller_up c = None"

definition notify_all :: "('a \<Rightarrow> 'a option) \<Rightarrow> 'a list \<Rightarrow> 'a list" where
  "notify_all up xs = map (\<lambda>x. case up x of None \<Rightarrow> x | Some y \<Rightarrow> y) xs"

text \<open>The critical section of \<open>submit\<close>, and that of \<open>run\<close>.\<close>

definition caller_enters :: "nat \<Rightarrow> 't \<Rightarrow> 't Sync \<Rightarrow> 't Sync" where
  "caller_enters i t s =
     (if \<not> (sy_stop s \<or> length (sy_queue s) < sy_capacity s) then s\<lparr>sy_callers := (sy_callers s)[i := C_asleep t]\<rparr>
      else if sy_stop s then s\<lparr>sy_callers := (sy_callers s)[i := C_out]\<rparr>
      else s\<lparr>sy_queue := sy_queue s @ [t], sy_accepted := sy_accepted s @ [t],
             sy_callers := (sy_callers s)[i := C_pushed]\<rparr>)"

definition worker_enters :: "nat \<Rightarrow> 't Sync \<Rightarrow> 't Sync" where
  "worker_enters i s =
     (if \<not> (sy_stop s \<or> sy_queue s \<noteq> []) then s\<lparr>sy_workers := (sy_workers s)[i := W_asleep]\<rparr>
      else case sy_queue s of
        [] \<Rightarrow> s\<lparr>sy_workers := (sy_workers s)[i := W_left]\<rparr>
      | t # ts \<Rightarrow> s\<lparr>sy_queue := ts, sy_started := sy_started s @ [t], sy_workers := (sy_workers s)[i := W_popped t]\<rparr>)"

text \<open>What the threads in the pool, in \<open>submit\<close> and in the destructor do by themselves.\<close>

inductive own_step :: "'t Sync \<Rightarrow> 't Sync \<Rightarrow> bool" where
  caller_enter: "i < length (sy_callers s) \<Longrightarrow> sy_callers s ! i = C_ready t \<Longrightarrow> own_step s (caller_enters i t s)"
| caller_notify: "i < length (sy_callers s) \<Longrightarrow> sy_callers s ! i = C_pushed \<Longrightarrow> wakes worker_up (sy_workers s) ws \<Longrightarrow>
    own_step s (s\<lparr>sy_callers := (sy_callers s)[i := C_out], sy_workers := ws\<rparr>)"
| worker_enter: "i < length (sy_workers s) \<Longrightarrow> sy_workers s ! i = W_ready \<Longrightarrow> own_step s (worker_enters i s)"
| worker_notify: "i < length (sy_workers s) \<Longrightarrow> sy_workers s ! i = W_popped t \<Longrightarrow> wakes caller_up (sy_callers s) cs \<Longrightarrow>
    own_step s (s\<lparr>sy_workers := (sy_workers s)[i := W_running t], sy_callers := cs\<rparr>)"
| worker_done: "i < length (sy_workers s) \<Longrightarrow> sy_workers s ! i = W_running t \<Longrightarrow>
    own_step s (s\<lparr>sy_workers := (sy_workers s)[i := W_ready], sy_finished := sy_finished s @ [t]\<rparr>)"
| tell_workers: "sy_stopper s = S_flagged \<Longrightarrow>
    own_step s (s\<lparr>sy_stopper := S_told_workers, sy_workers := notify_all worker_up (sy_workers s)\<rparr>)"
| tell_callers: "sy_stopper s = S_told_workers \<Longrightarrow>
    own_step s (s\<lparr>sy_stopper := S_joining, sy_callers := notify_all caller_up (sy_callers s)\<rparr>)"
| joined: "sy_stopper s = S_joining \<Longrightarrow> \<forall>w \<in> set (sy_workers s). w = W_left \<Longrightarrow> own_step s (s\<lparr>sy_stopper := S_joined\<rparr>)"

text \<open>With new calls, the start of the destructor, and sleepers that wake for no reason.\<close>

inductive sync_step :: "'t Sync \<Rightarrow> 't Sync \<Rightarrow> bool" where
  own: "own_step s s' \<Longrightarrow> sync_step s s'"
| called: "i < length (sy_callers s) \<Longrightarrow> sy_callers s ! i = C_out \<Longrightarrow>
    sync_step s (s\<lparr>sy_callers := (sy_callers s)[i := C_ready t]\<rparr>)"
| destroyed: "sy_stopper s = S_none \<Longrightarrow> sync_step s (s\<lparr>sy_stopper := S_flagged, sy_stop := True\<rparr>)"
| worker_spurious: "i < length (sy_workers s) \<Longrightarrow> sy_workers s ! i = W_asleep \<Longrightarrow>
    sync_step s (s\<lparr>sy_workers := (sy_workers s)[i := W_ready]\<rparr>)"
| caller_spurious: "i < length (sy_callers s) \<Longrightarrow> sy_callers s ! i = C_asleep t \<Longrightarrow>
    sync_step s (s\<lparr>sy_callers := (sy_callers s)[i := C_ready t]\<rparr>)"

lemma own_steps: "own_step\<^sup>*\<^sup>* s s' \<Longrightarrow> sync_step\<^sup>*\<^sup>* s s'"
  by (rule rtranclp_mono [THEN predicate2D]) (auto intro: own)

section \<open>These are steps of the pool\<close>

fun worker_of :: "'t sworker \<Rightarrow> 't worker" where
  "worker_of W_ready = Idle"
| "worker_of W_asleep = Idle"
| "worker_of (W_popped t) = Running t"
| "worker_of (W_running t) = Running t"
| "worker_of W_left = Exited"

definition pool_of :: "'t Sync \<Rightarrow> 't Pool" where
  "pool_of s = \<lparr>p_queue = sy_queue s, p_capacity = sy_capacity s, p_stop = sy_stop s,
     p_workers = map worker_of (sy_workers s), p_accepted = sy_accepted s, p_started = sy_started s,
     p_finished = sy_finished s\<rparr>"

lemma worker_up_of: "worker_up w = Some v \<Longrightarrow> worker_of v = worker_of w"
  by (cases w) auto

lemma wakes_same: "wakes worker_up ws vs \<Longrightarrow> map worker_of vs = map worker_of ws"
  by (auto simp: wakes_def map_update dest!: worker_up_of) (metis list_update_id map_update)

lemma notify_all_same: "map worker_of (notify_all worker_up ws) = map worker_of ws"
  by (auto simp: notify_all_def dest: worker_up_of split: option.split)

lemma map_update_same: "i < length ws \<Longrightarrow> worker_of w = worker_of (ws ! i) \<Longrightarrow> map worker_of (ws[i := w]) = map worker_of ws"
  by (simp add: map_update) (metis list_update_id map_update)

lemma own_step_pool: "own_step s s' \<Longrightarrow> pool_of s' = pool_of s \<or> pool_step (pool_of s) (pool_of s')"
proof (induction rule: own_step.induct)
  case (caller_enter i s t)
  show ?case
  proof (cases "sy_stop s \<or> length (sy_queue s) < sy_capacity s")
    case True
    then have "submit t (pool_of s) = Some (\<not> sy_stop s, pool_of (caller_enters i t s))"
      by (simp add: submit_def pool_of_def caller_enters_def)
    then show ?thesis by (blast intro: pool_step.submitted)
  qed (simp add: caller_enters_def pool_of_def)
next
  case (caller_notify i s ws)
  then show ?case by (simp add: pool_of_def wakes_same)
next
  case (worker_enter i s)
  show ?case
  proof (cases "sy_stop s \<or> sy_queue s \<noteq> []")
    case True
    have "take_task i (pool_of s) = Some (pool_of (worker_enters i s))"
      using True by (auto simp: take_task_def pool_of_def worker_enters_def map_update split: list.split)
    moreover have "i < length (p_workers (pool_of s))" "p_workers (pool_of s) ! i = Idle"
      using worker_enter by (simp_all add: pool_of_def)
    ultimately show ?thesis by (blast intro: pool_step.taken)
  next
    case False
    then show ?thesis using worker_enter by (simp add: worker_enters_def pool_of_def map_update_same)
  qed
next
  case (worker_notify i s t cs)
  then show ?case by (simp add: pool_of_def map_update_same)
next
  case (worker_done i s t)
  then show ?case using pool_step.finished [of i "pool_of s" t] by (simp add: pool_of_def map_update)
next
  case (tell_workers s)
  then show ?case by (simp add: pool_of_def notify_all_same)
qed (simp_all add: pool_of_def)

lemma sync_step_pool: "sync_step s s' \<Longrightarrow> pool_of s' = pool_of s \<or> pool_step (pool_of s) (pool_of s')"
proof (induction rule: sync_step.induct)
  case (own s s')
  then show ?case by (rule own_step_pool)
next
  case (destroyed s)
  then show ?case using pool_step.stopped [of "pool_of s"] by (simp add: pool_of_def)
qed (simp_all add: pool_of_def map_update_same)

lemma sync_steps_pool: "sync_step\<^sup>*\<^sup>* s s' \<Longrightarrow> pool_step\<^sup>*\<^sup>* (pool_of s) (pool_of s')"
  by (induction rule: rtranclp_induct) (auto dest!: sync_step_pool intro: rtranclp.rtrancl_into_rtrancl)

section \<open>Nobody sleeps on\<close>

definition many :: "('a \<Rightarrow> bool) \<Rightarrow> 'a list \<Rightarrow> nat" where
  "many P xs = (\<Sum>x\<leftarrow>xs. if P x then 1 else 0)"

lemma many_update: "i < length xs \<Longrightarrow> many P (xs[i := x]) + (if P (xs ! i) then 1 else 0) = many P xs + (if P x then 1 else 0)"
  unfolding many_def by (rule weight_update)

lemma many_0: "many P xs = 0 \<longleftrightarrow> (\<forall>x \<in> set xs. \<not> P x)"
  by (induction xs) (simp_all add: many_def)

definition asleep :: "('a \<Rightarrow> 'a option) \<Rightarrow> 'a \<Rightarrow> bool" where
  "asleep up x \<longleftrightarrow> up x \<noteq> None"

fun c_ready :: "'t caller \<Rightarrow> bool" where "c_ready (C_ready t) = True" | "c_ready c = False"
fun w_popped :: "'t sworker \<Rightarrow> bool" where "w_popped (W_popped t) = True" | "w_popped w = False"

abbreviation workers_asleep :: "'t Sync \<Rightarrow> nat" where
  "workers_asleep s \<equiv> many (asleep worker_up) (sy_workers s)"
abbreviation workers_ready :: "'t Sync \<Rightarrow> nat" where
  "workers_ready s \<equiv> many (\<lambda>w. w = W_ready) (sy_workers s)"
abbreviation workers_popped :: "'t Sync \<Rightarrow> nat" where
  "workers_popped s \<equiv> many w_popped (sy_workers s)"
abbreviation callers_asleep :: "'t Sync \<Rightarrow> nat" where
  "callers_asleep s \<equiv> many (asleep caller_up) (sy_callers s)"
abbreviation callers_ready :: "'t Sync \<Rightarrow> nat" where
  "callers_ready s \<equiv> many c_ready (sy_callers s)"
abbreviation callers_pushed :: "'t Sync \<Rightarrow> nat" where
  "callers_pushed s \<equiv> many (\<lambda>c. c = C_pushed) (sy_callers s)"

text \<open>
  While a worker sleeps, every queued task has a worker awake for it or a notification on its way, and
  while a caller sleeps so has every free place in the queue; once the flag is set, sleepers are
  there only until the destructor tells them.
\<close>

definition sync_inv :: "'t Sync \<Rightarrow> bool" where
  "sync_inv s \<longleftrightarrow> sy_stop s = (sy_stopper s \<noteq> S_none)
     \<and> (workers_asleep s = 0 \<or>
          (if sy_stop s then sy_stopper s = S_flagged
           else length (sy_queue s) \<le> callers_pushed s + workers_ready s))
     \<and> (callers_asleep s = 0 \<or>
          (if sy_stop s then sy_stopper s = S_flagged \<or> sy_stopper s = S_told_workers
           else sy_capacity s \<le> length (sy_queue s) + workers_popped s + callers_ready s))
     \<and> sy_workers s \<noteq> [] \<and> 0 < sy_capacity s"

lemma asleep_simps [simp]:
  "asleep worker_up w \<longleftrightarrow> w = W_asleep" "asleep caller_up (C_asleep t)" "\<not> asleep caller_up C_out"
  "\<not> asleep caller_up (C_ready t)" "\<not> asleep caller_up C_pushed"
  by (cases w) (simp_all add: asleep_def)

lemma caller_up_Some: "caller_up c = Some d \<longleftrightarrow> (\<exists>t. c = C_asleep t \<and> d = C_ready t)"
  by (cases c) auto

lemma worker_up_Some: "worker_up w = Some v \<longleftrightarrow> w = W_asleep \<and> v = W_ready"
  by (cases w) auto

text \<open>What a notification moves.\<close>

lemma wakes_many:
  assumes "wakes up xs ys"
  obtains (nobody) "\<And>x. x \<in> set xs \<Longrightarrow> up x = None" "ys = xs"
    | (one) x y where "x \<in> set xs" "up x = Some y" "length ys = length xs"
        "\<And>P. many P ys + (if P x then 1 else 0) = many P xs + (if P y then 1 else 0)"
proof -
  from assms consider "\<forall>x \<in> set xs. up x = None" "ys = xs"
    | j y where "j < length xs" "up (xs ! j) = Some y" "ys = xs[j := y]"
    unfolding wakes_def by blast
  then show thesis
  proof cases
    case 1
    then show thesis using nobody by blast
  next
    case 2
    then show thesis using one [of "xs ! j" y] many_update [OF 2(1)] by simp
  qed
qed

lemma wakes_worker:
  assumes "wakes worker_up ws vs"
  shows "many w_popped vs = many w_popped ws \<and> vs \<noteq> [] = (ws \<noteq> []) \<and>
    (many (asleep worker_up) vs = 0 \<and> many (\<lambda>w. w = W_ready) vs = many (\<lambda>w. w = W_ready) ws
     \<or> many (asleep worker_up) ws \<noteq> 0 \<and> many (\<lambda>w. w = W_ready) vs = Suc (many (\<lambda>w. w = W_ready) ws))"
  using assms
proof (cases rule: wakes_many)
  case nobody
  then show ?thesis by (auto simp: many_0 asleep_def simp del: asleep_simps)
next
  case (one w v)
  then show ?thesis using one(4) [of w_popped] one(4) [of "\<lambda>w. w = W_ready"]
    by (auto simp: worker_up_Some many_0)
qed

lemma wakes_caller:
  assumes "wakes caller_up cs ds"
  shows "many (\<lambda>c. c = C_pushed) ds = many (\<lambda>c. c = C_pushed) cs \<and>
    (many (asleep caller_up) ds = 0 \<and> many c_ready ds = many c_ready cs
     \<or> many (asleep caller_up) cs \<noteq> 0 \<and> many c_ready ds = Suc (many c_ready cs))"
  using assms
proof (cases rule: wakes_many)
  case nobody
  then show ?thesis by (auto simp: many_0 asleep_def simp del: asleep_simps)
next
  case (one c d)
  then obtain t where t: "c = C_asleep t" "d = C_ready t" by (auto simp: caller_up_Some)
  have "many (asleep caller_up) cs \<noteq> 0" using one(1) by (auto simp: many_0 t intro: bexI [of _ c])
  then show ?thesis using one(4) [of "\<lambda>c. c = C_pushed"] one(4) [of c_ready] by (simp add: t)
qed

lemma told: "many (asleep worker_up) (notify_all worker_up ws) = 0" "many (asleep caller_up) (notify_all caller_up cs) = 0"
  "many w_popped (notify_all worker_up ws) = many w_popped ws"
  "many (\<lambda>c. c = C_pushed) (notify_all caller_up cs) = many (\<lambda>c. c = C_pushed) cs"
proof -
  show "many (asleep worker_up) (notify_all worker_up ws) = 0"
    by (auto simp: many_0 notify_all_def asleep_def worker_up_Some split: option.split)
  show "many (asleep caller_up) (notify_all caller_up cs) = 0"
    by (auto simp: many_0 notify_all_def asleep_def caller_up_Some split: option.split)
  show "many w_popped (notify_all worker_up ws) = many w_popped ws"
    by (auto simp: many_def notify_all_def worker_up_Some comp_def split: option.split intro!: arg_cong [where f = sum_list] map_cong)
  show "many (\<lambda>c. c = C_pushed) (notify_all caller_up cs) = many (\<lambda>c. c = C_pushed) cs"
    by (auto simp: many_def notify_all_def caller_up_Some comp_def split: option.split intro!: arg_cong [where f = sum_list] map_cong)
qed

lemma caller_enters_inv:
  assumes "sync_inv s" "i < length (sy_callers s)" "sy_callers s ! i = C_ready t"
  shows "sync_inv (caller_enters i t s)"
proof -
  note m = many_update [OF assms(2), of "asleep caller_up"] many_update [OF assms(2), of c_ready]
    many_update [OF assms(2), of "\<lambda>c. c = C_pushed"]
  show ?thesis
    using assms(1) m(1) [of "C_asleep t"] m(1) [of C_out] m(1) [of C_pushed] m(2) [of "C_asleep t"] m(2) [of C_out] m(2) [of C_pushed]
      m(3) [of "C_asleep t"] m(3) [of C_out] m(3) [of C_pushed]
    unfolding sync_inv_def caller_enters_def by (auto simp: assms(3))
qed

lemma worker_enters_inv:
  assumes "sync_inv s" "i < length (sy_workers s)" "sy_workers s ! i = W_ready"
  shows "sync_inv (worker_enters i s)"
proof -
  note m = many_update [OF assms(2), of "asleep worker_up"] many_update [OF assms(2), of w_popped]
    many_update [OF assms(2), of "\<lambda>w. w = W_ready"]
  show ?thesis
    using assms(1) m(1) [of W_asleep] m(1) [of W_left] m(2) [of W_asleep] m(2) [of W_left] m(3) [of W_asleep] m(3) [of W_left]
      m(1) [of "W_popped (hd (sy_queue s))"] m(2) [of "W_popped (hd (sy_queue s))"] m(3) [of "W_popped (hd (sy_queue s))"]
    unfolding sync_inv_def worker_enters_def by (auto simp: assms(3) split: list.split)
qed

lemma own_step_inv: "own_step s s' \<Longrightarrow> sync_inv s \<Longrightarrow> sync_inv s'"
proof (induction rule: own_step.induct)
  case (caller_enter i s t)
  then show ?case by (simp add: caller_enters_inv)
next
  case (caller_notify i s ws)
  note m = many_update [OF caller_notify(1), of "asleep caller_up" C_out] many_update [OF caller_notify(1), of c_ready C_out]
    many_update [OF caller_notify(1), of "\<lambda>c. c = C_pushed" C_out]
  show ?case using caller_notify(2,4) m wakes_worker [OF caller_notify(3)] unfolding sync_inv_def by auto
next
  case (worker_enter i s)
  then show ?case by (simp add: worker_enters_inv)
next
  case (worker_notify i s t cs)
  note m = many_update [OF worker_notify(1), of "asleep worker_up" "W_running t"] many_update [OF worker_notify(1), of w_popped "W_running t"]
    many_update [OF worker_notify(1), of "\<lambda>w. w = W_ready" "W_running t"]
  show ?case using worker_notify(2,4) m wakes_caller [OF worker_notify(3)] unfolding sync_inv_def by auto
next
  case (worker_done i s t)
  note m = many_update [OF worker_done(1), of "asleep worker_up" W_ready] many_update [OF worker_done(1), of w_popped W_ready]
    many_update [OF worker_done(1), of "\<lambda>w. w = W_ready" W_ready]
  show ?case using worker_done(2,3) m unfolding sync_inv_def by auto
next
  case (tell_workers s)
  then show ?case using told(1,3) [of "sy_workers s"] unfolding sync_inv_def by (auto simp: notify_all_def)
next
  case (tell_callers s)
  then show ?case using told(2,4) [of "sy_callers s"] unfolding sync_inv_def by auto
next
  case (joined s)
  then show ?case unfolding sync_inv_def by auto
qed

lemma sync_step_inv: "sync_step s s' \<Longrightarrow> sync_inv s \<Longrightarrow> sync_inv s'"
proof (induction rule: sync_step.induct)
  case (own s s')
  then show ?case by (simp add: own_step_inv)
next
  case (called i s t)
  note m = many_update [OF called(1), of "asleep caller_up" "C_ready t"] many_update [OF called(1), of c_ready "C_ready t"]
    many_update [OF called(1), of "\<lambda>c. c = C_pushed" "C_ready t"]
  show ?case using called(2,3) m unfolding sync_inv_def by auto
next
  case (destroyed s)
  then show ?case unfolding sync_inv_def by auto
next
  case (worker_spurious i s)
  note m = many_update [OF worker_spurious(1), of "asleep worker_up" W_ready] many_update [OF worker_spurious(1), of w_popped W_ready]
    many_update [OF worker_spurious(1), of "\<lambda>w. w = W_ready" W_ready]
  show ?case using worker_spurious(2,3) m unfolding sync_inv_def by auto
next
  case (caller_spurious i s t)
  note m = many_update [OF caller_spurious(1), of "asleep caller_up" "C_ready t"] many_update [OF caller_spurious(1), of c_ready "C_ready t"]
    many_update [OF caller_spurious(1), of "\<lambda>c. c = C_pushed" "C_ready t"]
  show ?case using caller_spurious(2,3) m unfolding sync_inv_def by auto
qed

lemma many_replicate: "many P (replicate n x) = (if P x then n else 0)"
  by (induction n) (simp_all add: many_def)

lemma new_sync_inv: "0 < n \<Longrightarrow> 0 < c \<Longrightarrow> sync_inv (new_sync n c k)"
  by (simp add: sync_inv_def new_sync_def many_replicate)

lemma sync_steps_inv: "sync_step\<^sup>*\<^sup>* (new_sync n c k) s \<Longrightarrow> 0 < n \<Longrightarrow> 0 < c \<Longrightarrow> sync_inv s"
  by (induction rule: rtranclp_induct) (auto intro: new_sync_inv sync_step_inv)

section \<open>The threads come to rest\<close>

fun worker_weight :: "'t sworker \<Rightarrow> nat" where
  "worker_weight W_left = 0"
| "worker_weight W_asleep = 1"
| "worker_weight W_ready = 2"
| "worker_weight (W_running t) = 3"
| "worker_weight (W_popped t) = 5"

fun caller_weight :: "'t caller \<Rightarrow> nat" where
  "caller_weight C_out = 0"
| "caller_weight C_pushed = 2"
| "caller_weight (C_asleep t) = 6"
| "caller_weight (C_ready t) = 7"

definition stopper_weight :: "nat \<Rightarrow> nat \<Rightarrow> stopper \<Rightarrow> nat" where
  "stopper_weight workers callers st =
     (case st of S_none \<Rightarrow> 0 | S_flagged \<Rightarrow> workers + callers + 3 | S_told_workers \<Rightarrow> callers + 2 | S_joining \<Rightarrow> 1 | S_joined \<Rightarrow> 0)"

definition busy :: "'t Sync \<Rightarrow> nat" where
  "busy s = 4 * length (sy_queue s) + sum_list (map worker_weight (sy_workers s)) + sum_list (map caller_weight (sy_callers s))
     + stopper_weight (length (sy_workers s)) (length (sy_callers s)) (sy_stopper s)"

lemma wakes_weight:
  assumes "wakes up xs ys" "\<And>x y. up x = Some y \<Longrightarrow> g y \<le> Suc (g x)"
  shows "sum_list (map g ys) \<le> Suc (sum_list (map g xs)) \<and> length ys = length xs"
proof -
  from assms(1) consider "ys = xs" | j y where "j < length xs" "up (xs ! j) = Some y" "ys = xs[j := y]"
    unfolding wakes_def by blast
  then show ?thesis
  proof cases
    case 2
    then show ?thesis
      using weight_update [OF 2(1), of g y] assms(2) [OF 2(2)] by auto
  qed simp_all
qed

lemma notify_all_weight:
  "(\<And>x y. up x = Some y \<Longrightarrow> g y \<le> Suc (g x)) \<Longrightarrow>
     sum_list (map g (notify_all up xs)) \<le> sum_list (map g xs) + length xs \<and> length (notify_all up xs) = length xs"
proof (induction xs)
  case (Cons x xs)
  then show ?case by (cases "up x") (auto simp: notify_all_def intro!: add_mono dest!: Cons.prems)
qed (simp add: notify_all_def)

lemma up_weights: "worker_up w = Some v \<Longrightarrow> worker_weight v \<le> Suc (worker_weight w)"
  "caller_up c = Some d \<Longrightarrow> caller_weight d \<le> Suc (caller_weight c)"
  by (auto simp: worker_up_Some caller_up_Some)

lemma own_step_less: "own_step s s' \<Longrightarrow> busy s' < busy s"
proof (induction rule: own_step.induct)
  case (caller_enter i s t)
  note w = weight_update [OF caller_enter(1), of caller_weight]
  show ?case using w [of C_out] w [of C_pushed] w [of "C_asleep t"]
    by (simp add: busy_def caller_enters_def caller_enter(2))
next
  case (caller_notify i s ws)
  show ?case using weight_update [OF caller_notify(1), of caller_weight C_out]
      wakes_weight [OF caller_notify(3), of worker_weight, OF up_weights(1)]
    by (simp add: busy_def caller_notify(2))
next
  case (worker_enter i s)
  note w = weight_update [OF worker_enter(1), of worker_weight]
  show ?case using w [of W_asleep] w [of W_left] w [of "W_popped (hd (sy_queue s))"]
    by (auto simp: busy_def worker_enters_def worker_enter(2) split: list.split)
next
  case (worker_notify i s t cs)
  show ?case using weight_update [OF worker_notify(1), of worker_weight "W_running t"]
      wakes_weight [OF worker_notify(3), of caller_weight, OF up_weights(2)]
    by (simp add: busy_def worker_notify(2))
next
  case (worker_done i s t)
  show ?case using weight_update [OF worker_done(1), of worker_weight W_ready] by (simp add: busy_def worker_done(2))
next
  case (tell_workers s)
  then show ?case using notify_all_weight [of worker_up worker_weight "sy_workers s", OF up_weights(1)]
    by (simp add: busy_def stopper_weight_def)
next
  case (tell_callers s)
  then show ?case using notify_all_weight [of caller_up caller_weight "sy_callers s", OF up_weights(2)]
    by (simp add: busy_def stopper_weight_def)
next
  case (joined s)
  then show ?case by (simp add: busy_def stopper_weight_def)
qed

text \<open>
  At rest: every call of \<open>submit\<close> has returned and every accepted task is finished; the workers sleep, or
  have left a stopped pool whose destructor has joined them.
\<close>

definition at_rest :: "'t Sync \<Rightarrow> bool" where
  "at_rest s \<longleftrightarrow> list_all (\<lambda>c. c = C_out) (sy_callers s) \<and> sy_queue s = [] \<and> mset (sy_finished s) = mset (sy_accepted s)
     \<and> (if sy_stop s then list_all (\<lambda>w. w = W_left) (sy_workers s) \<and> sy_stopper s = S_joined
        else list_all (\<lambda>w. w = W_asleep) (sy_workers s))"

lemma wakes_possible: "\<exists>ys. wakes up xs ys"
proof (cases "\<forall>x \<in> set xs. up x = None")
  case False
  then obtain j y where "j < length xs" "up (xs ! j) = Some y" by (auto simp: in_set_conv_nth)
  then show ?thesis unfolding wakes_def by blast
qed (auto simp: wakes_def)

lemma stuck_threads:
  assumes "\<And>s'. \<not> own_step s s'"
  shows "c \<in> set (sy_callers s) \<Longrightarrow> c = C_out \<or> asleep caller_up c" "w \<in> set (sy_workers s) \<Longrightarrow> w = W_left \<or> w = W_asleep"
    "sy_stopper s = S_none \<or> sy_stopper s = S_joined \<or> sy_stopper s = S_joining \<and> \<not> (\<forall>w \<in> set (sy_workers s). w = W_left)"
proof -
  show "c = C_out \<or> asleep caller_up c" if "c \<in> set (sy_callers s)"
  proof -
    obtain i where i: "i < length (sy_callers s)" "sy_callers s ! i = c" using \<open>c \<in> set (sy_callers s)\<close> by (auto simp: in_set_conv_nth)
    obtain ws where "wakes worker_up (sy_workers s) ws" using wakes_possible by blast
    then show ?thesis using i assms caller_enter [OF i(1)] caller_notify [OF i(1)] by (cases c) auto
  qed
  show "w = W_left \<or> w = W_asleep" if "w \<in> set (sy_workers s)"
  proof -
    obtain i where i: "i < length (sy_workers s)" "sy_workers s ! i = w" using \<open>w \<in> set (sy_workers s)\<close> by (auto simp: in_set_conv_nth)
    obtain cs where "wakes caller_up (sy_callers s) cs" using wakes_possible by blast
    then show ?thesis using i assms worker_enter [OF i(1)] worker_notify [OF i(1)] worker_done [OF i(1)] by (cases w) auto
  qed
  show "sy_stopper s = S_none \<or> sy_stopper s = S_joined \<or> sy_stopper s = S_joining \<and> \<not> (\<forall>w \<in> set (sy_workers s). w = W_left)"
    using assms tell_workers [of s] tell_callers [of s] joined [of s] by (cases "sy_stopper s") auto
qed

lemma stuck_not_running: "(\<forall>w \<in> set ws. w = W_left \<or> w = W_asleep) \<Longrightarrow> running (map worker_of ws) = {#}"
  by (induction ws) auto

lemma stuck_at_rest:
  assumes "\<And>s'. \<not> own_step s s'" "sync_inv s" "pool_inv (pool_of s)"
  shows "at_rest s"
proof -
  note stuck = stuck_threads [OF assms(1)]
  have "\<not> c_ready c \<and> c \<noteq> C_pushed" if "c \<in> set (sy_callers s)" for c using stuck(1) [OF that] by (cases c) auto
  moreover have "\<not> w_popped w \<and> w \<noteq> W_ready" if "w \<in> set (sy_workers s)" for w using stuck(2) [OF that] by auto
  ultimately have none: "workers_ready s = 0" "workers_popped s = 0" "callers_ready s = 0" "callers_pushed s = 0"
    by (simp_all add: many_0)
  have p: "sy_accepted s = sy_started s @ sy_queue s" "mset (sy_started s) = mset (sy_finished s)"
    "W_left \<in> set (sy_workers s) \<Longrightarrow> sy_stop s \<and> sy_queue s = []"
    using assms(3) stuck_not_running [of "sy_workers s"] stuck(2)
    by (auto simp: pool_inv_def pool_of_def image_iff) force+
  show ?thesis
  proof (cases "sy_stop s")
    case True
    then have "workers_asleep s = 0" "callers_asleep s = 0"
      using assms(2) stuck(3) unfolding sync_inv_def by auto
    then have w: "\<forall>w \<in> set (sy_workers s). w = W_left" and c: "\<forall>c \<in> set (sy_callers s). c = C_out"
      using stuck(1,2) by (auto simp: many_0)
    then have "W_left \<in> set (sy_workers s)" using assms(2) by (metis sync_inv_def list.set_intros(1) neq_Nil_conv)
    then show ?thesis using True w c p stuck(3) assms(2) by (auto simp: at_rest_def list_all_iff sync_inv_def)
  next
    case False
    then have w: "\<forall>w \<in> set (sy_workers s). w = W_asleep" using stuck(2) p(3) by blast
    then have "workers_asleep s \<noteq> 0" using assms(2) by (auto simp: many_0 sync_inv_def neq_Nil_conv)
    then have q: "sy_queue s = []" using assms(2) False none unfolding sync_inv_def by auto
    then have "callers_asleep s = 0" using assms(2) False none unfolding sync_inv_def by auto
    then show ?thesis using False w q p stuck(1) by (auto simp: at_rest_def list_all_iff many_0)
  qed
qed

section \<open>Properties\<close>

text \<open>
  C13: No wake-up is lost. In every state that the workers, the callers of \<open>submit\<close> and the destructor reach
  in any interleaving, sleepers that wake for no reason included, their own steps come to an end whatever the
  scheduler and the choice of whom to notify do, and where none is possible nobody is stuck: every call has
  returned, every accepted task is finished, and a destructor that has started has joined all
  workers. In terms of \<open>ThreadPool\<close> all these states are reachable there, with its bound and its order.
\<close>

theorem pool_no_lost_wakeup:
  assumes "0 < n" "0 < c" "sync_step\<^sup>*\<^sup>* (new_sync n c k) s"
  shows "pool_step\<^sup>*\<^sup>* (pool_of (new_sync n c k)) (pool_of s)
    \<and> (\<forall>s'. own_step s s' \<longrightarrow> busy s' < busy s)
    \<and> ((\<forall>s'. \<not> own_step s s') \<longrightarrow> at_rest s)"
proof (intro conjI allI impI)
  show steps: "pool_step\<^sup>*\<^sup>* (pool_of (new_sync n c k)) (pool_of s)" by (rule sync_steps_pool [OF assms(3)])
  show "busy s' < busy s" if "own_step s s'" for s' using that by (rule own_step_less)
  have "pool_inv (pool_of (new_sync n c k))" by (simp add: pool_inv_def pool_of_def new_sync_def)
  from pool_steps_inv [OF steps this] show "at_rest s" if "\<forall>s'. \<not> own_step s s'"
    using stuck_at_rest [of s] sync_steps_inv [OF assms(3,1,2)] that by blast
qed

text \<open>One worker, one place, and a caller that has just queued the task 7.\<close>

definition toy_sync :: "nat Sync" where
  "toy_sync = (new_sync 1 1 1)\<lparr>sy_queue := [7], sy_accepted := [7], sy_callers := [C_pushed]\<rparr>"

text \<open>And a worker that sleeps before an empty queue.\<close>

definition resting_sync :: "nat Sync" where
  "resting_sync = (new_sync 1 1 1)\<lparr>sy_workers := [W_asleep]\<rparr>"

theorem pool_no_lost_wakeup_witness:
  "pool_step\<^sup>*\<^sup>* (pool_of (new_sync 1 1 1)) (pool_of toy_sync)
    \<and> own_step toy_sync (worker_enters 0 toy_sync) \<and> busy (worker_enters 0 toy_sync) < busy toy_sync
    \<and> at_rest resting_sync"
proof -
  let ?s = "(new_sync 1 1 1 :: nat Sync)\<lparr>sy_callers := [C_ready 7]\<rparr>"
  have 1: "sync_step (new_sync 1 1 1) ?s"
    using called [of 0 "new_sync 1 1 1 :: nat Sync" 7] by (simp add: new_sync_def)
  have "caller_enters 0 7 ?s = toy_sync" by (simp add: caller_enters_def toy_sync_def new_sync_def)
  then have 2: "sync_step ?s toy_sync"
    using own [OF caller_enter [of 0 ?s 7]] by (simp add: new_sync_def)
  from converse_rtranclp_into_rtranclp [of sync_step, OF 1 r_into_rtranclp [of sync_step, OF 2]]
  have toy: "sync_step\<^sup>*\<^sup>* (new_sync 1 1 1) toy_sync" .
  have enters: "own_step toy_sync (worker_enters 0 toy_sync)"
    by (rule worker_enter) (simp_all add: toy_sync_def new_sync_def)
  have "worker_enters 0 (new_sync 1 1 1) = resting_sync"
    by (simp add: worker_enters_def resting_sync_def new_sync_def)
  then have rest: "sync_step\<^sup>*\<^sup>* (new_sync 1 1 1) resting_sync"
    using own [OF worker_enter [of 0 "new_sync 1 1 1 :: nat Sync"]] by (simp add: new_sync_def r_into_rtranclp)
  have still: "\<not> own_step resting_sync s'" for s'
    by (auto simp: resting_sync_def new_sync_def elim!: own_step.cases)
  from pool_no_lost_wakeup [OF _ _ toy] pool_no_lost_wakeup [OF _ _ rest] enters still show ?thesis by simp
qed

end
