(* ===== verification/LinkHash.thy ===== *)
theory LinkHash
  imports Aggregator
begin

unbundle bit_operations_syntax

text \<open>
  The hash of a link, \<open>LinkHash\<close> of \<open>inc/aggregate/delta.hpp\<close>, at 64 bits. Every step of the
  finalizer \<open>mix\<close> can be undone: adding a constant, folding the high bits onto the low ones, multiplying
  by an odd number. So \<open>mix\<close> sends different numbers to different numbers, and two links with the
  same owner, or the same peer, have different hashes. A link and the same link seen from the other end
  mostly have different hashes, but not always.
\<close>

definition mix :: "u64 \<Rightarrow> u64" where
  "mix x =
     (let x = x + 0x9e3779b97f4a7c15;
          x = (x XOR drop_bit 30 x) * 0xbf58476d1ce4e5b9;
          x = (x XOR drop_bit 27 x) * 0x94d049bb133111eb
      in x XOR drop_bit 31 x)"

definition link_hash :: "LinkKey \<Rightarrow> u64" where
  "link_hash key = mix (owner key) XOR (mix (peer key) + 0x9e3779b97f4a7c15)"

text \<open>The link as its other end sees it.\<close>

definition swapped :: "LinkKey \<Rightarrow> LinkKey" where
  "swapped key = \<lparr>owner = peer key, peer = owner key\<rparr>"

section \<open>Every step of the finalizer can be undone\<close>

lemma drop_bit_fixed:
  fixes d :: "'a::len word"
  assumes "d = drop_bit k d" and "0 < k"
  shows "d = 0"
proof -
  have "unat d = unat d div 2 ^ k"
    using assms(1) by (metis drop_bit_eq_div unat_drop_bit_eq)
  moreover have "unat d div 2 ^ k < unat d" if "0 < unat d"
    using that assms(2) by (intro div_less_dividend one_less_power) auto
  ultimately show ?thesis
    by (metis less_irrefl neq0_conv unat_eq_zero)
qed

lemma xor_shift_inj:
  fixes x y :: "'a::len word"
  assumes "x XOR drop_bit k x = y XOR drop_bit k y" and "0 < k"
  shows "x = y"
proof -
  have "x XOR y = drop_bit k (x XOR y)"
    using assms(1) by (metis (no_types, lifting) drop_bit_xor xor.assoc xor.commute xor_self_eq xor.right_neutral)
  then have "x XOR y = 0" using assms(2) by (rule drop_bit_fixed)
  then show ?thesis by (metis xor.assoc xor.right_neutral xor_self_eq)
qed

lemma mult_unit_inj:
  fixes x y c i :: "'a::len word"
  assumes "x * c = y * c" and "c * i = 1"
  shows "x = y"
  using assms by (metis mult.assoc mult.right_neutral)

text \<open>The inverses of the two odd constants modulo \<open>2 ^ 64\<close>.\<close>

lemmas mix_units =
  mult_unit_inj[where c = "0xbf58476d1ce4e5b9 :: u64" and i = "0x96de1b173f119089"]
  mult_unit_inj[where c = "0x94d049bb133111eb :: u64" and i = "0x319642b2d24d8ec3"]

lemma mix_inj: "mix x = mix y \<longleftrightarrow> x = y"
proof
  assume "mix x = mix y"
  note xor_shift_inj [OF this [unfolded mix_def Let_def], simplified]
  note mix_units(2) [OF this, simplified]
  note xor_shift_inj [OF this, simplified]
  note mix_units(1) [OF this, simplified]
  note xor_shift_inj [OF this, simplified]
  then show "x = y" by simp
qed simp

lemma xor_cancel:
  fixes a b c :: "'a::len word"
  shows "a XOR b = a XOR c \<longleftrightarrow> b = c" "b XOR a = c XOR a \<longleftrightarrow> b = c"
  by (metis xor.assoc xor.left_neutral xor_self_eq) (metis xor.assoc xor.right_neutral xor_self_eq)

section \<open>Which links share a hash\<close>

text \<open>
  Two links with one end in common have the same hash only when they are the same link; the links of one
  subscriber, which one record line after the other puts into the map, never share a hash.
\<close>

theorem link_hash_one_end:
  "(link_hash (k\<lparr>peer := p\<rparr>) = link_hash (k\<lparr>peer := q\<rparr>) \<longleftrightarrow> p = q) \<and>
   (link_hash (k\<lparr>owner := p\<rparr>) = link_hash (k\<lparr>owner := q\<rparr>) \<longleftrightarrow> p = q)"
  by (simp add: link_hash_def xor_cancel mix_inj)

text \<open>
  Seen from the other end a link mostly has another hash, but not always: both ends of this link are
  numbers of fifteen digits, as the parser accepts them.
\<close>

theorem link_hash_swap_collides:
  "\<exists>k. link_hash (swapped k) = link_hash k \<and> swapped k \<noteq> k \<and>
     owner k < 10 ^ kMaxMsisdnDigits \<and> peer k < 10 ^ kMaxMsisdnDigits"
  by (rule exI[of _ "\<lparr>owner = 888572161162383, peer = 522303975979740\<rparr>"])
    (simp add: link_hash_def mix_def swapped_def kMaxMsisdnDigits_def)

end
