(* ===== verification/Handles.thy ===== *)
theory Handles
  imports Rabbit RedisStore DirWatcher
begin

text \<open>
  What the classes that own something from outside the program acquire and release: the mapping of
  \<open>src/util/mapped_file.cpp\<close>, the descriptors of \<open>src/ingest/dir_watcher.cpp\<close>, the context of
  \<open>src/store/redis_conn.cpp\<close>, and the connection and channel of \<open>src/source/rabbit_conn.cpp\<close>. Each
  constructor, operation and destructor is the sequence of calls it makes; the lemmas show that
  nothing is acquired twice, released twice, used after its release, or still held when its owner is gone.
\<close>

datatype handle = H_file | H_mapping | H_inotify | H_watch | H_event | H_context | H_connection | H_channel

datatype handle_use = Acquire handle | Release handle

text \<open>What is held after a sequence of calls, when every call was in order.\<close>

fun held :: "handle_use list \<Rightarrow> handle set \<Rightarrow> handle set option" where
  "held [] H = Some H"
| "held (Acquire h # us) H = (if h \<in> H then None else held us (insert h H))"
| "held (Release h # us) H = (if h \<in> H then held us (H - {h}) else None)"

lemma held_append [simp]: "held (us @ vs) H = (case held us H of None \<Rightarrow> None | Some G \<Rightarrow> held vs G)"
  by (induction us H rule: held.induct) auto

section \<open>The mapped file\<close>

text \<open>The constructor opens the file and closes it on every path; the mapping outlives the descriptor.\<close>

definition map_file_uses :: "syscalls \<Rightarrow> filesys \<Rightarrow> string \<Rightarrow> handle_use list" where
  "map_file_uses sys files path =
     (case files path of
        None \<Rightarrow> []
      | Some nd \<Rightarrow>
          if \<not> sys_open sys path then []
          else [Acquire H_file]
            @ (if \<not> sys_fstat sys path then []
               else case nd of
                 Regular text \<Rightarrow>
                   if text = [] then [] else if \<not> sys_mmap sys path then [] else [Acquire H_mapping]
               | _ \<Rightarrow> [])
            @ [Release H_file])"

text \<open>The destructor: \<open>m_data\<close> is null unless something was mapped.\<close>

definition unmap_uses :: "MappedFile \<Rightarrow> handle_use list" where
  "unmap_uses m = (if map_data m \<noteq> [] then [Release H_mapping] else [])"

lemma mapped_file_releases:
  "held (map_file_uses sys files path @ unmap_uses (map_file sys files path)) {} = Some {}"
  by (auto simp: map_file_uses_def unmap_uses_def map_file_def split: option.split node.split)

section \<open>The directory watcher\<close>

text \<open>The three descriptors; closing the inotify descriptor ends its watch.\<close>

record watcher_fds =
  m_fd :: bool
  m_wd :: bool
  m_event_fd :: bool

definition watcher_init :: "watch_setup \<Rightarrow> watcher_fds \<times> handle_use list" where
  "watcher_init su =
     (let fds = \<lparr>m_fd = False, m_wd = False, m_event_fd = False\<rparr> in
      if \<not> dirs_ok su then (fds, [])
      else if \<not> inotify_ok su then (fds, [])
      else if \<not> watch_ok su then (fds, [Acquire H_inotify, Release H_inotify])
      else if \<not> eventfd_ok su then (fds\<lparr>m_wd := True\<rparr>, [Acquire H_inotify, Acquire H_watch, Release H_watch, Release H_inotify])
      else (fds\<lparr>m_fd := True, m_wd := True, m_event_fd := True\<rparr>, [Acquire H_inotify, Acquire H_watch, Acquire H_event]))"

definition watcher_destroy :: "watcher_fds \<Rightarrow> handle_use list" where
  "watcher_destroy fds =
     (if m_fd fds then [Release H_watch, Release H_inotify] else [])
     @ (if m_event_fd fds then [Release H_event] else [])"

lemma watcher_releases:
  "case watcher_init su of (fds, us) \<Rightarrow> held (us @ watcher_destroy fds) {} = Some {}"
  by (auto simp: watcher_init_def watcher_destroy_def Let_def)

text \<open>The watcher is usable exactly when it has its descriptors.\<close>

lemma watcher_fds_open:
  "dw_open (fst (new_watcher su source target claimed names files)) = m_fd (fst (watcher_init su))"
proof -
  have claim: "dw_open (fst (snd (claim n x))) = dw_open (fst x)" for n x
    by (cases x) (simp add: claim_def Let_def split: prod.split)
  have entry: "dw_open (fst (sweep_entry d c n x)) = dw_open (fst x)" for d c n x
    by (cases x) (simp add: sweep_entry_def claim)
  have "dw_open (fst (foldl (\<lambda>x n. sweep_entry d c n x) x ns)) = dw_open (fst x)" for d c x and ns :: "string list"
    by (induction ns arbitrary: x) (simp_all add: entry)
  then have "dw_open (fst (sweep ns d c x)) = dw_open (fst x)" for ns d c x
    by (simp add: sweep_def split: option.split)
  then show ?thesis by (simp add: new_watcher_def watcher_init_def Let_def)
qed

section \<open>The Redis context of a thread\<close>

definition drop_uses :: "'w RS \<Rightarrow> handle_use list" where
  "drop_uses s = (case ctx s of None \<Rightarrow> [] | Some c \<Rightarrow> [Release H_context])"

text \<open>A connect that fails gives a context with an error, or none when memory is short.\<close>

definition get_uses :: "bool \<Rightarrow> 'w env \<Rightarrow> 'w RS \<Rightarrow> handle_use list" where
  "get_uses no_memory E s =
     (if (case ctx s of None \<Rightarrow> False | Some c \<Rightarrow> \<not> err c) then []
      else
        drop_uses s @
        (let (now, w) = env_now E (world s) in
         if now < next_try s then []
         else
           let (connected, w) = env_connect E w in
           if \<not> connected then (if no_memory then [] else [Acquire H_context, Release H_context])
           else [Acquire H_context]))"

definition context_held :: "'w RS \<Rightarrow> handle set" where
  "context_held s = (if ctx s = None then {} else {H_context})"

lemma context_uses:
  "held (drop_uses s) (context_held s) = Some {}"
  "held (get_uses no_memory E s) (context_held s) = Some (context_held (snd (conn_get E s)))"
  by (auto simp: drop_uses_def get_uses_def context_held_def conn_get_def conn_drop_def Let_def split: option.split prod.split)

section \<open>The connection of a consumer\<close>

definition close_uses :: "RabbitConn \<Rightarrow> handle_use list" where
  "close_uses c =
     (if \<not> m_conn c then []
      else (if m_channel_open c then [Release H_channel] else []) @ [Release H_connection])"

text \<open>\<open>open\<close>: what was open is closed first; a step that fails closes what the steps before it opened.\<close>

definition open_uses :: "open_try \<Rightarrow> RabbitConn \<Rightarrow> handle_use list" where
  "open_uses t c =
     close_uses c @
     (let fresh = \<lparr>m_conn = True, m_channel_open = False\<rparr>; with_channel = \<lparr>m_conn = True, m_channel_open = True\<rparr> in
      if \<not> url_ok t then []
      else if \<not> new_ok t then []
      else [Acquire H_connection] @
        (if \<not> socket_ok t then close_uses fresh
         else if connect_error t \<noteq> None then close_uses fresh
         else if \<not> rpc_ok (login t) then close_uses fresh
         else if \<not> rpc_ok (channel_open t) then close_uses fresh
         else [Acquire H_channel] @
           (if \<not> rpc_ok (basic_qos t) then close_uses with_channel
            else if \<not> rpc_ok (basic_consume t) then close_uses with_channel
            else [])))"

definition conn_held :: "RabbitConn \<Rightarrow> handle set" where
  "conn_held c = (if m_conn c then {H_connection} else {}) \<union> (if m_conn c \<and> m_channel_open c then {H_channel} else {})"

lemma open_uses_held:
  "held (open_uses t c) (conn_held c) = Some (conn_held (snd (rabbit_open t c)))"
  "held (close_uses c) (conn_held c) = Some {}"
proof -
  show close: "held (close_uses c) (conn_held c) = Some {}" for c
    by (auto simp: close_uses_def conn_held_def)
  have n: "m_conn (rabbit_close c) = False" by (simp add: rabbit_close_def)
  show "held (open_uses t c) (conn_held c) = Some (conn_held (snd (rabbit_open t c)))"
    unfolding open_uses_def held_append close option.case
    by (auto simp: n rabbit_open_def close_uses_def conn_held_def rabbit_close_def Let_def)
qed

text \<open>A connection from its first use to the end of its consumer, through any number of attempts.\<close>

definition conn_life :: "open_try list \<Rightarrow> handle_use list" where
  "conn_life ts =
     (let (us, c) = foldl (\<lambda>(us, c) t. (us @ open_uses t c, snd (rabbit_open t c))) ([], closed_conn) ts
      in us @ close_uses c)"

lemma conn_life_releases: "held (conn_life ts) {} = Some {}"
proof -
  have "case foldl (\<lambda>(us, c) t. (us @ open_uses t c, snd (rabbit_open t c))) ([], closed_conn) ts of
      (us, c) \<Rightarrow> held us {} = Some (conn_held c)"
  proof (induction ts rule: rev_induct)
    case Nil
    show ?case by (simp add: closed_conn_def conn_held_def)
  next
    case (snoc t ts)
    then show ?case by (auto simp: open_uses_held(1) split: prod.splits)
  qed
  then show ?thesis by (auto simp: conn_life_def open_uses_held(2) split: prod.splits)
qed

text \<open>A thread's context through any calls of \<open>get\<close> and \<open>drop\<close>, and whatever breaks in between.\<close>

datatype ctx_call = Get bool | Drop | Breaks

definition ctx_step :: "'w env \<Rightarrow> handle_use list \<times> 'w RS \<Rightarrow> ctx_call \<Rightarrow> handle_use list \<times> 'w RS" where
  "ctx_step E = (\<lambda>(us, s) call.
     case call of
       Get no_memory \<Rightarrow> (us @ get_uses no_memory E s, snd (conn_get E s))
     | Drop \<Rightarrow> (us @ drop_uses s, conn_drop s)
     | Breaks \<Rightarrow> (us, s\<lparr>ctx := map_option (\<lambda>c. c\<lparr>err := True\<rparr>) (ctx s)\<rparr>))"

definition ctx_life :: "'w env \<Rightarrow> ctx_call list \<Rightarrow> 'w RS \<Rightarrow> handle_use list" where
  "ctx_life E cs s = (let (us, s) = foldl (ctx_step E) ([], s) cs in us @ drop_uses s)"

lemma ctx_life_releases: "ctx s = None \<Longrightarrow> held (ctx_life E cs s) {} = Some {}"
proof -
  assume n: "ctx s = None"
  have "case foldl (ctx_step E) ([], s) cs of (us, t) \<Rightarrow> held us {} = Some (context_held t)"
  proof (induction cs rule: rev_induct)
    case Nil
    show ?case using n by (simp add: context_held_def)
  next
    case (snoc call cs)
    obtain us t where f: "foldl (ctx_step E) ([], s) cs = (us, t)" by fastforce
    have "context_held (conn_drop t) = {}" "context_held (t\<lparr>ctx := map_option (\<lambda>c. c\<lparr>err := True\<rparr>) (ctx t)\<rparr>) = context_held t"
      by (simp_all add: context_held_def)
    then show ?case using snoc f context_uses(1) [of t] context_uses(2) [of _ E t]
      by (cases call) (auto simp: ctx_step_def)
  qed
  then show ?thesis using context_uses(1) by (auto simp: ctx_life_def split: prod.splits)
qed

section \<open>Properties\<close>

text \<open>
  C33: Everything acquired from outside is released once. Whatever system call, login or connect fails, the
  mapped file, the watcher, a thread's Redis context through any calls and breaks, and a consumer's connection
  through any attempts acquire and release in order, and hold nothing once they are gone.
\<close>

theorem handles_released:
  "held (map_file_uses sys files path @ unmap_uses (map_file sys files path)) {} = Some {}
   \<and> (case watcher_init su of (fds, us) \<Rightarrow> held (us @ watcher_destroy fds) {} = Some {})
   \<and> held (ctx_life E cs (new_thread logs w)) {} = Some {}
   \<and> held (conn_life ts) {} = Some {}"
  by (intro conjI mapped_file_releases watcher_releases conn_life_releases ctx_life_releases) (simp add: new_thread_def)

end
