(* ===== verification/Wire.thy ===== *)
theory Wire
  imports AggregateSink "HOL-Library.Sublist"
begin

text \<open>
  What reaches the server when several threads write at once. Each thread has its own connection, and the
  commands of different connections interleave in any way; a transaction takes effect at its \<open>EXEC\<close>, all of
  it at once. The lemmas show what one call of the sink sends, command by command, and that the
  server then holds whole batches, those of each thread in its order: this is why \<open>SharedStore\<close> may take a
  call of the sink as one step.
\<close>

section \<open>What a thread sends\<close>

text \<open>Everything a thread has sent, over all its connections.\<close>

definition raw :: "'w RS \<Rightarrow> cmd list" where
  "raw s = concat (all_logs s)"

lemma raw_upd [simp]: "raw (s\<lparr>queued := q\<rparr>) = raw s" "raw (s\<lparr>open_batch := ob\<rparr>) = raw s"
  by (simp_all add: raw_def)

lemma raw_get: "conn_get E s = (h, s') \<Longrightarrow> raw s' = raw s"
  by (erule conn_get_cases) (simp_all add: raw_def all_logs_def [of s'])

lemma raw_append: "ctx s \<noteq> None \<Longrightarrow> append_cmd E c s = (True, s') \<Longrightarrow> raw s' = raw s @ [c]"
  using append_cmd_sent [of s _ E c s'] by (auto simp: raw_def all_logs_def)

lemma raw_drain: "conn_inv s \<Longrightarrow> drain E s = (g, s') \<Longrightarrow> raw s' = raw s"
  using drain_inv [of s E g s'] by (simp add: raw_def)

text \<open>A batch on the wire; one that writes nothing does not open a transaction.\<close>

definition batch_wire :: "cmd list \<Rightarrow> cmd list" where
  "batch_wire cs = (if cs = [] then [] else MULTI # cs @ [EXEC])"

context reliable_redis
begin

lemma raw_batch:
  assumes "rs_ok s" "batch_ctx E s = (h, s')"
  shows "raw s' = raw s @ (if open_batch s then [] else [MULTI])"
proof -
  have "\<not> (case ctx s of None \<Rightarrow> False | Some c \<Rightarrow> err c)"
    using assms(1) by (auto simp: rs_ok_def split: option.splits)
  note b = assms(2) [unfolded batch_ctx_def if_not_P [OF this] Let_def]
  obtain g t where t: "conn_get E s = (g, t)" by (cases "conn_get E s")
  note c = connected [OF assms(1) t]
  then have x: "ctx t \<noteq> None" by (auto simp: usable_def)
  show ?thesis
  proof (cases "open_batch t")
    case True
    then show ?thesis using b t c raw_get [OF t] by simp
  next
    case False
    obtain g' v where v: "append_cmd E MULTI t = (g', v)" by (cases "append_cmd E MULTI t")
    from append_good [OF v] v have v': "append_cmd E MULTI t = (True, v)" by simp
    show ?thesis using b t c False v' raw_append [OF x v'] raw_get [OF t] by auto
  qed
qed

lemma raw_queue:
  assumes "rs_ok s" "is_write c" "queue_cmd E c s = (g, s')"
  shows "raw s' = raw s @ (if open_batch s then [] else [MULTI]) @ [c]" "open_batch s'"
proof -
  obtain h t where t: "batch_ctx E s = (h, t)" by (cases "batch_ctx E s")
  note b = batch_good [OF assms(1) t]
  then have x: "ctx t \<noteq> None" and u: "usable (queued t) True t" by (auto simp: usable_def)
  obtain g' v where v: "append_cmd E c t = (g', v)" by (cases "append_cmd E c t")
  from append_good [OF v] v have v': "append_cmd E c t = (True, v)" by simp
  have s': "s' = v\<lparr>queued := queued v + 1\<rparr>" using assms(3) t b v' by (simp add: queue_cmd_def)
  show "raw s' = raw s @ (if open_batch s then [] else [MULTI]) @ [c]"
    using raw_append [OF x v'] raw_batch [OF assms(1) t] by (simp add: s')
  show "open_batch s'" using append_cmd_cases [OF u frame_step_write [OF assms(2)] v'] b by (simp add: s')
qed

lemma raw_write:
  assumes "rs_ok s" "write_of op = Some c"
  shows "raw (run_call (redis_vt E) op s) = raw s @ (if open_batch s then [] else [MULTI]) @ [c]"
    "open_batch (run_call (redis_vt E) op s)"
proof -
  have c: "is_write c" using assms(2) by (cases op) auto
  obtain g t where t: "queue_cmd E c s = (g, t)" by (cases "queue_cmd E c s")
  note q = queue_good [OF assms(1) c t]
  note r = raw_queue [OF assms(1) c t]
  obtain g' d where d: "drain E t = (g', d)" by (cases "drain E t")
  have "raw d = raw t" "open_batch d" using raw_drain [OF conn_inv_usable d] drain_good [OF _ _ d] q r(2) by simp_all
  then show "raw (run_call (redis_vt E) op s) = raw s @ (if open_batch s then [] else [MULTI]) @ [c]"
    "open_batch (run_call (redis_vt E) op s)"
    using assms(2) t q r d
    by (cases op; auto simp: redis_vt_def redis_increment_def redis_rank_def redis_mark_def)+
qed

lemma raw_writes:
  "rs_ok s \<Longrightarrow> list_all is_write_call xs \<Longrightarrow>
     raw (run_calls (redis_vt E) xs s)
       = raw s @ (if xs = [] \<or> open_batch s then [] else [MULTI]) @ map (the \<circ> write_of) xs
     \<and> open_batch (run_calls (redis_vt E) xs s) = (open_batch s \<or> xs \<noteq> [])
     \<and> rs_ok (run_calls (redis_vt E) xs s)"
proof (induction xs arbitrary: s)
  case (Cons op xs)
  then obtain c where c: "write_of op = Some c" by (auto simp: is_write_call_def)
  have "rs_ok (run_call (redis_vt E) op s)" using run_writes [OF Cons.prems(1), of "[op]"] Cons.prems(2) by simp
  then show ?case using Cons.IH [of "run_call (redis_vt E) op s"] Cons.prems(2) raw_write [OF Cons.prems(1) c] c by simp
qed simp

lemma raw_flush:
  assumes "rs_ok s" "redis_flush E s = (g, s')"
  shows "raw s' = raw s @ (if open_batch s then [EXEC] else [])"
  using assms(1)
proof (cases rule: rs_ok_cases)
  case fresh
  then show ?thesis using assms(2) by (auto simp: redis_flush_def drain_def)
next
  case up
  show ?thesis
  proof (cases "open_batch s")
    case False
    then show ?thesis using assms(2) raw_drain [OF conn_inv_usable [OF up(1)]] by (simp add: redis_flush_def)
  next
    case True
    then have u: "usable (queued s) True s" and x: "ctx s \<noteq> None" using up by (auto simp: usable_def)
    obtain g' v where v: "append_cmd E EXEC s = (g', v)" by (cases "append_cmd E EXEC s")
    from append_good [OF v] v have v': "append_cmd E EXEC s = (True, v)" by simp
    let ?v = "v\<lparr>open_batch := False, queued := queued v + 1\<rparr>"
    have d: "drain E ?v = (g, s')"
      using assms(2) True usable_not_broken [OF u] v' by (simp add: redis_flush_def)
    have "conn_inv ?v" using append_cmd_cases [OF u _ v', of False] by (intro conn_inv_usable) simp
    from raw_drain [OF this d] raw_append [OF x v'] True show ?thesis by simp
  qed
qed

text \<open>One call of the sink from a thread without an open transaction.\<close>

lemma raw_consume:
  assumes "rs_ok s" "\<not> open_batch s" "consume (redis_vt E) b src (run, s) = (run', s')"
  shows "raw s' = raw s @ batch_wire (consume_cmds src b)" "rs_ok s'" "\<not> open_batch s'"
proof -
  let ?t = "run_calls (redis_vt E) (consume_writes src b) s"
  obtain g f where f: "redis_flush E ?t = (g, f)" by (cases "redis_flush E ?t")
  have s': "s' = f"
    using consume_is_calls [of "redis_vt E" b src run s] assms(3) f by (simp add: consume_calls_def redis_vt_def)
  note w = raw_writes [OF assms(1) consume_writes_ok(1) [of src b]]
  have "consume_writes src b = [] \<longleftrightarrow> consume_cmds src b = []"
    using consume_writes_ok(2) [of src b] by (metis map_is_Nil_conv)
  then show "raw s' = raw s @ batch_wire (consume_cmds src b)"
    using w raw_flush [OF _ f] assms(2) consume_writes_ok(2) [of src b] by (simp add: s' batch_wire_def)
  show "rs_ok s'" "\<not> open_batch s'" using flush_good [OF _ f] w by (simp_all add: s')
qed

lemma raw_resume:
  assumes "rs_ok s" "\<not> open_batch s" "redis_resume_at E src s = (p, s')"
  shows "raw s' = raw s @ [HGET kProgressKey src]" "rs_ok s'" "\<not> open_batch s'"
proof -
  show ok: "rs_ok s'" "\<not> open_batch s'" using resume_good [OF assms(1,3)] by simp_all
  obtain f t where t: "redis_flush E s = (f, t)" by (cases "redis_flush E s")
  note fl = flush_good [OF assms(1) t] raw_flush [OF assms(1) t]
  have q0: "queued t = 0" using redis_flush_inv [OF _ t] assms(1) by (simp add: rs_ok_def)
  obtain h u where u: "conn_get E t = (h, u)" by (cases "conn_get E t")
  note c = connected [OF _ u]
  have us: "usable 0 False u" using c fl q0 by auto
  then have x: "ctx u \<noteq> None" by (auto simp: usable_def)
  obtain g v where v: "append_cmd E (HGET kProgressKey src) u = (g, v)"
    by (cases "append_cmd E (HGET kProgressKey src) u")
  from append_good [OF v] v have v': "append_cmd E (HGET kProgressKey src) u = (True, v)" by simp
  have uv: "usable (Suc 0) False v" using append_cmd_cases [OF us _ v', of False] by simp
  obtain r z where z: "get_reply E v = (r, z)" by (cases "get_reply E v")
  have a: "all_logs z = all_logs v" using get_reply_cases [OF uv z] by simp
  have "s' = z \<or> s' = conn_drop z"
    using assms(3) t u v' z c fl by (auto simp: redis_resume_at_def split: option.splits reply.splits)
  then show "raw s' = raw s @ [HGET kProgressKey src]"
    using a raw_append [OF x v'] raw_get [OF u] fl(2) assms(2) by (auto simp: raw_def)
qed

end

text \<open>Any number of calls, one after the other.\<close>

datatype sink_call = Consume string "CdrRecord list" | Resume string

definition thread_call :: "'w env \<Rightarrow> 'w RS \<Rightarrow> sink_call \<Rightarrow> 'w RS" where
  "thread_call E s call =
     (case call of
        Consume src b \<Rightarrow> snd (consume (redis_vt E) b src (zero_run, s))
      | Resume src \<Rightarrow> snd (redis_resume_at E src s))"

fun call_wire :: "sink_call \<Rightarrow> cmd list" where
  "call_wire (Consume src b) = batch_wire (consume_cmds src b)"
| "call_wire (Resume src) = [HGET kProgressKey src]"

context reliable_redis
begin

lemma thread_call_wire:
  assumes "rs_ok s" "\<not> open_batch s"
  shows "raw (thread_call E s call) = raw s @ call_wire call" "rs_ok (thread_call E s call)"
    "\<not> open_batch (thread_call E s call)"
proof -
  obtain run t where t: "case call of Consume src b \<Rightarrow> consume (redis_vt E) b src (zero_run, s) = (run, t) | Resume src \<Rightarrow> True"
    by (cases call) (auto, metis surj_pair)
  obtain p u where u: "case call of Consume src b \<Rightarrow> True | Resume src \<Rightarrow> redis_resume_at E src s = (p, u)"
    by (cases call) (auto, metis surj_pair)
  show "raw (thread_call E s call) = raw s @ call_wire call" "rs_ok (thread_call E s call)"
    "\<not> open_batch (thread_call E s call)"
    using t u raw_consume [OF assms] raw_resume [OF assms] by (cases call; simp add: thread_call_def)+
qed

lemma thread_wire:
  "rs_ok s \<Longrightarrow> \<not> open_batch s \<Longrightarrow> raw (foldl (thread_call E) s cs) = raw s @ concat (map call_wire cs)"
  by (induction cs arbitrary: s) (simp_all add: thread_call_wire)

end

section \<open>The server\<close>

text \<open>What is committed, and the open transaction of each connection.\<close>

definition wire_step :: "cmd list \<times> (nat \<Rightarrow> cmd list option) \<Rightarrow> nat \<times> cmd \<Rightarrow> cmd list \<times> (nat \<Rightarrow> cmd list option)" where
  "wire_step = (\<lambda>(d, tx) (i, c). let (d, t) = srv_step (d, tx i) c in (d, tx(i := t)))"

definition wire :: "cmd list \<Rightarrow> (nat \<times> cmd) list \<Rightarrow> cmd list" where
  "wire c0 w = fst (foldl wire_step (c0, \<lambda>_. None) w)"

text \<open>The transactions of one connection that are complete, in order; a write outside of one stands for itself.\<close>

fun txn_step :: "cmd list list \<times> cmd list option \<Rightarrow> cmd \<Rightarrow> cmd list list \<times> cmd list option" where
  "txn_step (ts, tx) MULTI = (ts, Some [])"
| "txn_step (ts, Some p) EXEC = (ts @ [p], None)"
| "txn_step (ts, None) EXEC = (ts, None)"
| "txn_step (ts, tx) (HGET k f) = (ts, tx)"
| "txn_step (ts, Some p) c = (ts, Some (p @ [c]))"
| "txn_step (ts, None) c = (ts @ [[c]], None)"

definition txns :: "cmd list \<Rightarrow> cmd list list" where
  "txns l = fst (foldl txn_step ([], None) l)"

definition sent_by :: "nat \<Rightarrow> (nat \<times> 'a) list \<Rightarrow> 'a list" where
  "sent_by i w = map snd (filter (\<lambda>(j, c). j = i) w)"

lemma sent_by_simps [simp]:
  "sent_by i [] = []" "sent_by i (w @ [(j, c)]) = sent_by i w @ (if j = i then [c] else [])"
  by (simp_all add: sent_by_def)

text \<open>However the connections interleave, the server commits the transactions of each, whole and in order.\<close>

lemma wire_step_simp: "srv_step (d, tx i) c = (d', t) \<Longrightarrow> wire_step (d, tx) (i, c) = (d', tx(i := t))"
  by (simp add: wire_step_def)

text \<open>The server's step and the reading of one connection's transactions commit the same.\<close>

lemma srv_txn_step:
  "(srv_step (d, x) c = (d, t) \<and> txn_step (ts, x) c = (ts, t)) \<or> (srv_step (d, x) c = (d @ p, t) \<and> txn_step (ts, x) c = (ts @ [p], t))"
  if "(t, p) = (snd (srv_step (d, x) c), (case x of None \<Rightarrow> [c] | Some p \<Rightarrow> p))"
  using that by (cases c; cases x) simp_all

lemma wire_serialises:
  "\<exists>order. fst (foldl wire_step (c0, \<lambda>_. None) w) = c0 @ concat (map snd order)
     \<and> (\<forall>i. foldl txn_step ([], None) (sent_by i w) = (sent_by i order, snd (foldl wire_step (c0, \<lambda>_. None) w) i))"
proof (induction w rule: rev_induct)
  case Nil
  show ?case by (rule exI [of _ "[]"]) simp
next
  case (snoc x w)
  obtain i c where x: "x = (i, c)" by (cases x)
  obtain d tx where d: "foldl wire_step (c0, \<lambda>_. None) w = (d, tx)" by (cases "foldl wire_step (c0, \<lambda>_. None) w")
  from snoc.IH obtain order where o: "d = c0 @ concat (map snd order)"
    "\<And>j. foldl txn_step ([], None) (sent_by j w) = (sent_by j order, tx j)" by (auto simp: d)
  obtain t p where tp: "(t, p) = (snd (srv_step (d, tx i) c), (case tx i of None \<Rightarrow> [c] | Some p \<Rightarrow> p))" by simp
  from srv_txn_step [OF tp, of "sent_by i order"] show ?case
  proof (elim disjE conjE)
    assume "srv_step (d, tx i) c = (d, t)" "txn_step (sent_by i order, tx i) c = (sent_by i order, t)"
    then show ?case by - (rule exI [of _ order], simp add: x d o wire_step_simp)
  next
    assume "srv_step (d, tx i) c = (d @ p, t)" "txn_step (sent_by i order, tx i) c = (sent_by i order @ [p], t)"
    then show ?case by - (rule exI [of _ "order @ [(i, p)]"], simp add: x d o wire_step_simp)
  qed
qed


section \<open>The batches the server holds\<close>

lemma txn_step_grows: "prefix (fst st) (fst (foldl txn_step st l))"
proof (induction l rule: rev_induct)
  case (snoc c l)
  obtain ts x where t: "foldl txn_step st l = (ts, x)" by (cases "foldl txn_step st l")
  have "prefix ts (fst (txn_step (ts, x) c))" by (cases c; cases x) simp_all
  then show ?case using snoc by (auto simp: t)
qed simp

lemma txn_writes: "list_all is_write l \<Longrightarrow> foldl txn_step (ts, Some p) l = (ts, Some (p @ l))"
proof (induction l arbitrary: p)
  case (Cons c l)
  then show ?case by (cases c) simp_all
qed simp

fun stored_calls :: "sink_call list \<Rightarrow> history" where
  "stored_calls [] = []"
| "stored_calls (Consume src b # cs) = (if consume_cmds src b = [] then [] else [(src, b)]) @ stored_calls cs"
| "stored_calls (Resume src # cs) = stored_calls cs"

lemma call_txns:
  "foldl txn_step (ts, None) (concat (map call_wire cs)) = (ts @ map (\<lambda>(src, b). consume_cmds src b) (stored_calls cs), None)"
proof (induction cs arbitrary: ts rule: stored_calls.induct)
  case (2 src b cs)
  have "list_all is_write (consume_cmds src b)"
    by (auto simp: consume_cmds_def incr_cmds_def rank_cmds_def mark_cmds_def list_all_iff)
  then show ?case using 2 by (simp add: batch_wire_def txn_writes)
qed simp_all

lemma sent_by_cons [simp]: "sent_by i ((j, c) # w) = (if j = i then [c] else []) @ sent_by i w"
  by (simp add: sent_by_def)

text \<open>An interleaving of images is the image of an interleaving.\<close>

lemma sent_by_image:
  "(\<And>i. sent_by i ps = map f (g i)) \<Longrightarrow> \<exists>h. map (\<lambda>(i, e). (i, f e)) h = ps \<and> (\<forall>i. sent_by i h = g i)"
proof (induction ps arbitrary: g)
  case Nil
  then have "g i = []" for i by (metis map_is_Nil_conv sent_by_simps(1))
  then show ?case by simp
next
  case (Cons x ps)
  obtain j p where x: "x = (j, p)" by (cases x)
  from Cons.prems [of j] obtain e es where e: "g j = e # es" "p = f e" "sent_by j ps = map f es"
    by (auto simp: x Cons_eq_map_conv)
  have "sent_by i ps = map f ((g(j := es)) i)" for i using Cons.prems [of i] e by (auto simp: x)
  from Cons.IH [OF this] obtain h where h: "map (\<lambda>(i, e). (i, f e)) h = ps" "\<And>i. sent_by i h = (g(j := es)) i" by blast
  show ?case by (rule exI [of _ "(j, e) # h"]) (use h e in \<open>auto simp: x\<close>)
qed

lemma prefix_image: "prefix ts (map f xs) \<Longrightarrow> \<exists>ys. ts = map f ys \<and> prefix ys xs"
  by (auto simp: prefix_def map_eq_append_conv)

text \<open>
  C35: While Redis is well, however the commands of the threads interleave on the wire, what the server has
  committed at any moment is a sequence of whole calls of \<open>consume\<close>: of each thread a prefix of its calls, in
  their order, and all of them once all it sent has arrived. Well means that every connection is made, every
  command is taken and none is refused; over a connection that breaks, a part of a call can be committed
  (see \<open>AggregateSink\<close>).
\<close>

theorem wire_is_history:
  assumes "reliable_redis E"
    and "\<And>i. prefix (sent_by i w) (raw (foldl (thread_call E) (new_thread [] (w0 i)) (cs i)))"
  shows "\<exists>h. wire c0 w = c0 @ history_cmds (map snd h) \<and> (\<forall>i. prefix (sent_by i h) (stored_calls (cs i))
     \<and> (sent_by i w = raw (foldl (thread_call E) (new_thread [] (w0 i)) (cs i)) \<longrightarrow> sent_by i h = stored_calls (cs i)))"
proof -
  let ?f = "\<lambda>(src, b). consume_cmds src b"
  from wire_serialises [of c0 w] obtain ps where ps: "wire c0 w = c0 @ concat (map snd ps)"
    "\<And>i. fst (foldl txn_step ([], None) (sent_by i w)) = sent_by i ps" by (auto simp: wire_def)
  have all: "raw (foldl (thread_call E) (new_thread [] (w0 i)) (cs i)) = concat (map call_wire (cs i))" for i
    using reliable_redis.thread_wire [OF assms(1), of "new_thread [] (w0 i)" "cs i"] new_thread_inv [of "[]" "w0 i"]
    by (simp add: new_thread_def rs_ok_def raw_def all_logs_def)
  have whole: "sent_by i w = concat (map call_wire (cs i)) \<Longrightarrow> sent_by i ps = map ?f (stored_calls (cs i))" for i
    using ps(2) [of i] by (simp add: call_txns)
  have part: "prefix (sent_by i ps) (map ?f (stored_calls (cs i)))" for i
  proof -
    obtain l where l: "concat (map call_wire (cs i)) = sent_by i w @ l" using assms(2) [of i] by (auto simp: all prefix_def)
    show ?thesis using txn_step_grows [of "foldl txn_step ([], None) (sent_by i w)" l] ps(2) [of i]
      by (simp flip: foldl_append l) (simp add: call_txns)
  qed
  have "\<exists>ys. sent_by i ps = map ?f ys \<and> prefix ys (stored_calls (cs i))
      \<and> (sent_by i w = concat (map call_wire (cs i)) \<longrightarrow> ys = stored_calls (cs i))" for i
    using whole [of i] prefix_image [OF part] by (cases "sent_by i w = concat (map call_wire (cs i))") auto
  then obtain g where g: "\<And>i. sent_by i ps = map ?f (g i)" "\<And>i. prefix (g i) (stored_calls (cs i))"
    "\<And>i. sent_by i w = concat (map call_wire (cs i)) \<Longrightarrow> g i = stored_calls (cs i)" by metis
  from sent_by_image [OF g(1)] obtain h where h: "map (\<lambda>(i, e). (i, ?f e)) h = ps" "\<And>i. sent_by i h = g i" by blast
  have "map snd ps = map ?f (map snd h)" by (auto simp flip: h(1))
  then have "history_cmds (map snd h) = concat (map snd ps)" by (simp add: history_cmds_def)
  then show ?thesis using ps(1) h(2) g(2,3) by (intro exI [of _ h]) (simp add: all)
qed

text \<open>Two threads whose commands alternate on the wire.\<close>

definition toy_calls :: "nat \<Rightarrow> sink_call list" where
  "toy_calls i = (if i = 0 then [Consume ''f'' [call_record 5]]
     else if i = 1 then [Resume ''g'', Consume ''g'' [call_record 6]] else [])"

definition toy_wire :: "(nat \<times> cmd) list" where
  "toy_wire = splice (map (Pair 0) (concat (map call_wire (toy_calls 0)))) (map (Pair 1) (concat (map call_wire (toy_calls 1))))"

lemma sent_by_splice:
  "i \<noteq> j \<Longrightarrow> sent_by k (splice (map (Pair i) xs) (map (Pair j) ys)) = (if k = i then xs else if k = j then ys else [])"
  by (induction xs ys arbitrary: i j rule: splice.induct) (auto simp: sent_by_def comp_def)

lemma toy_wire_sent: "sent_by i toy_wire = raw (foldl (thread_call perfect_env) (new_thread [] ()) (toy_calls i))"
proof -
  have "raw (foldl (thread_call perfect_env) (new_thread [] ()) (toy_calls i)) = concat (map call_wire (toy_calls i))"
    using live.thread_wire [of "new_thread [] ()" "toy_calls i"] new_thread_inv [of "[]" "()"]
    by (simp add: new_thread_def rs_ok_def raw_def all_logs_def)
  then show ?thesis by (simp add: toy_wire_def sent_by_splice) (simp add: toy_calls_def)
qed

theorem wire_is_history_witness:
  "\<exists>h. wire [] toy_wire = history_cmds (map snd h) \<and> sent_by 0 h = [(''f'', [call_record 5])]
     \<and> sent_by 1 h = [(''g'', [call_record 6])]"
proof -
  from wire_is_history [OF live.reliable_redis_axioms, of toy_wire "\<lambda>_. ()" toy_calls "[]"] toy_wire_sent
  obtain h where h: "wire [] toy_wire = history_cmds (map snd h)" "\<And>i. sent_by i h = stored_calls (toy_calls i)" by auto
  have "consume_cmds ''f'' [call_record 5] \<noteq> []" "consume_cmds ''g'' [call_record 6] \<noteq> []"
    by (simp_all add: consume_cmds_def mark_cmds_def Let_def highest_of_def call_record_def)
  then show ?thesis using h by (intro exI [of _ h]) (simp add: toy_calls_def)
qed

end
