(* ===== verification/LivePath.thy ===== *)
theory LivePath
  imports PathService
begin

text \<open>
  \<open>src/query/services/path_service.cpp\<close> over a store that other programs write to while the search
  reads it: \<open>qs i\<close> is the store as the read number \<open>i\<close> finds it, and the log of the reads tells how many
  there have been. The definitions are those of \<open>PathService\<close> with the log threaded through. No key is
  read twice, so a search over a moving store is one over a fixed store, \<open>frozen\<close>, which
  holds under every key what was there when the key was read. Links are only ever added, and
  the theorem says what that leaves of the promises of a search: a route that exists when the request comes is
  found, or a shorter one, and a route that is answered exists when the answer goes.
\<close>

section \<open>The search, read by read\<close>

datatype store_read = Hkeys string | Hmget string

fun live_layer :: "(nat \<Rightarrow> IQueryStore) \<Rightarrow> u64 \<Rightarrow> bool \<Rightarrow> nat \<Rightarrow> Search \<Rightarrow> store_read list \<Rightarrow>
    (Stop + Search) \<times> store_read list" where
  "live_layer qs cap side 0 st log = (Inr st, log)"
| "live_layer qs cap side (Suc width) st log =
     (case frontier st side of
        [] \<Rightarrow> (Inr st, log)
      | node # rest \<Rightarrow>
          let st = st\<lparr>frontier := (frontier st)(side := rest)\<rparr>;
              got = link_peers (qs (length log)) node;
              log = log @ [Hkeys (links_key node)]
          in (case got of
             None \<Rightarrow> (Inl Unavailable, log)
           | Some peers \<Rightarrow>
               (case expand cap side node peers st of
                  Inl stop \<Rightarrow> (Inl stop, log)
                | Inr st \<Rightarrow> live_layer qs cap side width st log)))"

fun live_search :: "(nat \<Rightarrow> IQueryStore) \<Rightarrow> u64 \<Rightarrow> nat \<Rightarrow> Search \<Rightarrow> store_read list \<Rightarrow> Stop \<times> store_read list" where
  "live_search qs cap 0 st log = (Exhausted, log)"
| "live_search qs cap (Suc hop) st log =
     (let side = narrower st; width = length (frontier st side) in
      case live_layer qs cap side width st log of
        (Inl stop, log) \<Rightarrow> (stop, log)
      | (Inr st, log) \<Rightarrow> if frontier st side = [] then (Exhausted, log) else live_search qs cap hop st log)"

fun live_hops :: "(nat \<Rightarrow> IQueryStore) \<Rightarrow> string list \<Rightarrow> store_read list \<Rightarrow> Json list option \<times> store_read list" where
  "live_hops qs (a # b # route) log =
     (let got = q_hmget (qs (length log)) (kLinkPrefix @ a) [b @ kFieldDurSuffix, b @ kFieldSmsSuffix, b @ kFieldCntSuffix];
          log = log @ [Hmget (kLinkPrefix @ a)]
      in case got of
        None \<Rightarrow> (None, log)
      | Some vs \<Rightarrow>
          let (out, log) = live_hops qs (b # route) log
          in (map_option (\<lambda>out. hop_json a b (resize 3 vs) # out) out, log))"
| "live_hops qs route log = (Some [], log)"

definition live_found :: "(nat \<Rightarrow> IQueryStore) \<Rightarrow> string list \<Rightarrow> bool \<Rightarrow> store_read list \<Rightarrow> Result \<times> store_read list" where
  "live_found qs route weights log =
     (let json = add_strings ''path'' route [] in
      if weights then
        (case live_hops qs route log of
           (None, log) \<Rightarrow> (\<lparr>status = 503, rbody = json_error ''store unavailable''\<rparr>, log)
         | (Some carried, log) \<Rightarrow> (\<lparr>status = 200, rbody = json_str (add_objects ''hops'' carried json)\<rparr>, log))
      else (\<lparr>status = 200, rbody = json_str json\<rparr>, log))"

definition live_path :: "(nat \<Rightarrow> IQueryStore) \<Rightarrow> QueryCfg \<Rightarrow> string \<Rightarrow> string \<Rightarrow> bool \<Rightarrow> Result option \<times> store_read list" where
  "live_path qs cfg first second weights =
     (if first = second then apfst Some (live_found qs [first] weights [])
      else
        case live_search qs (max_visited cfg) (unat (max_hops cfg)) (start first second) [] of
          (Unavailable, log) \<Rightarrow> (Some \<lparr>status = 503, rbody = json_error ''store unavailable''\<rparr>, log)
        | (GaveUp, log) \<Rightarrow> (Some \<lparr>status = 404, rbody = notFound cfg\<rparr>, log)
        | (Exhausted, log) \<Rightarrow> (Some \<lparr>status = 404, rbody = notFound cfg\<rparr>, log)
        | (Meet peer trails, log) \<Rightarrow>
            (case walk (trails False) (trails True) peer of
               None \<Rightarrow> (None, log)
             | Some route \<Rightarrow> apfst Some (live_found qs route weights log)))"

section \<open>A fixed store that answers the same\<close>

text \<open>A store that answers the reads from \<open>n\<close> on as they were answered.\<close>

definition agrees :: "(nat \<Rightarrow> IQueryStore) \<Rightarrow> nat \<Rightarrow> store_read list \<Rightarrow> IQueryStore \<Rightarrow> bool" where
  "agrees qs n log q \<longleftrightarrow> (\<forall>i. n \<le> i \<and> i < length log \<longrightarrow>
     (case log ! i of Hkeys k \<Rightarrow> q_hkeys q k = q_hkeys (qs i) k | Hmget k \<Rightarrow> q_hmget q k = q_hmget (qs i) k))"

lemma agrees_here:
  "agrees qs (length log) (log @ x # l) q \<Longrightarrow>
     (case x of Hkeys k \<Rightarrow> q_hkeys q k = q_hkeys (qs (length log)) k | Hmget k \<Rightarrow> q_hmget q k = q_hmget (qs (length log)) k)"
  unfolding agrees_def by (drule spec [of _ "length log"]) simp

lemma agrees_later: "agrees qs n log q \<Longrightarrow> n \<le> m \<Longrightarrow> agrees qs m log q"
  by (auto simp: agrees_def)

lemma agrees_earlier: "agrees qs n (log @ l) q \<Longrightarrow> agrees qs n log q"
  unfolding agrees_def
proof (intro allI impI)
  fix i assume a: "\<forall>i. n \<le> i \<and> i < length (log @ l) \<longrightarrow> (case (log @ l) ! i of
      Hkeys k \<Rightarrow> q_hkeys q k = q_hkeys (qs i) k | Hmget k \<Rightarrow> q_hmget q k = q_hmget (qs i) k)"
    and i: "n \<le> i \<and> i < length log"
  show "case log ! i of Hkeys k \<Rightarrow> q_hkeys q k = q_hkeys (qs i) k | Hmget k \<Rightarrow> q_hmget q k = q_hmget (qs i) k"
    using a [rule_format, of i] i by (simp add: nth_append)
qed

lemma agrees_peers: "agrees qs (length log) (log @ Hkeys (links_key v) # l) q \<Longrightarrow> link_peers q v = link_peers (qs (length log)) v"
  by (drule agrees_here) (simp add: link_peers_def)

lemma live_layer_agrees:
  "live_layer qs cap side width st log = (r, log') \<Longrightarrow>
     \<exists>l. log' = log @ l \<and> (\<forall>q. agrees qs (length log) log' q \<longrightarrow> layer q cap side width st = r)"
proof (induction width arbitrary: st log)
  case (Suc width)
  show ?case
  proof (cases "frontier st side")
    case (Cons node rest)
    let ?st = "st\<lparr>frontier := (frontier st)(side := rest)\<rparr>"
    let ?x = "Hkeys (links_key node)"
    note step = Suc.prems [unfolded live_layer.simps Cons list.case Let_def]
    show ?thesis
    proof (cases "link_peers (qs (length log)) node")
      case None
      then show ?thesis using step Cons agrees_peers [of qs log node "[]"] by (intro exI [of _ "[?x]"]) (auto simp: Let_def)
    next
      case (Some peers)
      show ?thesis
      proof (cases "expand cap side node peers ?st")
        case (Inl stop)
        then have "r = Inl stop" "log' = log @ [?x]" using step Some by simp_all
        then show ?thesis using Cons Some Inl agrees_peers [of qs log node "[]"]
          by (intro exI [of _ "[?x]"]) (simp add: Let_def)
      next
        case (Inr st1)
        have "live_layer qs cap side width st1 (log @ [?x]) = (r, log')" using step Some Inr by simp
        from Suc.IH [OF this] obtain l where l: "log' = log @ ?x # l"
          "\<And>q. agrees qs (Suc (length log)) log' q \<Longrightarrow> layer q cap side width st1 = r" by auto
        show ?thesis
        proof (intro exI conjI allI impI)
          show "log' = log @ ?x # l" by (rule l(1))
          fix q assume a: "agrees qs (length log) log' q"
          have "link_peers q node = Some peers" using agrees_peers a Some unfolding l(1) by metis
          moreover have "layer q cap side width st1 = r" by (rule l(2) [OF agrees_later [OF a]]) simp
          ultimately show "layer q cap side (Suc width) st = r" using Cons Inr by (simp add: Let_def)
        qed
      qed
    qed
  qed (use Suc.prems in simp)
qed simp

lemma live_search_agrees:
  "live_search qs cap hop st log = (r, log') \<Longrightarrow>
     \<exists>l. log' = log @ l \<and> (\<forall>q. agrees qs (length log) log' q \<longrightarrow> search q cap hop st = r)"
proof (induction hop arbitrary: st log)
  case (Suc hop)
  let ?side = "narrower st" and ?width = "length (frontier st (narrower st))"
  obtain r1 log1 where o: "live_layer qs cap ?side ?width st log = (r1, log1)"
    by (cases "live_layer qs cap ?side ?width st log")
  from live_layer_agrees [OF o] obtain l where l: "log1 = log @ l"
    "\<And>q. agrees qs (length log) log1 q \<Longrightarrow> layer q cap ?side ?width st = r1" by blast
  note step = Suc.prems [unfolded live_search.simps Let_def o prod.case]
  show ?case
  proof (cases "\<exists>st1. r1 = Inr st1 \<and> frontier st1 ?side \<noteq> []")
    case False
    then show ?thesis using step l by (intro exI [of _ l]) (auto simp: Let_def split: sum.splits)
  next
    case True
    then obtain st1 where st1: "r1 = Inr st1" "frontier st1 ?side \<noteq> []" by blast
    then have "live_search qs cap hop st1 log1 = (r, log')" using step by simp
    from Suc.IH [OF this] obtain m where m: "log' = log1 @ m"
      "\<And>q. agrees qs (length log1) log' q \<Longrightarrow> search q cap hop st1 = r" by blast
    show ?thesis
    proof (intro exI conjI allI impI)
      show "log' = log @ l @ m" using l(1) m(1) by simp
      fix q assume a: "agrees qs (length log) log' q"
      have "layer q cap ?side ?width st = Inr st1" using l(2) agrees_earlier a st1(1) unfolding m(1) by blast
      moreover have "search q cap hop st1 = r" by (rule m(2) [OF agrees_later [OF a]]) (simp add: l(1))
      ultimately show "search q cap (Suc hop) st = r" using st1(2) by (simp add: Let_def)
    qed
  qed
qed simp

lemma live_hops_agrees:
  "live_hops qs route log = (r, log') \<Longrightarrow>
     \<exists>l. log' = log @ l \<and> (\<forall>q. agrees qs (length log) log' q \<longrightarrow> hops q route = r)"
proof (induction qs route log arbitrary: r log' rule: live_hops.induct)
  case (1 qs a b route log)
  let ?x = "Hmget (kLinkPrefix @ a)"
  let ?fs = "[b @ kFieldDurSuffix, b @ kFieldSmsSuffix, b @ kFieldCntSuffix]"
  show ?case
  proof (cases "q_hmget (qs (length log)) (kLinkPrefix @ a) ?fs")
    case None
    then show ?thesis using 1 (2) agrees_here [of qs log ?x "[]"] by (intro exI [of _ "[?x]"]) (auto simp: Let_def)
  next
    case (Some vs)
    obtain out log1 where o: "live_hops qs (b # route) (log @ [?x]) = (out, log1)"
      by (cases "live_hops qs (b # route) (log @ [?x])")
    from 1 (1) [OF refl refl Some o] obtain l where l: "log1 = log @ ?x # l"
      "\<And>q. agrees qs (Suc (length log)) log1 q \<Longrightarrow> hops q (b # route) = out" by auto
    have r: "r = map_option (\<lambda>out. hop_json a b (resize 3 vs) # out) out" "log' = log1"
      using 1 (2) Some o by (simp_all add: Let_def)
    show ?thesis
    proof (intro exI conjI allI impI)
      show "log' = log @ ?x # l" using l(1) r(2) by simp
      fix q assume a: "agrees qs (length log) log' q"
      have "q_hmget q (kLinkPrefix @ a) ?fs = Some vs" using agrees_here [of qs log ?x l q] a Some r(2) l(1) by simp
      moreover have "hops q (b # route) = out" using l(2) agrees_later [OF a] r(2) by simp
      ultimately show "hops q (a # b # route) = r" using r(1) by simp
    qed
  qed
qed auto

lemma live_found_agrees:
  "live_found qs route weights log = (r, log') \<Longrightarrow>
     \<exists>l. log' = log @ l \<and> (\<forall>q. agrees qs (length log) log' q \<longrightarrow> found q route weights = r)"
  using live_hops_agrees [of qs route log]
  by (cases "live_hops qs route log") (fastforce simp: live_found_def found_def Let_def split: if_splits option.splits)

lemma live_path_agrees:
  assumes "live_path qs cfg first second weights = (r, log)" "agrees qs 0 log q"
  shows "path q cfg first second weights = r"
proof (cases "first = second")
  case True
  obtain f l where f: "live_found qs [first] weights [] = (f, l)" by (cases "live_found qs [first] weights []")
  then show ?thesis using assms True live_found_agrees [OF f] by (auto simp: live_path_def path_def)
next
  case False
  obtain s l where s: "live_search qs (max_visited cfg) (unat (max_hops cfg)) (start first second) [] = (s, l)"
    by (cases "live_search qs (max_visited cfg) (unat (max_hops cfg)) (start first second) []")
  from live_search_agrees [OF s]
  have same: "agrees qs 0 l q \<Longrightarrow> search q (max_visited cfg) (unat (max_hops cfg)) (start first second) = s" by simp
  show ?thesis
  proof (cases "\<exists>peer trails route. s = Meet peer trails \<and> walk (trails False) (trails True) peer = Some route")
    case True
    then obtain peer trails route where m: "s = Meet peer trails" "walk (trails False) (trails True) peer = Some route" by blast
    obtain f l' where f: "live_found qs route weights l = (f, l')" by (cases "live_found qs route weights l")
    then have r: "r = Some f" "log = l'" using assms(1) False s m by (simp_all add: live_path_def)
    from live_found_agrees [OF f] obtain l2 where "log = l @ l2" "agrees qs (length l) log q \<Longrightarrow> found q route weights = f"
      using r(2) by blast
    then have "agrees qs 0 l q" "found q route weights = f" using assms(2) agrees_earlier agrees_later by blast+
    then show ?thesis using same m r(1) False by (simp add: path_def)
  next
    case no: False
    then have "log = l" using assms(1) False s by (cases s) (auto simp: live_path_def)
    then show ?thesis using same assms no False s by (cases s) (auto simp: live_path_def path_def)
  qed
qed

section \<open>No key is read twice\<close>

text \<open>Who has been read is on a trail and on no frontier.\<close>

definition tidy :: "store_read list \<Rightarrow> Search \<Rightarrow> bool" where
  "tidy log st \<longleftrightarrow> apart st \<and> distinct log
     \<and> (\<forall>side. distinct (frontier st side) \<and> set (frontier st side) \<subseteq> dom (seen st side)
          \<and> (\<forall>v \<in> set (frontier st side). Hkeys (links_key v) \<notin> set log))
     \<and> (\<forall>x \<in> set log. \<exists>side. \<exists>v \<in> dom (seen st side). x = Hkeys (links_key v))"

definition only_keys :: "store_read list \<Rightarrow> bool" where
  "only_keys log \<longleftrightarrow> distinct log \<and> (\<forall>x \<in> set log. \<exists>k. x = Hkeys k)"

lemma tidy_keys: "tidy log st \<Longrightarrow> only_keys log"
  by (auto simp: tidy_def only_keys_def)

lemma links_key_inj [simp]: "links_key a = links_key b \<longleftrightarrow> a = b"
  by (simp add: links_key_def)

lemma tidy_read:
  assumes "tidy log st" "frontier st side = node # rest"
  shows "only_keys (log @ [Hkeys (links_key node)])"
proof -
  have "node \<in> set (frontier st side)" using assms(2) by simp
  then have "Hkeys (links_key node) \<notin> set log" using assms(1) unfolding tidy_def by blast
  then show ?thesis using tidy_keys [OF assms(1)] by (auto simp: only_keys_def)
qed

lemma tidy_expand:
  assumes "tidy log st" "frontier st side = node # rest"
    and "expanded cap side node peers (st\<lparr>frontier := (frontier st)(side := rest)\<rparr>) new (Inr st1)"
  shows "tidy (log @ [Hkeys (links_key node)]) st1"
proof -
  have s1: "seen st1 = (seen st)(side := with_new node new (seen st side))"
      "frontier st1 = (frontier st)(side := rest @ new)"
    and nw: "distinct new" "set new \<inter> dom (seen st side) = {}" "set new \<inter> dom (seen st (\<not> side)) = {}"
    using assms(3) by (auto simp: expanded_def)
  have T: "distinct (frontier st s)" "set (frontier st s) \<subseteq> dom (seen st s)" for s
    using assms(1) unfolding tidy_def by blast+
  have U: "Hkeys (links_key v) \<notin> set log" if "v \<in> set (frontier st s)" for s v
    using assms(1) that unfolding tidy_def by blast
  have L: "\<exists>s. v \<in> dom (seen st s)" if "Hkeys (links_key v) \<in> set log" for v
    using assms(1) that unfolding tidy_def by force
  have ap: "dom (seen st side) \<inter> dom (seen st (\<not> side)) = {}" using assms(1) apart_side unfolding tidy_def by blast
  have node: "node \<in> dom (seen st side)" using T(2) [of side] assms(2) by simp
  have fresh: "Hkeys (links_key v) \<notin> set log" if "v \<in> set new" for v
  proof
    assume "Hkeys (links_key v) \<in> set log"
    then obtain s where "v \<in> dom (seen st s)" using L by blast
    then show False using that nw(2,3) by (cases "s = side") auto
  qed
  show ?thesis
    unfolding tidy_def
  proof (intro conjI allI ballI)
    show "apart st1" unfolding apart_side [of st1 side] using s1(1) nw(3) ap by auto
    show "distinct (log @ [Hkeys (links_key node)])" using tidy_read [OF assms(1,2)] by (simp add: only_keys_def)
    show "distinct (frontier st1 s)" "set (frontier st1 s) \<subseteq> dom (seen st1 s)" for s
      using T(1,2) [of s] nw(1,2) s1 assms(2) by (cases "s = side"; auto)+
    show "Hkeys (links_key v) \<notin> set (log @ [Hkeys (links_key node)])" if v: "v \<in> set (frontier st1 s)" for s v
    proof (cases "s = side")
      case True
      then have "v \<in> set rest \<or> v \<in> set new" using v s1(2) by auto
      then show ?thesis using T(1) [of side] U [of v side] assms(2) fresh node nw(2) by auto
    next
      case False
      then have "v \<in> set (frontier st (\<not> side))" using v s1(2) by (cases side; cases s) simp_all
      then show ?thesis using T(2) [of "\<not> side"] U [of v "\<not> side"] ap node by auto
    qed
    show "\<exists>s. \<exists>v \<in> dom (seen st1 s). x = Hkeys (links_key v)" if x: "x \<in> set (log @ [Hkeys (links_key node)])" for x
    proof (cases "x \<in> set log")
      case True
      then obtain s v where "v \<in> dom (seen st s)" "x = Hkeys (links_key v)" using assms(1) unfolding tidy_def by blast
      then show ?thesis using s1(1) by (intro exI [of _ s] bexI [of _ v]) auto
    next
      case False
      then show ?thesis using x node s1(1) by (intro exI [of _ side] bexI [of _ node]) auto
    qed
  qed
qed

lemma live_layer_tidy:
  "tidy log st \<Longrightarrow> live_layer qs cap side width st log = (r, log') \<Longrightarrow>
     only_keys log' \<and> (\<forall>st'. r = Inr st' \<longrightarrow> tidy log' st')"
proof (induction width arbitrary: st log)
  case (Suc width)
  show ?case
  proof (cases "frontier st side")
    case (Cons node rest)
    let ?st = "st\<lparr>frontier := (frontier st)(side := rest)\<rparr>"
    let ?log = "log @ [Hkeys (links_key node)]"
    note step = Suc.prems(2) [unfolded live_layer.simps Cons list.case Let_def]
    show ?thesis
    proof (cases "\<exists>peers st1. link_peers (qs (length log)) node = Some peers \<and> expand cap side node peers ?st = Inr st1")
      case True
      then obtain peers st1 where x: "link_peers (qs (length log)) node = Some peers" "expand cap side node peers ?st = Inr st1"
        by blast
      obtain new where "expanded cap side node peers ?st new (Inr st1)" using expand_spec x(2) by metis
      from tidy_expand [OF Suc.prems(1) Cons this] have "tidy ?log st1" .
      then show ?thesis using Suc.IH step x by simp
    next
      case False
      then show ?thesis using step tidy_read [OF Suc.prems(1) Cons] by (auto split: option.splits sum.splits)
    qed
  qed (use Suc.prems tidy_keys in auto)
qed (auto intro: tidy_keys)

lemma live_search_tidy:
  "tidy log st \<Longrightarrow> live_search qs cap hop st log = (r, log') \<Longrightarrow> only_keys log'"
proof (induction hop arbitrary: st log)
  case (Suc hop)
  let ?side = "narrower st" and ?width = "length (frontier st (narrower st))"
  obtain r1 log1 where o: "live_layer qs cap ?side ?width st log = (r1, log1)"
    by (cases "live_layer qs cap ?side ?width st log")
  note l = live_layer_tidy [OF Suc.prems(1) o]
  show ?case using Suc.prems(2) Suc.IH l
    by (auto simp: Let_def o split: sum.splits if_splits)
qed (auto intro: tidy_keys)

lemma live_hops_distinct:
  "live_hops qs route log = (r, log') \<Longrightarrow> distinct route \<Longrightarrow> distinct log \<Longrightarrow>
     (\<And>v. v \<in> set route \<Longrightarrow> Hmget (kLinkPrefix @ v) \<notin> set log) \<Longrightarrow> distinct log'"
proof (induction qs route log arbitrary: r log' rule: live_hops.induct)
  case (1 qs a b route log)
  let ?x = "Hmget (kLinkPrefix @ a)"
  let ?fs = "[b @ kFieldDurSuffix, b @ kFieldSmsSuffix, b @ kFieldCntSuffix]"
  have d: "distinct (log @ [?x])" using 1 (4,5) by auto
  show ?case
  proof (cases "q_hmget (qs (length log)) (kLinkPrefix @ a) ?fs")
    case None
    then show ?thesis using 1 (2) d by (simp add: Let_def)
  next
    case (Some vs)
    obtain out log1 where o: "live_hops qs (b # route) (log @ [?x]) = (out, log1)"
      by (cases "live_hops qs (b # route) (log @ [?x])")
    have "distinct log1" using 1 (1) [OF refl refl Some o _ d] 1 (3,5) by auto
    then show ?thesis using 1 (2) Some o by (simp add: Let_def)
  qed
qed auto

section \<open>The whole request\<close>

text \<open>The store that holds under each key what was there when the key was read.\<close>

definition read_at :: "store_read list \<Rightarrow> store_read \<Rightarrow> nat" where
  "read_at log x = length (takeWhile (\<lambda>y. y \<noteq> x) log)"

definition frozen :: "(nat \<Rightarrow> IQueryStore) \<Rightarrow> store_read list \<Rightarrow> IQueryStore" where
  "frozen qs log = (qs 0)\<lparr>q_hkeys := (\<lambda>k. q_hkeys (qs (read_at log (Hkeys k))) k),
     q_hmget := (\<lambda>k. q_hmget (qs (read_at log (Hmget k))) k)\<rparr>"

lemma read_at_le: "read_at log x \<le> length log"
  by (simp add: read_at_def length_takeWhile_le)

lemma read_at_nth: "distinct log \<Longrightarrow> i < length log \<Longrightarrow> read_at log (log ! i) = i"
proof (induction log arbitrary: i)
  case (Cons x log)
  then show ?case by (cases i) (auto simp: read_at_def)
qed simp

lemma frozen_agrees: "distinct log \<Longrightarrow> agrees qs 0 log (frozen qs log)"
  by (auto simp: agrees_def frozen_def split: store_read.split dest: read_at_nth)

lemma start_tidy: "first \<noteq> second \<Longrightarrow> tidy [] (start first second)"
  using start_apart by (auto simp: tidy_def start_def)

lemma live_path_distinct:
  assumes "live_path qs cfg first second weights = (r, log)"
  shows "distinct log"
proof (cases "first = second")
  case True
  then show ?thesis using assms
    by (auto simp: live_path_def live_found_def Let_def apfst_def map_prod_def split: if_splits)
next
  case False
  let ?search = "\<lambda>q. search q (max_visited cfg) (unat (max_hops cfg)) (start first second)"
  obtain s l where s: "live_search qs (max_visited cfg) (unat (max_hops cfg)) (start first second) [] = (s, l)"
    by (cases "live_search qs (max_visited cfg) (unat (max_hops cfg)) (start first second) []")
  have k: "only_keys l" by (rule live_search_tidy [OF start_tidy [OF False] s])
  then have d: "distinct l" by (simp add: only_keys_def)
  then have q: "?search (frozen qs l) = s" using live_search_agrees [OF s] frozen_agrees by simp
  show ?thesis
  proof (cases "\<exists>peer trails route. s = Meet peer trails \<and> walk (trails False) (trails True) peer = Some route")
    case True
    then obtain peer trails route where m: "s = Meet peer trails" "walk (trails False) (trails True) peer = Some route" by blast
    have "distinct route" using search_start [OF False, where q = "frozen qs l" and cap = "max_visited cfg" and hop = "unat (max_hops cfg)"] q m by (fastforce simp: valid_route_def)
    moreover obtain f l' where f: "live_hops qs route l = (f, l')" by (cases "live_hops qs route l")
    ultimately have "distinct l'"
      using k by (intro live_hops_distinct [OF f]) (auto simp: only_keys_def)
    then show ?thesis using assms False s m d f
      by (auto simp: live_path_def live_found_def Let_def split: if_splits option.splits)
  next
    case no: False
    then show ?thesis using assms False s d by (cases s) (auto simp: live_path_def)
  qed
qed

text \<open>The answer over a moving store is the answer over the frozen one.\<close>

lemma live_path_frozen:
  "live_path qs cfg first second weights = (r, log) \<Longrightarrow> path (frozen qs log) cfg first second weights = r"
  by (meson live_path_agrees live_path_distinct frozen_agrees)

section \<open>Links that are only added\<close>

lemma frozen_peers: "link_peers (frozen qs log) v = link_peers (qs (read_at log (Hkeys (links_key v)))) v"
  by (simp add: link_peers_def frozen_def)

lemma frozen_linked:
  assumes "\<And>i j. i \<le> j \<Longrightarrow> linked (qs i) \<subseteq> linked (qs j)"
  shows "linked (qs 0) \<subseteq> linked (frozen qs log)" "linked (frozen qs log) \<subseteq> linked (qs (length log))"
proof -
  have f: "(a, b) \<in> linked (frozen qs log) \<longleftrightarrow> (a, b) \<in> linked (qs (read_at log (Hkeys (links_key a))))" for a b
    by (simp add: linked_def frozen_peers)
  show "linked (qs 0) \<subseteq> linked (frozen qs log)" "linked (frozen qs log) \<subseteq> linked (qs (length log))"
    using assms [of 0] assms [OF read_at_le] by (auto simp: f subset_iff)
qed

lemma far_mono: "E \<subseteq> E' \<Longrightarrow> far E' root n \<Longrightarrow> far E root n"
proof -
  assume "E \<subseteq> E'"
  then have "E ^^ n \<subseteq> E' ^^ n" for n by (induction n) auto
  then have "ball E r d \<subseteq> ball E' r d" for r d unfolding ball_def by blast
  then show "far E' root n \<Longrightarrow> far E root n" unfolding far_def by blast
qed

lemma valid_route_grows: "E \<subseteq> E' \<Longrightarrow> valid_route E a b n route \<Longrightarrow> valid_route E' a b n route"
  unfolding valid_route_def by (auto elim: successively_mono)

lemma live_path_shortest:
  assumes "live_path qs cfg first second weights = (r, log)"
    and grow: "\<And>i j. i \<le> j \<Longrightarrow> linked (qs i) \<subseteq> linked (qs j)" and "sym (linked (qs 0))"
    and "finite S" "card S \<le> unat (max_visited cfg)" "first \<in> S" "second \<in> S"
    and "\<And>i v. v \<in> S \<Longrightarrow> \<exists>ps. link_peers (qs i) v = Some ps \<and> set ps \<subseteq> S"
  shows "(\<exists>route. r = Some (found (frozen qs log) route weights)
        \<and> valid_route (linked (qs (length log))) first second (unat (max_hops cfg)) route
        \<and> (\<forall>n. (first, second) \<in> linked (qs 0) ^^ n \<longrightarrow> length route \<le> n + 1))
    \<or> r = Some \<lparr>status = 404, rbody = notFound cfg\<rparr> \<and> (\<forall>n \<le> unat (max_hops cfg). (first, second) \<notin> linked (qs 0) ^^ n)"
proof -
  let ?q = "frozen qs log" and ?h = "unat (max_hops cfg)"
  have r: "path ?q cfg first second weights = r" by (rule live_path_frozen [OF assms(1)])
  note L = frozen_linked [of qs log, OF grow]
  show ?thesis
  proof (cases "first = second")
    case True
    then have "valid_route (linked (qs (length log))) first second ?h [first]" by (simp add: valid_route_def)
    then show ?thesis using True r by (auto simp: path_def)
  next
    case False
    note s = search_start [OF False, where q = ?q and cap = "max_visited cfg" and hop = ?h]
    have "\<exists>ps. link_peers ?q v = Some ps \<and> set ps \<subseteq> S" if "v \<in> S" for v
      unfolding frozen_peers using assms(8) [OF that] .
    note c = counted_search [OF counted_start [OF False assms(6,7)] assms(4,5) this, where hop = ?h]
    have none: "(first, second) \<notin> linked (qs 0) ^^ k"
      if "far (linked ?q) (\<lambda>side. if side then second else first) n" "k \<le> n" for n k
      using far_spec [OF assms(3) far_mono [OF L(1) that(1)] that(2)] .
    show ?thesis
    proof (cases "search ?q (max_visited cfg) ?h (start first second)")
      case Exhausted
      then have "\<forall>n \<le> ?h. (first, second) \<notin> linked (qs 0) ^^ n" using s none by simp
      then show ?thesis using r False Exhausted by (auto simp: path_def)
    next
      case (Meet m tr)
      then obtain n route where n: "n \<le> ?h" "0 < n" and w: "walk (tr False) (tr True) m = Some route"
        and v: "valid_route (linked ?q) first second n route"
        and f: "far (linked ?q) (\<lambda>side. if side then second else first) (n - 1)" using s by auto
      have "length route \<le> k + 1" if "(first, second) \<in> linked (qs 0) ^^ k" for k
      proof -
        have "\<not> k \<le> n - 1" using none [OF f] that by blast
        then have "n \<le> k" using n(2) by linarith
        then show ?thesis using v unfolding valid_route_def by simp
      qed
      then show ?thesis using r False Meet w valid_route_grows [OF L(2) valid_route_mono [OF v n(1)]]
        by (intro disjI1 exI [of _ route]) (auto simp: path_def)
    qed (use c in simp_all)
  qed
qed

end
