(* ===== verification/LiveStore.thy ===== *)
theory LiveStore
  imports ReadBack LivePath
begin

text \<open>
  The gateway looks for a path while the processor writes: the store that the read number \<open>i\<close> finds
  holds the first \<open>n i\<close> calls of the sink, and \<open>n\<close> only grows. \<open>LivePath\<close> says what a search over such a
  store answers; here that is put together with what the processor wrote.
\<close>

lemma contacts_grow:
  assumes "in_range (history_cmds h)" "in_range (history_cmds h')" "h' = h @ e"
  shows "in_contact h \<subseteq> in_contact h'"
proof
  fix l assume "l \<in> in_contact h"
  then have "\<exists>(s, i) \<in> set link_fields. touched (history_cmds h) (link_key (owner l)) (dec64 (peer l) @ s)"
    using link_field_touched [OF assms(1)] by blast
  then have "\<exists>(s, i) \<in> set link_fields. touched (history_cmds h') (link_key (owner l)) (dec64 (peer l) @ s)"
    by (auto simp: assms(3) history_cmds_def touched_append)
  then show "l \<in> in_contact h'" using link_field_touched [OF assms(2)] by blast
qed

text \<open>
  C6: A path search while the processor writes, when it is not cut short. Every read is answered, from the store as
  it is at that moment with its counters below \<open>2 ^ 63\<close>, and the store only grows; and there are no more
  subscribers with contacts, the two ends counted in, than the search may visit (\<open>max_visited\<close>). Then, whatever
  is written between its reads, the answer is a route that exists when the answer goes, of at most
  \<open>max_hops\<close> hops and no longer than any that existed when the request came, with what each hop carried at
  some moment in between; or the 404, and then no route of at most \<open>max_hops\<close> hops existed when the
  request came.
\<close>

theorem paths_while_writing:
  assumes "\<And>i. stored (history_cmds (take (n i) h)) (qs i)" "mono n" "in_range (history_cmds h)"
    and "card (insert first (insert second (contact_names h))) \<le> unat (max_visited cfg)"
    and "live_path qs cfg first second weights = (r, log)"
  shows "(\<exists>route q. r = Some (found q route weights)
        \<and> valid_route (linked (qs (length log))) first second (unat (max_hops cfg)) route
        \<and> (\<forall>k. (first, second) \<in> linked (qs 0) ^^ k \<longrightarrow> length route \<le> k + 1)
        \<and> (\<forall>key. \<exists>i \<le> length log. q_hmget q key = q_hmget (qs i) key))
    \<or> r = Some \<lparr>status = 404, rbody = notFound cfg\<rparr>
        \<and> (\<forall>k \<le> unat (max_hops cfg). (first, second) \<notin> linked (qs 0) ^^ k)"
proof -
  let ?S = "insert first (insert second (contact_names h))"
  have rg: "in_range (history_cmds (take (n i) h))" for i using assms(1) by (simp add: stored_def)
  have later: "in_contact (take (n i) h) \<subseteq> in_contact h" for i
    using contacts_grow [OF rg assms(3)] by (metis append_take_drop_id)
  have grow: "linked (qs i) \<subseteq> linked (qs j)" if "i \<le> j" for i j
  proof -
    have "take (n j) h = take (n i) h @ take (n j - n i) (drop (n i) h)"
      using monoD [OF assms(2) that] by (metis le_add_diff_inverse take_add)
    from contacts_grow [OF rg rg this] show ?thesis unfolding stored_linked(2) [OF assms(1)] by blast
  qed
  have "\<exists>ps. link_peers (qs i) v = Some ps \<and> set ps \<subseteq> ?S" for i v
    using stored_peers [OF assms(1), of i v] later [of i] unfolding contact_names_def by blast
  note live = live_path_shortest [OF assms(5) grow _ _ assms(4) _ _ this]
  have "q_hmget (frozen qs log) key = q_hmget (qs (read_at log (Hmget key))) key" for key by (simp add: frozen_def)
  then have frozen: "\<forall>key. \<exists>i \<le> length log. q_hmget (frozen qs log) key = q_hmget (qs i) key" using read_at_le by blast
  have "sym (linked (qs 0))" unfolding stored_linked(2) [OF assms(1)] by (rule contacts_sym)
  from live [OF _ this] show ?thesis using frozen finite_contacts [of h] by simp blast
qed

theorem paths_while_writing_witness:
  "\<exists>route q. fst (live_path (\<lambda>i. one_call_store) \<lparr>max_hops = 6, max_visited = 100\<rparr> (dec64 7) (dec64 9) True) = Some (found q route True)
      \<and> valid_route (linked one_call_store) (dec64 7) (dec64 9) 6 route \<and> length route \<le> 2"
proof -
  let ?cfg = "\<lparr>max_hops = 6, max_visited = 100\<rparr>"
  have c: "card (insert (dec64 7) (insert (dec64 9) (contact_names one_call))) \<le> unat (max_visited ?cfg)"
    by (simp add: contact_names_def one_call_folded card_insert_if)
  have s: "stored (history_cmds (take 1 one_call)) one_call_store" using one_call_stored by (simp add: one_call_def)
  have r: "in_range (history_cmds one_call)" using one_call_stored by (simp add: stored_def)
  obtain x log where l: "live_path (\<lambda>i. one_call_store) ?cfg (dec64 7) (dec64 9) True = (x, log)"
    by (cases "live_path (\<lambda>i. one_call_store) ?cfg (dec64 7) (dec64 9) True")
  have "linked one_call_store = {(dec64 7, dec64 9), (dec64 9, dec64 7)}"
    unfolding stored_linked(2) [OF one_call_stored] by (simp add: one_call_folded)
  then have one: "(dec64 7, dec64 9) \<in> linked one_call_store ^^ 1" by simp
  then have near: "\<exists>k \<le> unat (max_hops ?cfg). (dec64 7, dec64 9) \<in> linked one_call_store ^^ k"
    by (intro exI [of _ 1]) simp
  have "mono (\<lambda>i :: nat. 1 :: nat)" by (simp add: monoI)
  from paths_while_writing [where n = "\<lambda>i. 1" and qs = "\<lambda>i. one_call_store", OF s this r c l] near
  obtain route q where "x = Some (found q route True)"
      "valid_route (linked one_call_store) (dec64 7) (dec64 9) (unat (max_hops ?cfg)) route"
      "\<forall>k. (dec64 7, dec64 9) \<in> linked one_call_store ^^ k \<longrightarrow> length route \<le> k + 1" by blast
  then show ?thesis using one l by fastforce
qed

end
