(* ===== verification/Answers.thy ===== *)
theory Answers
  imports ReadBack Gateway
begin

text \<open>
  What the gateway answers over a store that holds the counters of some history of batches, as
  a function of the records alone: the \<open>told_\<close> functions are what a client is to be told about a list of
  records, its links and peers included, and \<open>stored_answers\<close> shows that this is what the GET requests get, in whatever batches,
  from whatever sources and in whatever order the records came.
\<close>

definition told_subscriber :: "CdrRecord list \<Rightarrow> u64 \<Rightarrow> nat \<times> jval option" where
  "told_subscriber rs m =
     (let s = sub_at (fold_batch rs) m in
      if s = 0 then (404, Some (JObj [(''error'', JStr ''subscriber not found'')]))
      else (200, Some (JObj [(''msisdn'', JStr (dec64 m)),
        (''voice-out'', JNum (unat (voice_out s))), (''voice-in'', JNum (unat (voice_in s))),
        (''data-out'', JNum (unat (data_tx s))), (''data-in'', JNum (unat (data_rx s))),
        (''sms-out'', JNum (unat (sms_out s))), (''sms-in'', JNum (unat (sms_in s))),
        (''no-answer'', JNum (unat (noans s))), (''busy'', JNum (unat (busy s))), (''failed'', JNum (unat (failed s)))])))"

definition told_operator :: "CdrRecord list \<Rightarrow> u32 \<Rightarrow> nat \<times> jval option" where
  "told_operator rs j =
     (let t = op_at (fold_batch rs) j in
      if t = 0 then (404, Some (JObj [(''error'', JStr ''operator not found'')]))
      else (200, Some (JObj [(''mccmnc'', JStr (dec_of (unat j))),
        (''voice-out'', JNum (unat (op_voice_out t))), (''voice-in'', JNum (unat (op_voice_in t))),
        (''sms-out'', JNum (unat (op_sms_out t))), (''sms-in'', JNum (unat (op_sms_in t)))])))"

definition told_totals :: "CdrRecord list \<Rightarrow> nat \<times> jval option" where
  "told_totals rs =
     (200, Some (JObj (map (\<lambda>(f, v). (reported f, JNum (unat v))) (totals_fields (totals_add_batch rs zero_totals)))))"

text \<open>Status and body of the response to a GET.\<close>

definition answer :: "IQueryStore \<Rightarrow> QueryCfg \<Rightarrow> string \<Rightarrow> (string \<Rightarrow> string option) \<Rightarrow> nat \<times> jval option" where
  "answer q cfg p req = (let r = respond q cfg p req in (status r, read_json (rbody r)))"

lemma told_permuted:
  assumes "mset a = mset b"
  shows "told_subscriber a = told_subscriber b" "told_operator a = told_operator b" "told_totals a = told_totals b"
  by (simp_all add: told_subscriber_def [abs_def] told_operator_def [abs_def] told_totals_def
      fold_permuted [OF assms] totals_permuted [OF assms])

lemma answer_handled:
  assumes "args_ok h" "handle q cfg req h = Some r"
  shows "answer q cfg (path_of h) req = (status r, read_json (rbody r))"
proof -
  have "answers_ok r" using handle_ok [of q cfg req h] assms(2) by auto
  then have "respond q cfg (path_of h) req = r"
    using assms answers_body by (simp add: respond_def on_error_def route_iff [THEN iffD2])
  then show ?thesis by (simp add: answer_def)
qed

lemma subscriber_answer:
  assumes "stored (history_cmds h) q"
  shows "answer q cfg (''/query/msisdn/'' @ dec64 m) req = told_subscriber (all_records h) m"
proof -
  let ?s = "sub_at (fold_batch (all_records h)) m"
  have r: "in_range (history_cmds h)" using assms by (simp add: stored_def)
  obtain fs where fs: "q_hgetall q (sub_key m) = Some fs" "fs = [] \<longleftrightarrow> ?s = 0"
      "\<And>f g. (f, g) \<in> set sub_fields \<Longrightarrow> stored_num fs f = g ?s"
  proof (rule stored_fields [where key = "sub_key m" and fl = sub_fields and s = ?s, OF assms sub_key_dec(2)])
    show "hsum (sub_key m) f (history_cmds h) = unat (g ?s)" if "(f, g) \<in> set sub_fields" for f g by (rule history_sub [OF that r])
    show "\<exists>g. (f, g) \<in> set sub_fields" if "touched (history_cmds h) (sub_key m) f" for f by (rule touched_sub [OF that])
  qed (rule that, simp_all add: zero_fields)
  have n: "stored_num fs kFieldVoiceOut = voice_out ?s" "stored_num fs kFieldVoiceIn = voice_in ?s"
      "stored_num fs kFieldDataTx = data_tx ?s" "stored_num fs kFieldDataRx = data_rx ?s"
      "stored_num fs kFieldSmsOut = sms_out ?s" "stored_num fs kFieldSmsIn = sms_in ?s"
      "stored_num fs kFieldNoans = noans ?s" "stored_num fs kFieldBusy = busy ?s" "stored_num fs kFieldFailed = failed ?s"
    by (rule fs(3), simp add: sub_fields_def)+
  have "answer q cfg (''/query/msisdn/'' @ dec64 m) req
      = (status (query_msisdn q (dec64 m)), read_json (rbody (query_msisdn q (dec64 m))))"
    using answer_handled [of "H_msisdn (dec64 m)" q cfg req] dec64_digits by (simp add: handle_def number_def list_all_iff)
  then show ?thesis using conjunct1 [OF entities_read [of q "dec64 m"]] fs(1,2) n unfolding told_subscriber_def kSubFields_def
    by (cases fs) (simp_all add: sub_key_dec(1) Let_def kJsonVoiceOut_def kJsonVoiceIn_def kJsonDataOut_def
        kJsonDataIn_def kJsonSmsOut_def kJsonSmsIn_def kJsonNoans_def kJsonBusy_def kJsonFailed_def)
qed

lemma operator_answer:
  assumes "stored (history_cmds h) q"
  shows "answer q cfg (''/query/operator/'' @ dec_of (unat j)) req = told_operator (all_records h) j"
proof -
  let ?t = "op_at (fold_batch (all_records h)) j"
  have r: "in_range (history_cmds h)" using assms by (simp add: stored_def)
  have k: "kOpPrefix @ dec_of (unat j) = op_key j" "op_key j \<noteq> kProgressKey" by (simp_all add: op_key_def name_defs)
  obtain fs where fs: "q_hgetall q (op_key j) = Some fs" "fs = [] \<longleftrightarrow> ?t = 0"
      "\<And>f g. (f, g) \<in> set op_fields \<Longrightarrow> stored_num fs f = g ?t"
  proof (rule stored_fields [where key = "op_key j" and fl = op_fields and s = ?t, OF assms k(2)])
    show "hsum (op_key j) f (history_cmds h) = unat (g ?t)" if "(f, g) \<in> set op_fields" for f g by (rule history_op [OF that r])
    show "\<exists>g. (f, g) \<in> set op_fields" if "touched (history_cmds h) (op_key j) f" for f by (rule touched_op [OF that])
  qed (rule that, simp_all add: zero_op_fields)
  have n: "stored_num fs kFieldVoiceOut = op_voice_out ?t" "stored_num fs kFieldVoiceIn = op_voice_in ?t"
      "stored_num fs kFieldSmsOut = op_sms_out ?t" "stored_num fs kFieldSmsIn = op_sms_in ?t"
    by (rule fs(3), simp add: op_fields_def)+
  let ?m = "dec_of (unat j)"
  have "answer q cfg (''/query/operator/'' @ ?m) req = (status (query_op q ?m), read_json (rbody (query_op q ?m)))"
    using answer_handled [of "H_operator ?m" q cfg req] dec_of_digits by (simp add: handle_def number_def list_all_iff)
  then show ?thesis using conjunct2 [OF entities_read [of q ?m]] fs(1,2) n unfolding told_operator_def kOpFields_def
    by (cases fs) (simp_all add: k(1) Let_def kJsonVoiceOut_def kJsonVoiceIn_def kJsonSmsOut_def kJsonSmsIn_def)
qed

lemma totals_answer:
  assumes "stored (history_cmds h) q"
  shows "answer q cfg ''/query/totals'' req = told_totals (all_records h)"
proof -
  let ?cs = "history_cmds h" and ?rs = "all_records h"
  have r: "in_range ?cs" using assms by (simp add: stored_def)
  have "kTotalKey \<noteq> kProgressKey" by (simp add: name_defs)
  then obtain fs where fs: "q_hgetall q kTotalKey = Some fs" "hash_of ?cs kTotalKey fs" using assms unfolding stored_def by blast
  have n: "stored_num fs f = total_of ?rs f" if "f \<in> set kTotalFields" for f
    using stored_num_hash [OF fs(2) r no_zero_history, of f] history_total [OF that r] by (simp add: word_unat_eq_iff)
  have "map (\<lambda>f. (reported f, JNum (unat (stored_num fs f)))) kTotalFields
      = map (\<lambda>f. (reported f, JNum (unat (total_of ?rs f)))) kTotalFields" using n by simp
  also have "\<dots> = map (\<lambda>(f, v). (reported f, JNum (unat v))) (totals_fields (totals_add_batch ?rs zero_totals))"
    by (simp add: total_of_def kTotalFields_def totals_fields_names total_names name_defs)
  finally have m: "map (\<lambda>f. (reported f, JNum (unat (stored_num fs f)))) kTotalFields = \<dots>" .
  have "answer q cfg ''/query/totals'' req = (status (totals q), read_json (rbody (totals q)))"
    using answer_handled [of H_totals q cfg req] by (simp add: handle_def)
  then show ?thesis using m by (simp add: totals_read fs(1) told_totals_def)
qed

text \<open>The pairs a list of records brings in contact, in decimal.\<close>

definition contacts :: "CdrRecord list \<Rightarrow> (string \<times> string) set" where
  "contacts rs = (\<lambda>l. (dec64 (owner l), dec64 (peer l))) ` {l. link_at (fold_batch rs) l \<noteq> (0 :: LinkDelta)}"

section \<open>Links and peers\<close>

definition link_of :: "CdrRecord list \<Rightarrow> u64 \<Rightarrow> u64 \<Rightarrow> LinkDelta" where
  "link_of rs a b = link_at (fold_batch rs) \<lparr>owner = a, peer = b\<rparr>"

definition told_link :: "CdrRecord list \<Rightarrow> u64 \<Rightarrow> u64 \<Rightarrow> nat \<times> jval option" where
  "told_link rs a b =
     (let l = link_of rs a b in
      if l = 0 then (404, Some (JObj [(''error'', JStr ''link not found'')]))
      else (200, Some (JObj [(''first-party'', JStr (dec64 a)), (''second-party'', JStr (dec64 b)),
        (kJsonDuration, JNum (unat (dur l))), (kJsonCalls, JNum (unat (cnt l))), (kJsonSms, JNum (unat (sms l)))])))"

text \<open>The numbers a subscriber is in contact with, in the order of their digits, and what they exchanged.\<close>

definition told_names :: "CdrRecord list \<Rightarrow> u64 \<Rightarrow> string list" where
  "told_names rs a = sorted_list_of_set (contacts rs `` {dec64 a})"

definition told_peer :: "CdrRecord list \<Rightarrow> u64 \<Rightarrow> string \<Rightarrow> Peer" where
  "told_peer rs a name =
     (let l = link_of rs a (of_nat (dec_val name)) in
      \<lparr>msisdn = name, pduration = dur l, psms = sms l, pcalls = cnt l\<rparr>)"

definition told_peers :: "CdrRecord list \<Rightarrow> u64 \<Rightarrow> QueryParams \<Rightarrow> nat \<times> jval option" where
  "told_peers rs a params =
     (let names = told_names rs a; n = length names in
      if names = [] then (404, Some (JObj [(''error'', JStr ''subscriber not found'')]))
      else if p_weights params then
        (200, Some (JObj (page_members (dec64 a) n params
          @ [(''sort'', JStr (if p_sort params = BySms then ''sms'' else ''dur'')),
             (''peers'', JArr (map (JObj \<circ> peer_members)
               (page (order_peers (map (told_peer rs a) names) (p_sort params)) params)))])))
      else
        (200, Some (JObj (page_members (dec64 a) n params @ [(''peers'', JArr (map JStr (page names params)))]))))"

text \<open>\<open>HMGET\<close> and \<open>HGETALL\<close> read the same hash.\<close>

definition reads_fields :: "IQueryStore \<Rightarrow> bool" where
  "reads_fields q \<longleftrightarrow> (\<forall>k fs names. q_hgetall q k = Some fs \<longrightarrow>
     q_hmget q k names = Some (map (\<lambda>f. case map_of fs f of None \<Rightarrow> [] | Some v \<Rightarrow> v) names))"

text \<open>The hash of a subscriber's links.\<close>

lemma stored_link_hash:
  assumes "stored (history_cmds h) q"
  obtains fs where "q_hgetall q (link_key a) = Some fs" "q_hkeys q (link_key a) = Some (map fst fs)"
    "distinct (map fst fs)" "list_all metric_field (map fst fs)"
    "\<And>b s i. (s, i) \<in> set link_fields \<Longrightarrow> stored_num fs (dec64 b @ s) = i (link_of (all_records h) a b)"
    "\<And>b s i. (s, i) \<in> set link_fields \<Longrightarrow> map_of fs (dec64 b @ s)
       = (if i (link_of (all_records h) a b) = 0 then None else Some (dec64 (i (link_of (all_records h) a b))))"
proof -
  let ?cs = "history_cmds h"
  have r: "in_range ?cs" using assms by (simp add: stored_def)
  have k: "link_key a = kLinkPrefix @ dec64 a" using key_starts(4) [of "dec64 a" a] by simp
  obtain fs where fs: "q_hgetall q (link_key a) = Some fs" "q_hkeys q (link_key a) = Some (map fst fs)" "hash_of ?cs (link_key a) fs"
    using assms sub_key_dec(3) unfolding stored_def k by blast
  have h: "hsum (link_key a) (dec64 b @ s) ?cs = unat (i (link_of (all_records h) a b))" if "(s, i) \<in> set link_fields" for b s i
    using history_link [OF that r, of "\<lparr>owner = a, peer = b\<rparr>"] by (simp add: link_of_def)
  have "metric_field f" if "f \<in> fst ` set fs" for f
  proof -
    have "touched ?cs (kLinkPrefix @ dec64 a) f"
      using that fs(3) map_of_eq_None_iff [of fs f] by (simp add: hash_of_def k split: if_splits)
    from touched_link [OF this] show ?thesis by (auto simp: metric_field_def link_fields_def)
  qed
  then have m: "list_all metric_field (map fst fs)" by (simp add: list_all_iff)
  show ?thesis
  proof (rule that [OF fs(1,2) _ m])
    show "distinct (map fst fs)" using fs(3) by (simp add: hash_of_def)
    show "stored_num fs (dec64 b @ s) = i (link_of (all_records h) a b)" if "(s, i) \<in> set link_fields" for b s i
      using stored_num_hash [OF fs(3) r no_zero_history, of "dec64 b @ s"] h [OF that] by (simp add: word_unat_eq_iff)
    show "map_of fs (dec64 b @ s) = (if i (link_of (all_records h) a b) = 0 then None else Some (dec64 (i (link_of (all_records h) a b))))"
      if "(s, i) \<in> set link_fields" for b s i
      using fs(3) h [OF that, of b] touched_hsum [OF no_zero_history, of h "link_key a" "dec64 b @ s"]
      by (auto simp: hash_of_def dec64_def unat_eq_0)
  qed
qed

lemma link_answer:
  assumes "stored (history_cmds h) q" "reads_fields q"
  shows "answer q cfg (''/query/link/'' @ dec64 a @ ''/'' @ dec64 b) req = told_link (all_records h) a b"
proof -
  let ?l = "link_of (all_records h) a b"
  obtain fs where fs: "q_hgetall q (link_key a) = Some fs"
    "\<And>b s i. (s, i) \<in> set link_fields \<Longrightarrow> map_of fs (dec64 b @ s)
       = (if i (link_of (all_records h) a b) = 0 then None else Some (dec64 (i (link_of (all_records h) a b))))"
    by (rule stored_link_hash [OF assms(1), of a]) (rule that)
  have k: "link_key a = kLinkPrefix @ dec64 a" using key_starts(4) [of "dec64 a" a] by simp
  have f: "map_of fs (dec64 b @ kFieldDurSuffix) = (if dur ?l = 0 then None else Some (dec64 (dur ?l)))"
    "map_of fs (dec64 b @ kFieldSmsSuffix) = (if sms ?l = 0 then None else Some (dec64 (sms ?l)))"
    "map_of fs (dec64 b @ kFieldCntSuffix) = (if cnt ?l = 0 then None else Some (dec64 (cnt ?l)))"
    by (rule fs(2), simp add: link_fields_def)+
  have z: "?l = 0 \<longleftrightarrow> dur ?l = 0 \<and> sms ?l = 0 \<and> cnt ?l = 0" using zero_link_fields [of ?l] by (auto simp: link_fields_def)
  have "to_num [] = 0" by code_simp
  moreover have "answer q cfg (''/query/link/'' @ dec64 a @ ''/'' @ dec64 b) req
      = (status (query_link q (dec64 a) (dec64 b)), read_json (rbody (query_link q (dec64 a) (dec64 b))))"
    using answer_handled [of "H_link (dec64 a) (dec64 b)" q cfg req] dec64_digits by (simp add: handle_def number_def list_all_iff)
  ultimately show ?thesis using conjunct1 [OF links_read [of q "dec64 a" "dec64 b"]] assms(2) fs(1)
    by (auto simp: reads_fields_def k f z told_link_def Let_def resize_def)
qed

lemma peers_answer:
  assumes "stored (history_cmds h) q" "parseParams req kPeerLimit kPeerLimitMax = Inr params"
  shows "answer q cfg (''/query/link/'' @ dec64 a) req = told_peers (all_records h) a params"
proof -
  let ?rs = "all_records h"
  obtain fs where fs: "q_hgetall q (link_key a) = Some fs" "q_hkeys q (link_key a) = Some (map fst fs)"
      "distinct (map fst fs)" "list_all metric_field (map fst fs)"
    and num: "\<And>b s i. (s, i) \<in> set link_fields \<Longrightarrow> stored_num fs (dec64 b @ s) = i (link_of ?rs a b)"
    by (rule stored_link_hash [OF assms(1), of a]) (rule that)
  have k: "links_key (dec64 a) = link_key a" using key_starts(4) [of "dec64 a" a] by (simp add: links_key_def)
  obtain names ps where n: "link_peers q (dec64 a) = Some names" "link_weights q (dec64 a) = Some ps"
    "sorted names" "distinct names" "distinct (map msisdn ps)" "set ps = peer_of fs ` set names"
    using links_read_back [of q "dec64 a" fs] fs by (auto simp: k)
  have set: "set names = contacts ?rs `` {dec64 a}"
    using linked_image [OF n(1)] stored_linked(2) [OF assms(1)] by (simp add: contacts_def in_contact_def)
  then have names: "names = told_names ?rs a"
    unfolding told_names_def using n(3,4) sorted_list_of_set.idem_if_sorted_distinct by metis
  have peer: "peer_of fs name = told_peer ?rs a name" if "name \<in> set names" for name
  proof -
    have "(dec64 a, name) \<in> contacts ?rs" using that by (simp add: set)
    then obtain b where b: "name = dec64 b" unfolding contacts_def by blast
    have "of_nat (dec_val name) = b" by (simp add: b dec64_def)
    moreover have "stored_num fs (dec64 b @ kFieldDurSuffix) = dur (link_of ?rs a b)"
      "stored_num fs (dec64 b @ kFieldSmsSuffix) = sms (link_of ?rs a b)"
      "stored_num fs (dec64 b @ kFieldCntSuffix) = cnt (link_of ?rs a b)"
      by (rule num, simp add: link_fields_def)+
    ultimately show ?thesis by (simp add: peer_of_def told_peer_def b Let_def)
  qed
  have "mset ps = mset (map (told_peer ?rs a) names)"
  proof (rule set_eq_iff_mset_eq_distinct [THEN iffD1])
    show "distinct ps" using n(5) by (simp add: distinct_map)
    have "map msisdn (map (told_peer ?rs a) names) = names" by (simp add: told_peer_def comp_def Let_def)
    then show "distinct (map (told_peer ?rs a) names)" using n(4) distinct_map by metis
    show "set ps = set (map (told_peer ?rs a) names)" using n(6) peer by auto
  qed
  then have order: "order_peers ps srt = order_peers (map (told_peer ?rs a) names) srt" for srt
    using sorted_unique [OF _ _ order_peers_sorted order_peers_sorted, of ps srt] n(5) order_peers_mset
    by (metis mset_map mset_eq_imp_distinct_iff)
  have l: "length ps = length names" "ps = [] \<longleftrightarrow> names = []"
    using mset_eq_length [OF \<open>mset ps = _\<close>] by auto
  have "answer q cfg (''/query/link/'' @ dec64 a) req
      = (status (peers q (dec64 a) params), read_json (rbody (peers q (dec64 a) params)))"
    using answer_handled [of "H_links (dec64 a)" q cfg req] dec64_digits assms(2)
    by (simp add: handle_def with_params_def number_def list_all_iff)
  then show ?thesis using peers_read [of q "dec64 a" params] l order [of "p_sort params"]
    unfolding n(1,2) told_peers_def names [symmetric] Let_def by (cases names; cases ps) auto
qed

section \<open>All of it\<close>

lemma told_links_permuted:
  assumes "mset a = mset b"
  shows "told_link a = told_link b" "told_peers a = told_peers b" "contacts a = contacts b"
proof -
  have l: "link_of a = link_of b" by (intro ext) (simp add: link_of_def fold_permuted [OF assms])
  show c: "contacts a = contacts b" by (simp add: contacts_def fold_permuted [OF assms])
  show "told_link a = told_link b" by (intro ext) (simp add: told_link_def l)
  have "told_peer a = told_peer b" by (intro ext) (simp only: told_peer_def l)
  then show "told_peers a = told_peers b" by (intro ext) (simp only: told_peers_def told_names_def c)
qed

lemma stored_answers:
  assumes "stored (history_cmds h) q" "reads_fields q" "mset (all_records h) = mset rs"
  shows "answer q cfg (''/query/msisdn/'' @ dec64 m) req = told_subscriber rs m"
    "answer q cfg (''/query/operator/'' @ dec_of (unat j)) req = told_operator rs j"
    "answer q cfg ''/query/totals'' req = told_totals rs"
    "answer q cfg (''/query/link/'' @ dec64 a @ ''/'' @ dec64 b) req = told_link rs a b"
    "parseParams req kPeerLimit kPeerLimitMax = Inr params \<Longrightarrow>
      answer q cfg (''/query/link/'' @ dec64 a) req = told_peers rs a params"
    "linked q = contacts rs"
  using subscriber_answer [OF assms(1), of cfg m req] operator_answer [OF assms(1), of cfg j req] totals_answer [OF assms(1), of cfg req]
    link_answer [OF assms(1,2), of cfg a b req] peers_answer [OF assms(1), of req params cfg a] stored_linked(2) [OF assms(1)]
  by (simp_all add: told_permuted [OF assms(3)] told_links_permuted [OF assms(3)] in_contact_def contacts_def [symmetric])

end
