(* ===== verification/Boards.thy ===== *)
theory Boards
  imports Answers "HOL-Library.Product_Lexorder"
begin

text \<open>
  The boards. The server ranks the members of a sorted set by their score and, among equals, by their
  name, both descending for \<open>ZREVRANGE\<close>; the score of a member is the sum of its increments. Here the
  boards of a history of batches are what its records say, and \<open>/query/top\<close> shows a page of them.
\<close>

definition ztouched :: "cmd list \<Rightarrow> string \<Rightarrow> string \<Rightarrow> bool" where
  "ztouched cs b m \<longleftrightarrow> (\<exists>v. ZINCRBY b v m \<in> set cs)"

text \<open>What the server holds of the board \<open>b\<close> after the commands \<open>cs\<close>, the best first.\<close>

definition board_of :: "cmd list \<Rightarrow> string \<Rightarrow> (string \<times> nat) list \<Rightarrow> bool" where
  "board_of cs b ms \<longleftrightarrow> set ms = {(m, zsum b m cs) | m. ztouched cs b m}
     \<and> sorted_wrt (\<lambda>x y. prod.swap y < prod.swap x) ms"

definition ranks :: "cmd list \<Rightarrow> IQueryStore \<Rightarrow> bool" where
  "ranks cs q \<longleftrightarrow> (\<forall>b. \<exists>ms. board_of cs b ms \<and>
     (list_all (\<lambda>(m, n). n < 2 ^ 53) ms \<longrightarrow> (\<forall>off lim. q_top q b off lim =
       map_option (\<lambda>es. (map (\<lambda>(m, n). (m, of_nat n)) es, of_nat (length ms))) (board_range ms off lim))))"

lemma sorted_board:
  assumes "finite A"
  shows "sorted_wrt (\<lambda>x y. prod.swap y < prod.swap x) (map prod.swap (rev (sorted_list_of_set A)))"
    "set (map prod.swap (rev (sorted_list_of_set A))) = prod.swap ` A"
  using assms strict_sorted_list_of_set [of A]
  by (simp_all add: sorted_wrt_map sorted_wrt_rev del: less_prod_def' less_prod_simp)

lemma board_unique:
  assumes "sorted_wrt (\<lambda>x y. prod.swap y < prod.swap x) ms" "set ms = prod.swap ` A"
  shows "ms = map prod.swap (rev (sorted_list_of_set A))"
proof -
  let ?l = "rev (map prod.swap ms)"
  have "sorted_wrt (<) ?l" using assms(1) by (simp add: sorted_wrt_map sorted_wrt_rev del: less_prod_def' less_prod_simp)
  moreover have "set ?l = A" using assms(2) by (auto simp: image_image)
  ultimately have "sorted_list_of_set A = ?l"
    using sorted_list_of_set.idem_if_sorted_distinct strict_sorted_iff by metis
  then show ?thesis by (simp add: rev_map)
qed

text \<open>One such server.\<close>

definition board_from :: "cmd list \<Rightarrow> string \<Rightarrow> (string \<times> nat) list" where
  "board_from cs b = map prod.swap (rev (sorted_list_of_set {(zsum b m cs, m) | m. ztouched cs b m}))"

lemma touched_finite: "finite {(zsum b m cs, m) | m. ztouched cs b m}"
proof -
  have "{m. ztouched cs b m} \<subseteq> (\<lambda>c. case c of ZINCRBY b v m \<Rightarrow> m | _ \<Rightarrow> []) ` set cs"
    unfolding ztouched_def by force
  then have "finite {m. ztouched cs b m}" by (rule finite_subset) simp
  then show ?thesis by simp
qed

lemma board_from_ok: "board_of cs b (board_from cs b)"
  using sorted_board [OF touched_finite, of b cs] by (auto simp: board_of_def board_from_def)

section \<open>Whose scores\<close>

lemma ztouched_simps [simp]:
  "ztouched [] b m = False" "ztouched (x @ y) b m \<longleftrightarrow> ztouched x b m \<or> ztouched y b m"
  "ztouched (incr_cmds adds) b m = False" "ztouched (mark_cmds src batch) b m = False"
  by (auto simp: ztouched_def incr_cmds_def mark_cmds_def)

lemma ztouched_rank: "ztouched (rank_cmds xs) b m \<longleftrightarrow> zsum b m (rank_cmds xs) \<noteq> 0"
proof (induction xs)
  case (Cons x xs)
  obtain k f v where x: "x = (k, f, v)" by (cases x)
  show ?case using Cons by (cases "v = 0") (auto simp: x ztouched_def unat_eq_0)
qed simp

lemma ztouched_consume: "ztouched (consume_cmds src batch) b m \<longleftrightarrow> zsum b m (consume_cmds src batch) \<noteq> 0"
  by (simp add: consume_cmds_def ztouched_rank)

lemma ztouched_history: "ztouched (history_cmds h) b m \<longleftrightarrow> zsum b m (history_cmds h) \<noteq> 0"
  by (induction h rule: rev_induct) (auto simp: history_cmds_def ztouched_consume split: prod.splits)

lemma rank_member:
  assumes "zsum b m (consume_cmds src batch) \<noteq> 0"
  shows "(\<exists>g k. (b, g) \<in> set sub_boards \<and> m = dec64 k) \<or> (\<exists>g j. (b, g) \<in> set op_boards \<and> m = dec_of (unat (j :: u32)))"
proof -
  have "ztouched (rank_cmds (delta_ranks (fold_batch batch))) b m" using assms by (simp add: consume_cmds_def ztouched_rank)
  then obtain v where "(b, m, v) \<in> set (delta_ranks (fold_batch batch))" by (auto simp: ztouched_def rank_cmds_def)
  then show ?thesis by (auto simp: delta_ranks_def ranks_boards)
qed

lemma board_add: "(b, g) \<in> set sub_boards \<Longrightarrow> g (x + y) = g x + g y" "(b, h) \<in> set op_boards \<Longrightarrow> h (p + q) = h p + h q"
  by (auto simp: sub_boards_def op_boards_def)

lemma board_null: "(b, g) \<in> set sub_boards \<Longrightarrow> g 0 = 0" "(b, h) \<in> set op_boards \<Longrightarrow> h 0 = 0"
  by (auto simp: sub_boards_def op_boards_def delta_monoid_defs)

lemma small_boards:
  "(b, g) \<in> set sub_boards \<Longrightarrow> unat (g (sub_at (fold_batch [r]) m)) \<le> 2 * load r"
  "(b, h) \<in> set op_boards \<Longrightarrow> unat (h (op_at (fold_batch [r]) j)) \<le> 2 * load r"
proof -
  have at: "sub_at (fold_batch [r]) m = (if m \<noteq> 0 \<and> subscriberMSISDN r = m then sub_contrib r else 0)"
    "op_at (fold_batch [r]) j = (if j \<noteq> 0 \<and> counts r \<and> mccmnc_of r = j then op_contrib r else 0)"
    by (simp_all add: at_fold)
  have data: "unat (bytesReceived r + bytesTransmitted r) \<le> 2 * load r"
    using unat_plus_le [of "bytesReceived r" "bytesTransmitted r"] by (simp add: load_def)
  show "unat (g (sub_at (fold_batch [r]) m)) \<le> 2 * load r" if "(b, g) \<in> set sub_boards"
    using that data unfolding at
    by (cases "usageType r") (auto simp: sub_boards_def sub_contrib_def delta_monoid_defs load_def)
  show "unat (h (op_at (fold_batch [r]) j)) \<le> 2 * load r" if "(b, h) \<in> set op_boards"
    using that unfolding at
    by (cases "usageType r") (auto simp: op_boards_def op_contrib_def delta_monoid_defs load_def)
qed

lemma consume_board_load: "zsum b m (consume_cmds src batch) \<le> total_load batch"
proof (cases "zsum b m (consume_cmds src batch) = 0")
  case False
  then show ?thesis
  proof (rule rank_member [THEN disjE])
    assume "\<exists>g k. (b, g) \<in> set sub_boards \<and> m = dec64 k"
    then obtain g k where k: "(b, g) \<in> set sub_boards" "m = dec64 k" by blast
    show ?thesis unfolding k(2) consume_hsum(5) [OF k(1)]
      by (rule additive_load) (simp_all add: fold_additive board_add(1) [OF k(1)] board_null(1) [OF k(1)] at_fold(1) [of "[]"]
          small_boards(1) [OF k(1)])
  next
    assume "\<exists>g j. (b, g) \<in> set op_boards \<and> m = dec_of (unat (j :: u32))"
    then obtain g and j :: u32 where j: "(b, g) \<in> set op_boards" "m = dec_of (unat j)" by blast
    show ?thesis unfolding j(2) consume_hsum(6) [OF j(1)]
      by (rule additive_load) (simp_all add: fold_additive board_add(2) [OF j(1)] board_null(2) [OF j(1)] at_fold(2) [of "[]"]
          small_boards(2) [OF j(1)])
  qed
qed simp

lemma history_board_load: "zsum b m (history_cmds h) \<le> total_load (all_records h)"
proof (induction h rule: rev_induct)
  case (snoc e h)
  obtain src batch where e: "e = (src, batch)" by (cases e)
  then show ?case using snoc consume_board_load [of b m src batch] by simp
qed simp

lemma history_zsum:
  fixes s :: "CdrRecord list \<Rightarrow> u64"
  assumes "\<And>x y. s (x @ y) = s x + s y" "s [] = 0" "\<And>src c. zsum b m (consume_cmds src c) = unat (s c)"
  shows "of_nat (zsum b m (history_cmds h)) = s (all_records h)"
proof (induction h rule: rev_induct)
  case (snoc e h)
  obtain src batch where e: "e = (src, batch)" by (cases e)
  then show ?case using snoc by (simp add: assms)
qed (simp add: assms(2))

lemma unat_eqI: "of_nat n = x \<Longrightarrow> n < 2 ^ 64 \<Longrightarrow> n = unat x" for x :: u64
  by (auto simp: unat_of_nat take_bit_nat_eq_self)

text \<open>The scores, of the records alone.\<close>

definition scores :: "CdrRecord list \<Rightarrow> string \<Rightarrow> (nat \<times> string) set" where
  "scores rs b =
     {(unat (g (sub_at (fold_batch rs) k)), dec64 k) | g k. (b, g) \<in> set sub_boards \<and> g (sub_at (fold_batch rs) k) \<noteq> 0}
   \<union> {(unat (g (op_at (fold_batch rs) j)), dec_of (unat j)) | g j. (b, g) \<in> set op_boards \<and> g (op_at (fold_batch rs) j) \<noteq> 0}"

definition told_ranking :: "CdrRecord list \<Rightarrow> string \<Rightarrow> (string \<times> nat) list" where
  "told_ranking rs b = map prod.swap (rev (sorted_list_of_set (scores rs b)))"

lemma history_scores:
  assumes "total_load (all_records h) < 2 ^ 64"
  shows "(b, g) \<in> set sub_boards \<Longrightarrow> zsum b (dec64 k) (history_cmds h) = unat (g (sub_at (fold_batch (all_records h)) k))"
    "(b, g') \<in> set op_boards \<Longrightarrow> zsum b (dec_of (unat j)) (history_cmds h) = unat (g' (op_at (fold_batch (all_records h)) j))"
proof -
  have small: "zsum b m (history_cmds h) < 2 ^ 64" for m using history_board_load assms le_less_trans by blast
  show "zsum b (dec64 k) (history_cmds h) = unat (g (sub_at (fold_batch (all_records h)) k))" if "(b, g) \<in> set sub_boards"
    by (rule unat_eqI [OF history_zsum small]) (simp_all add: consume_hsum(5) [OF that] fold_additive board_add(1) [OF that]
        board_null(1) [OF that] at_fold(1) [of "[]"])
  show "zsum b (dec_of (unat j)) (history_cmds h) = unat (g' (op_at (fold_batch (all_records h)) j))" if "(b, g') \<in> set op_boards"
    by (rule unat_eqI [OF history_zsum small]) (simp_all add: consume_hsum(6) [OF that] fold_additive board_add(2) [OF that]
        board_null(2) [OF that] at_fold(2) [of "[]"])
qed

lemma zsum_history_zero: "zsum b m (history_cmds h) \<noteq> 0 \<Longrightarrow> \<exists>src c. zsum b m (consume_cmds src c) \<noteq> 0"
proof (induction h rule: rev_induct)
  case (snoc e h)
  obtain src c where "e = (src, c)" by (cases e)
  then show ?case using snoc by (cases "zsum b m (consume_cmds src c) = 0") auto
qed simp

lemma scores_history:
  assumes "total_load (all_records h) < 2 ^ 64"
  shows "{(zsum b m (history_cmds h), m) | m. ztouched (history_cmds h) b m} = scores (all_records h) b" (is "?A = ?B")
proof
  show "?A \<subseteq> ?B"
  proof
    fix x assume "x \<in> ?A"
    then obtain m where m: "x = (zsum b m (history_cmds h), m)" "zsum b m (history_cmds h) \<noteq> 0" by (auto simp: ztouched_history)
    then obtain src c where "zsum b m (consume_cmds src c) \<noteq> 0" using zsum_history_zero by blast
    from rank_member [OF this] show "x \<in> ?B"
    proof
      assume "\<exists>g k. (b, g) \<in> set sub_boards \<and> m = dec64 k"
      then obtain g k where k: "(b, g) \<in> set sub_boards" "m = dec64 k" by blast
      then show ?thesis using m history_scores(1) [OF assms k(1), of k] unfolding scores_def by (auto simp: unat_eq_0)
    next
      assume "\<exists>g j. (b, g) \<in> set op_boards \<and> m = dec_of (unat (j :: u32))"
      then obtain g and j :: u32 where j: "(b, g) \<in> set op_boards" "m = dec_of (unat j)" by blast
      then show ?thesis using m history_scores(2) [OF assms j(1), of j] unfolding scores_def by (auto simp: unat_eq_0)
    qed
  qed
  show "?B \<subseteq> ?A" unfolding scores_def ztouched_history
    by (auto simp: history_scores [OF assms] unat_gt_0)
qed

lemma board_told:
  assumes "total_load (all_records h) < 2 ^ 64" "board_of (history_cmds h) b ms"
  shows "ms = told_ranking (all_records h) b"
  unfolding told_ranking_def scores_history [OF assms(1), symmetric]
  by (rule board_unique) (use assms(2) in \<open>auto simp: board_of_def\<close>)

lemma told_ranking_small:
  assumes "total_load rs < 2 ^ 53"
  shows "list_all (\<lambda>(m, n). n < 2 ^ 53) (told_ranking rs b)"
proof -
  have s: "unat (g (sub_at (fold_batch rs) k)) < 2 ^ 53" if "(b, g) \<in> set sub_boards" for g k
    by (rule le_less_trans [OF _ assms], rule additive_load) (simp_all add: fold_additive board_add(1) [OF that] board_null(1) [OF that]
        at_fold(1) [of "[]"] small_boards(1) [OF that])
  have o': "unat (g (op_at (fold_batch rs) j)) < 2 ^ 53" if "(b, g) \<in> set op_boards" for g j
    by (rule le_less_trans [OF _ assms], rule additive_load) (simp_all add: fold_additive board_add(2) [OF that] board_null(2) [OF that]
        at_fold(2) [of "[]"] small_boards(2) [OF that])
  have "n < 2 ^ 53" if "(n, m) \<in> scores rs b" for n m using that s o' by (auto simp: scores_def)
  moreover have "set (sorted_list_of_set (scores rs b)) \<subseteq> scores rs b"
    by (cases "finite (scores rs b)") simp_all
  ultimately show ?thesis by (auto simp: told_ranking_def list_all_iff)
qed

text \<open>What \<open>/query/top\<close> is to tell.\<close>

definition told_top :: "CdrRecord list \<Rightarrow> string \<Rightarrow> QueryParams \<Rightarrow> nat \<times> jval option" where
  "told_top rs name params =
     (case map_of kBoards name of
        None \<Rightarrow> (400, Some (JObj [(''error'', JStr ''no such board'')]))
      | Some key \<Rightarrow>
          (case board_range (told_ranking rs key) (p_offset params) (p_limit params) of
             None \<Rightarrow> (503, Some (JObj [(''error'', JStr ''store unavailable'')]))
           | Some es \<Rightarrow> (200, Some (JObj [(''board'', JStr name), (''count'', JNum (length (told_ranking rs key))),
               (''offset'', JNum (unat (p_offset params))), (''limit'', JNum (unat (p_limit params))),
               (''entries'', JArr (map (\<lambda>(m, n). JObj [(''id'', JStr m), (''score'', JNum n)]) es))]))))"

lemma length_ranking:
  assumes "total_load rs < 2 ^ 64"
  shows "length (told_ranking rs b) < 2 ^ 64"
proof -
  have r: "scores rs b = {(zsum b m (history_cmds [([], rs)]), m) | m. ztouched (history_cmds [([], rs)]) b m}"
    using scores_history [of "[([], rs)]" b] assms by (simp add: all_records_def)
  have "inj_on snd (scores rs b)" by (auto simp: r inj_on_def)
  then have "card (scores rs b) = card (snd ` scores rs b)" by (simp add: card_image)
  also have "\<dots> \<le> card (dec64 ` (UNIV - {0}))"
  proof (rule card_mono)
    show "snd ` scores rs b \<subseteq> dec64 ` (UNIV - {0})"
    proof
      fix m assume "m \<in> snd ` scores rs b"
      then consider g k where "(b, g) \<in> set sub_boards" "g (sub_at (fold_batch rs) k) \<noteq> 0" "m = dec64 k"
        | g j where "(b, g) \<in> set op_boards" "g (op_at (fold_batch rs) j) \<noteq> 0" "m = dec_of (unat j)"
        unfolding scores_def by auto
      then show "m \<in> dec64 ` (UNIV - {0})"
      proof cases
        case 1
        then have "k \<noteq> 0" by (auto simp: at_fold board_null)
        then show ?thesis using 1(3) by simp
      next
        case 2
        then have "j \<noteq> 0" by (auto simp: at_fold board_null)
        moreover have "unat (ucast j :: u64) = unat j"
          using unsigned_less [of j, where ?'a = nat] by (simp add: unsigned_ucast_eq take_bit_nat_eq_self)
        ultimately have "(ucast j :: u64) \<noteq> 0" "m = dec64 (ucast j)" by (auto simp: word_unat_eq_iff 2(3) dec64_def)
        then show ?thesis by blast
      qed
    qed
  qed simp
  also have "\<dots> \<le> card (UNIV - {0 :: u64})" by (rule card_image_le) simp
  also have "\<dots> < 2 ^ 64" by (simp add: card_word)
  finally show ?thesis by (simp add: told_ranking_def)
qed

lemma top_answer:
  assumes "ranks (history_cmds h) q" "total_load (all_records h) < 2 ^ 53" "name \<noteq> []" "list_all board_char name"
    and "parseParams req kTopLimit kTopLimitMax = Inr params"
  shows "answer q cfg (''/query/top/'' @ name) req = told_top (all_records h) name params"
proof -
  have small: "total_load (all_records h) < 2 ^ 64" using assms(2) by simp
  have top: "q_top q b off lim = map_option (\<lambda>es. (map (\<lambda>(m, n). (m, of_nat n)) es, of_nat (length (told_ranking (all_records h) b))))
      (board_range (told_ranking (all_records h) b) off lim)" for b off lim
    using assms(1) board_told [OF small] told_ranking_small [OF assms(2), of b] unfolding ranks_def by metis
  have entry: "unat (of_nat n :: u64) = n" if "(m, n) \<in> set es" "board_range (told_ranking (all_records h) b) off lim = Some es" for m n es b off lim
  proof -
    have "set es \<subseteq> set (told_ranking (all_records h) b)"
      using that(2) by (auto simp: board_range_def split: if_splits dest: in_set_dropD in_set_takeD)
    then have "n < 2 ^ 53" using that(1) told_ranking_small [OF assms(2), of b] by (auto simp: list_all_iff)
    then show ?thesis by (intro unat_eqI [symmetric]) simp_all
  qed
  have l: "unat (of_nat (length (told_ranking (all_records h) b)) :: u64) = length (told_ranking (all_records h) b)" for b
    by (rule unat_eqI [symmetric]) (use length_ranking [OF small, of b] in simp_all)
  have "answer q cfg (''/query/top/'' @ name) req
      = (status (rank_top q name params), read_json (rbody (rank_top q name params)))"
    using answer_handled [of "H_top name" q cfg req] assms(3-5) by (simp add: handle_def with_params_def)
  then show ?thesis using conjunct2 [OF links_read [of q "[]" "[]" name params]] entry
    by (auto simp: told_top_def top l split: option.splits)
qed

lemma ranks_from: "ranks cs (db_view \<lparr>hashes = hs, boards = board_from cs, db_keys = n\<rparr>)"
  unfolding ranks_def using board_from_ok [of cs] by (auto simp: db_view_def)

lemma told_top_permuted: "mset a = mset b \<Longrightarrow> told_top a = told_top b"
proof -
  assume m: "mset a = mset b"
  have "scores a = scores b" unfolding scores_def fold_permuted [OF m] by (rule refl)
  then have "told_ranking a = told_ranking b" by (intro ext) (simp only: told_ranking_def)
  then show ?thesis by (intro ext) (simp only: told_top_def)
qed

end
