(* ===== verification/EndToEnd.thy ===== *)
theory EndToEnd
  imports Boards Recovery Consumers
begin

text \<open>
  From the records that come in to the answers that go out, over everything in between: the
  plant of \<open>Recovery\<close> or the crew of \<open>Consumers\<close> fills the store, the gateway of \<open>Gateway\<close> reads it. The
  records keep the counters of the server in range (\<open>total_load\<close>), Redis is reliable, and those of a file
  have rising sequences (\<open>deliveries_ok\<close>).
\<close>

text \<open>A server that has completed the commands \<open>cs\<close>, its hashes and boards as the gateway gets them.\<close>

definition serves :: "cmd list \<Rightarrow> IQueryStore \<Rightarrow> bool" where
  "serves cs q \<longleftrightarrow> reads_fields q \<and> ranks cs q \<and> (\<forall>k. k \<noteq> kProgressKey \<longrightarrow>
     (\<exists>fs. q_hgetall q k = Some fs \<and> q_hkeys q k = Some (map fst fs) \<and> hash_of cs k fs))"

lemma served_stored:
  assumes "serves (history_cmds h) q" "mset (all_records h) = mset rs" "total_load rs < 2 ^ 63"
  shows "stored (history_cmds h) q" "reads_fields q" "ranks (history_cmds h) q"
  using assms history_in_range [of h] total_load_permuted [OF assms(2)] by (simp_all add: stored_def serves_def)

lemma served_answers:
  assumes "serves (history_cmds h) q" "mset (all_records h) = mset rs" "total_load rs < 2 ^ 63"
  shows "answer q cfg (''/query/msisdn/'' @ dec64 m) req = told_subscriber rs m"
    "answer q cfg (''/query/operator/'' @ dec_of (unat j)) req = told_operator rs j"
    "answer q cfg ''/query/totals'' req = told_totals rs"
    "answer q cfg (''/query/link/'' @ dec64 a @ ''/'' @ dec64 b) req = told_link rs a b"
    "parseParams req kPeerLimit kPeerLimitMax = Inr params \<Longrightarrow>
      answer q cfg (''/query/link/'' @ dec64 a) req = told_peers rs a params"
    "total_load rs < 2 ^ 53 \<Longrightarrow> name \<noteq> [] \<Longrightarrow> list_all board_char name \<Longrightarrow>
      parseParams req kTopLimit kTopLimitMax = Inr params \<Longrightarrow>
      answer q cfg (''/query/top/'' @ name) req = told_top rs name params"
    "linked q = contacts rs"
  using stored_answers [OF served_stored(1,2) [OF assms] assms(2)]
    top_answer [OF served_stored(3) [OF assms], of name req params cfg]
  by (simp_all add: total_load_permuted [OF assms(2)] told_top_permuted [OF assms(2)])

lemma serves_from: "serves cs (db_view \<lparr>hashes = hash_from cs, boards = board_from cs, db_keys = n\<rparr>)"
  using ranks_from [of cs "hash_from cs" n] by (simp add: serves_def reads_fields_def db_view_def hash_from_ok)

text \<open>
  C1: Files to answers, while Redis is well. The processor is started on empty directories and an empty
  store, files are delivered to it, it may die and be started again at any moment, any number of times;
  once every delivered file is in the done directory, whoever asks the gateway for a subscriber, an
  operator or the totals is told what the records of all the files say, every record once; so is whoever
  asks for the link between two subscribers or for a page of the peers of one; the links the path search
  follows are the contacts. The pages of the boards rank the same sums, as long as their total is below
  \<open>2 ^ 53\<close>, where the doubles the server keeps scores in are exact. What this takes: Redis can be reached
  all the time, takes every command and refuses none (over a connection that breaks a record can be lost,
  see \<open>AggregateSink\<close>); the four directories are distinct, end in a slash and hold no file at the start;
  no name is delivered twice; the sequences of the records in a file rise from 1, and the store has no
  progress of any of the names; the load of all records is below \<open>2 ^ 63\<close>, so that no counter overflows;
  and the gateway's reads show the hashes and boards of the server.
\<close>

theorem files_to_answers:
  assumes "reliable_redis E" "good_dirs dirs" "empty_dirs dirs disk"
    and "(plant_step dirs parser E)\<^sup>*\<^sup>* (plant_start dirs disk [] w) s" "deliveries_ok parser [] (pt_sent s)"
    and "distinct ns" "set ns = dom (pt_sent s)"
    and "\<And>n t. pt_sent s n = Some t \<Longrightarrow> stands dirs (pt_disk s) n t Done"
    and "rs = concat (map (\<lambda>n. file_records parser (the (pt_sent s n))) ns)" "total_load rs < 2 ^ 63"
    and "serves (pt_log s) q"
  shows "answer q cfg (''/query/msisdn/'' @ dec64 m) req = told_subscriber rs m
    \<and> answer q cfg (''/query/operator/'' @ dec_of (unat j)) req = told_operator rs j
    \<and> answer q cfg ''/query/totals'' req = told_totals rs
    \<and> answer q cfg (''/query/link/'' @ dec64 a @ ''/'' @ dec64 b) req = told_link rs a b
    \<and> (\<forall>params. parseParams req kPeerLimit kPeerLimitMax = Inr params \<longrightarrow>
        answer q cfg (''/query/link/'' @ dec64 a) req = told_peers rs a params)
    \<and> (\<forall>name params. total_load rs < 2 ^ 53 \<longrightarrow> name \<noteq> [] \<longrightarrow> list_all board_char name \<longrightarrow>
        parseParams req kTopLimit kTopLimitMax = Inr params \<longrightarrow>
        answer q cfg (''/query/top/'' @ name) req = told_top rs name params)
    \<and> linked q = contacts rs"
proof -
  obtain h where l: "pt_log s = [] @ history_cmds h" and m: "mset (all_records h) = mset rs"
    unfolding assms(9) by (rule plant_records [OF assms(4,2,3,1) _ assms(5-8)]) simp_all
  have "serves (history_cmds h) q" using assms(11) l by simp
  from served_answers [OF this m assms(10)] show ?thesis by blast
qed

lemma toy_told:
  "told_subscriber [call_record 1, call_record 2] 7 =
     (200, Some (JObj [(''msisdn'', JStr (dec64 7)), (''voice-out'', JNum 120), (''voice-in'', JNum 0),
      (''data-out'', JNum 0), (''data-in'', JNum 0), (''sms-out'', JNum 0), (''sms-in'', JNum 0),
      (''no-answer'', JNum 0), (''busy'', JNum 0), (''failed'', JNum 0)]))"
  "told_subscriber [call_record 1] 7 =
     (200, Some (JObj [(''msisdn'', JStr (dec64 7)), (''voice-out'', JNum 60), (''voice-in'', JNum 0),
      (''data-out'', JNum 0), (''data-in'', JNum 0), (''sms-out'', JNum 0), (''sms-in'', JNum 0),
      (''no-answer'', JNum 0), (''busy'', JNum 0), (''failed'', JNum 0)]))"
  by code_simp+

theorem files_to_answers_witness:
  "\<exists>s q. toy_plant_step\<^sup>*\<^sup>* toy_plant s \<and> pt_sent s = [''f'' \<mapsto> toy_text]
    \<and> answer q \<lparr>max_hops = 6, max_visited = 100\<rparr> (''/query/msisdn/'' @ dec64 7) (\<lambda>name. None) =
     (200, Some (JObj [(''msisdn'', JStr (dec64 7)), (''voice-out'', JNum 120), (''voice-in'', JNum 0),
      (''data-out'', JNum 0), (''data-in'', JNum 0), (''sms-out'', JNum 0), (''sms-in'', JNum 0),
      (''no-answer'', JNum 0), (''busy'', JNum 0), (''failed'', JNum 0)]))"
proof -
  obtain s where s: "toy_plant_step\<^sup>*\<^sup>* toy_plant s" "pt_sent s = [''f'' \<mapsto> toy_text]" "stands toy_dirs (pt_disk s) ''f'' toy_text Done"
    using toy_recovered by blast
  let ?q = "db_view \<lparr>hashes = hash_from (pt_log s), boards = board_from (pt_log s), db_keys = 0\<rparr>"
  let ?rs = "[call_record 1, call_record 2]"
  have d: "deliveries_ok toy_parser [] (pt_sent s)" "distinct [''f'']" "set [''f''] = dom (pt_sent s)"
    by (simp_all add: s(2) toy_deliveries)
  have arrived: "\<And>n t. pt_sent s n = Some t \<Longrightarrow> stands toy_dirs (pt_disk s) n t Done"
    using s(3) by (simp add: s(2) split: if_splits)
  have rs: "?rs = concat (map (\<lambda>n. file_records toy_parser (the (pt_sent s n))) [''f''])"
    by (simp add: s(2) file_records_def toy_header toy_records)
  have small: "total_load ?rs < 2 ^ 63" by (simp add: total_load_def load_def call_record_def)
  from files_to_answers [OF live.reliable_redis_axioms toy_good toy_empty s(1) d arrived rs small serves_from,
      where m = 7 and cfg = "\<lparr>max_hops = 6, max_visited = 100\<rparr>" and req = "\<lambda>name. None", THEN conjunct1]
  have "answer ?q \<lparr>max_hops = 6, max_visited = 100\<rparr> (''/query/msisdn/'' @ dec64 7) (\<lambda>name. None) = told_subscriber ?rs 7" .
  then show ?thesis unfolding toy_told(1) using s(1,2) by blast
qed

text \<open>
  C2: Messages to answers, while Redis is well. Any number of consumer threads take messages side by side, in
  any interleaving and over connections to the broker that may break at any moment, and acknowledge what
  they have consumed; in every state they can reach from an empty store, the gateway tells what the records
  say that they have handed to the sink, every one of them once. What this takes: Redis can be reached all
  the time, takes every command and refuses none (otherwise a record handed over can
  be missing, see \<open>AggregateSink\<close>); the load of these records is below \<open>2 ^ 63\<close>, for the boards below \<open>2 ^ 53\<close>; and the
  gateway's reads show the hashes and boards of the server.
\<close>

theorem messages_to_answers:
  assumes "reliable_redis E"
    and "(crew_step n (thread_sink E) parser)\<^sup>*\<^sup>* (crew_start ws (zero_run, new_server [] w)) s"
    and "rs = concat (concat (map (\<lambda>i. consumed (k_trace (mb_k (cr_of s i)))) [0..<n]))" "total_load rs < 2 ^ 63"
    and "serves (sh_log (snd (cr_sink s))) q"
  shows "answer q cfg (''/query/msisdn/'' @ dec64 m) req = told_subscriber rs m
    \<and> answer q cfg (''/query/operator/'' @ dec_of (unat j)) req = told_operator rs j
    \<and> answer q cfg ''/query/totals'' req = told_totals rs
    \<and> answer q cfg (''/query/link/'' @ dec64 a @ ''/'' @ dec64 b) req = told_link rs a b
    \<and> (\<forall>params. parseParams req kPeerLimit kPeerLimitMax = Inr params \<longrightarrow>
        answer q cfg (''/query/link/'' @ dec64 a) req = told_peers rs a params)
    \<and> (\<forall>name params. total_load rs < 2 ^ 53 \<longrightarrow> name \<noteq> [] \<longrightarrow> list_all board_char name \<longrightarrow>
        parseParams req kTopLimit kTopLimitMax = Inr params \<longrightarrow>
        answer q cfg (''/query/top/'' @ name) req = told_top rs name params)
    \<and> linked q = contacts rs"
proof -
  have "list_all is_write []" by simp
  note store = crew_store [OF assms(1) this assms(2)]
  have m: "mset (all_records (queued_history (cr_calls s))) = mset rs"
    unfolding all_records_def assms(3) by (rule mset_concat_eq) (rule store(2))
  have "serves (history_cmds (queued_history (cr_calls s))) q" using assms(5) store(1) by simp
  from served_answers [OF this m assms(4)] show ?thesis by blast
qed

text \<open>The first consumer of the crew of \<open>Consumers\<close> up to its first call of the sink.\<close>

lemma toy_member:
  "mb_phase (outside_step (new_member (toy_world 0))) = Reading new_source"
  "case mb_phase (reading_step toy_read new_source (outside_step (new_member (toy_world 0)))) of
     Holding src b \<Rightarrow> b = [call_record 1] | _ \<Rightarrow> False"
  "consumed (k_trace (mb_k (reading_step toy_read new_source (outside_step (new_member (toy_world 0)))))) = []"
  by code_simp+

lemma toy_crew_calls:
  "\<exists>s. toy_crew_step\<^sup>*\<^sup>* toy_crew s
    \<and> concat (concat (map (\<lambda>i. consumed (k_trace (mb_k (cr_of s i)))) [0..<2])) = [call_record 1]"
proof -
  let ?sk = "thread_sink perfect_env"
  let ?m1 = "outside_step (new_member (toy_world 0))"
  let ?m2 = "reading_step toy_read new_source ?m1"
  obtain src where h: "mb_phase ?m2 = Holding src [call_record 1]"
    using toy_member(2) by (cases "mb_phase ?m2") auto
  let ?s1 = "toy_crew\<lparr>cr_of := (cr_of toy_crew)(0 := ?m1)\<rparr>"
  let ?s2 = "?s1\<lparr>cr_of := (cr_of ?s1)(0 := ?m2)\<rparr>"
  obtain m3 x where m3: "member_step (?sk 0) toy_read (?m2, cr_sink toy_crew) = (m3, x)"
    by (cases "member_step (?sk 0) toy_read (?m2, cr_sink toy_crew)")
  have new: "mb_phase (new_member w) = Outside" "consumed (k_trace (mb_k (new_member w))) = []" for w
    by (simp_all add: new_member_def)
  have "toy_crew_step toy_crew ?s1"
    using crew_step.acts [of 0 2 toy_crew ?sk toy_read ?m1 "cr_sink toy_crew"]
    by (simp add: toy_crew_def crew_start_def member_step_def new)
  moreover have "toy_crew_step ?s1 ?s2"
    using crew_step.acts [of 0 2 ?s1 ?sk toy_read ?m2 "cr_sink toy_crew"]
    by (simp add: member_step_def toy_member(1))
  moreover have "toy_crew_step ?s2 (?s2\<lparr>cr_of := (cr_of ?s2)(0 := m3), cr_sink := x, cr_calls := cr_calls ?s2 @ call_of 0 (mb_phase ?m2)\<rparr>)"
    using crew_step.acts [of 0 2 ?s2 ?sk toy_read m3 x] m3 by (simp add: h)
  ultimately have "toy_crew_step\<^sup>*\<^sup>* toy_crew
      (?s2\<lparr>cr_of := (cr_of ?s2)(0 := m3), cr_sink := x, cr_calls := cr_calls ?s2 @ call_of 0 (mb_phase ?m2)\<rparr>)"
    by (meson rtranclp.rtrancl_refl rtranclp.rtrancl_into_rtrancl)
  moreover have "consumed (k_trace (mb_k m3)) = [[call_record 1]]"
    using m3 toy_member(3) by (auto simp: member_step_def h)
  ultimately show ?thesis
    by - (rule exI, erule conjI, simp add: toy_crew_def crew_start_def new numeral_2_eq_2)
qed

theorem messages_to_answers_witness:
  "\<exists>s q. toy_crew_step\<^sup>*\<^sup>* toy_crew s
    \<and> answer q \<lparr>max_hops = 6, max_visited = 100\<rparr> (''/query/msisdn/'' @ dec64 7) (\<lambda>name. None) =
     (200, Some (JObj [(''msisdn'', JStr (dec64 7)), (''voice-out'', JNum 60), (''voice-in'', JNum 0),
      (''data-out'', JNum 0), (''data-in'', JNum 0), (''sms-out'', JNum 0), (''sms-in'', JNum 0),
      (''no-answer'', JNum 0), (''busy'', JNum 0), (''failed'', JNum 0)]))"
proof -
  obtain s where s: "toy_crew_step\<^sup>*\<^sup>* toy_crew s"
    "concat (concat (map (\<lambda>i. consumed (k_trace (mb_k (cr_of s i)))) [0..<2])) = [call_record 1]"
    using toy_crew_calls by blast
  let ?q = "db_view \<lparr>hashes = hash_from (sh_log (snd (cr_sink s))), boards = board_from (sh_log (snd (cr_sink s))), db_keys = 0\<rparr>"
  have small: "total_load [call_record 1] < 2 ^ 63" by (simp add: total_load_def load_def call_record_def)
  from messages_to_answers [OF live.reliable_redis_axioms s(1) [unfolded toy_crew_def] s(2) [symmetric] small serves_from,
      where m = 7 and cfg = "\<lparr>max_hops = 6, max_visited = 100\<rparr>" and req = "\<lambda>name. None", THEN conjunct1]
  have "answer ?q \<lparr>max_hops = 6, max_visited = 100\<rparr> (''/query/msisdn/'' @ dec64 7) (\<lambda>name. None)
      = told_subscriber [call_record 1] 7" .
  then show ?thesis unfolding toy_told(2) using s(1) by blast
qed

end
