(* ===== verification/Spec2Isabelle.thy ===== *)
theory Spec2Isabelle
  imports CsvParser Aggregator TotalsMod RedisStore AggregateSink FileIngestor Rabbit ThreadPool
    DirWatcher ReadBack Recovery Programs Consumers PoolSync LinkHash Handles Wire
    LiveStore EndToEnd
begin

text \<open>
  Call detail records from files or from a message queue to counters in Redis, and the HTTP
  gateway that reports on them: a model of the C++ sources under \<open>src/src\<close> and \<open>src/inc\<close> with
  the theorems that make its parts correct.

  The two programs. The processor (\<open>src/processor_main.cpp\<close>) takes record lines from a directory of files
  or from RabbitMQ, parses them, folds each batch into deltas and writes these to the store, at
  most 4096 records at a time for files. The gateway (\<open>src/gateway_main.cpp\<close>) answers GET requests from what
  is stored. They share no state but the store.

  The theories, in the order of the data. In each the definitions follow the code, one for each
  function, with the source's names; the text before a definition says what differs.

  \<^item> \<open>Prelude\<close>: machine words, decimal text, \<open>from_chars\<close>, the hash map with \<open>operator[]\<close> as an
    association list, and the lemmas on them that the others share (\<open>num_simps\<close>, \<open>map_simps\<close>).
    \<open>Cdr\<close>: the record (\<open>inc/cdr_record.hpp\<close>) and the limits of \<open>inc/constants.hpp\<close>.
  \<^item> \<open>CsvParser\<close>: \<open>src/parser/csv_parser.cpp\<close>. Which lines are accepted and what they mean, a round trip
    with a printer, the calendar arithmetic behind the timestamps.
  \<^item> \<open>Aggregator\<close>: \<open>src/aggregate/aggregator.cpp\<close>. Every counter is a sum over the records, links are the
    same from both ends. \<open>TotalsMod\<close>: \<open>src/aggregate/totals.cpp\<close>, with the concurrent merges of the run's
    atomic counters stepped one \<open>fetch_add\<close> at a time.
  \<^item> \<open>Store\<close>: the interface \<open>inc/store/istore.hpp\<close> and what it promises (locales \<open>counter_store\<close> and
    \<open>crash_store\<close>). \<open>RedisStore\<close>: \<open>src/store/redis_conn.cpp\<close> and \<open>src/store/redis_store.cpp\<close>, the pipelined
    transactions of one thread; they meet the promise over an environment that behaves
    (\<open>reliable_redis\<close>: it can be reached all the time, takes every command and refuses none, not even inside
    the array that answers an EXEC), and the theorems also show what is left of it over one that does not.
  \<^item> \<open>Writers\<close>: \<open>src/aggregate/aggregate_writer.cpp\<close> and \<open>rank_writer.cpp\<close>. \<open>Sink\<close>: the interface
    \<open>inc/sink/isink.hpp\<close> and its promise, with and without a crash in the middle of a call. \<open>AggregateSink\<close>:
    \<open>src/sink/aggregate_sink.cpp\<close>, which meets it over any store that meets its own.
  \<^item> \<open>FileSource\<close>: \<open>src/source/file_source.cpp\<close> over a file system that is a map; \<open>DirWatcher\<close>:
    \<open>src/ingest/dir_watcher.cpp\<close>; \<open>FileIngestor\<close>: what \<open>src/ingest/file_ingestor.cpp\<close> does with one file, with
    the process dying at any point (the same definition of \<open>process\<close>, over a store that dies at one of the calls);
    \<open>ThreadPool\<close>: \<open>src/util/thread_pool.cpp\<close> as a step relation whose steps are its critical sections, and its
    constructor over a machine that may have no room or no threads left; \<open>PoolSync\<close>: the same code with its mutex and its two condition variables,
    spurious wake-ups included, which refines that relation and loses no wake-up.
  \<^item> \<open>History\<close>, \<open>SharedStore\<close>, \<open>Readers\<close>: all workers of the file ingestor at once. \<open>SharedStore\<close> puts the
    connections of several threads before one server; \<open>Readers\<close> interleaves the pool, the open sources
    and the calls on the sink, and shows what each file has contributed in every reachable state. \<open>Wire\<close>
    shows why a call of the sink may be one step there: the commands of all threads interleave, and the
    server still commits whole calls.
  \<^item> \<open>Plant\<close>, \<open>Recovery\<close>: the whole path of a file, from the ready directory through the watcher, the feeder,
    the pool and the sink to where it is disposed of, over any number of runs of the processor, each of
    which may end anywhere: every record is counted once, and a run that is left alone catches up.
  \<^item> \<open>Rabbit\<close>: \<open>src/source/rabbit_conn.cpp\<close>, \<open>src/source/rabbit_source.cpp\<close> and the consumer thread of
    \<open>src/ingest/rabbit_ingestor.cpp\<close>: what is acknowledged has been consumed. \<open>Consumers\<close>: that thread as a
    machine whose steps other threads may come between, and all consumers at once before one server.
  \<^item> \<open>Json\<close>: \<open>src/util/json.cpp\<close> with a reader for what it writes. \<open>Links\<close>: \<open>src/query/query_params.cpp\<close> and
    \<open>src/query/links.cpp\<close>. \<open>PathService\<close>, \<open>Services\<close>: the four services under \<open>src/query/services\<close>. \<open>Gateway\<close>:
    \<open>src/query/http_gateway.cpp\<close>. \<open>RedisQuery\<close>: \<open>src/query/redis_query.cpp\<close>, and the stored data it shows.
  \<^item> \<open>ReadBack\<close>: both programs together, what the gateway reports over what the processor wrote, and how
    large the counters can get. \<open>LivePath\<close>, \<open>LiveStore\<close>: the path search read by read, over a store that
    the processor writes to in between.
  \<^item> \<open>Answers\<close>, \<open>Boards\<close>, \<open>EndToEnd\<close>: the whole system. What a client is told about a list of records, by each
    of the routes for subscribers, operators, totals, links, peers and boards, and that it is told this after the records came in by files, over any number of crashes, or by messages, over any
    interleaving of the consumers.
  \<^item> \<open>LinkHash\<close>: the hash of the link map, \<open>inc/aggregate/delta.hpp\<close>. \<open>Handles\<close>: what the destructors and
    error paths of the files, the watcher and both connections give back.
  \<^item> \<open>Settings\<close>: \<open>src/config.cpp\<close>, with the lines it logs at the start, and \<open>src/logger.cpp\<close>.
    \<open>Factories\<close>: the four registries. \<open>Ingestors\<close>: start, stop and the feeder of both ingestors. \<open>Programs\<close>: the two main functions.

  State and interfaces. A class is a record of its members, a virtual interface a record of
  functions over the state of whoever implements it; errors are values (\<open>option\<close>, or a sum with the text of
  the exception). The store, the sink, the factories, starting and stopping, the query server and the
  readers each have a locale that states their contract, an interpretation on the definitions that
  model the code, and clients that are proved once over the contract: the chain \<open>reliable_redis\<close>,
  \<open>counter_store\<close>, \<open>crash_store\<close>, \<open>crash_sink\<close> carries the theorems about files from the connection
  up to the directory. Hash tables are association lists, and theorems that could depend on the order of
  their entries say that they do not.

  What is outside. hiredis and the server behind it, rabbitmq-c and the broker, the kernel's
  file notifications, cpp-httplib, toml++ and the clock are parameters: functions over a world of their
  own, or scripts of the answers they give, taken from the front. A script that has run out is a call that
  does not come back, or, for the consumer loop, a set stop flag, so that every finite behaviour of the
  code is the run of some script. What a theorem needs of them is in its hypotheses, as
  documented by them, and each such theorem has a witness over a concrete environment.

  Bounds. Integers have the width of the code; sums wrap, and theorems about them are equations between
  words or say where they stay in range (\<open>ReadBack\<close>: Redis counters are signed 64-bit integers). No fuel is
  used: loops recurse on what they consume, on the hops left (\<open>search\<close>), or are partial functions whose
  termination is a theorem (\<open>climb\<close> and \<open>descend\<close> of the path search). Scores pass through a
  double with a 53-bit mantissa, modelled on rationals; \<open>Boards\<close> asks that no sum goes past it.

  Not modelled: log lines other than their format, their level and those of the configuration, the
  amqp errors, the backlog and the gateway's accesses; the freeing of replies and messages; the time a call
  takes; the buckets of the hash maps, which cannot be seen; the sockets and threads inside cpp-httplib. Accessors that
  return a member, deleted constructors and the class declarations of the headers have no definition
  of their own: they are the fields of the records and the signatures of the functions. The generator, the web
  user interface and the tests are other programs. Of the errors of a rename those are modelled that come from
  the files: a source that is gone and a directory in the way. A name that the kernel reports has no slash, so
  \<open>path_join\<close> need not treat absolute ones. The Rabbit ingestor is taken to get the memory and the threads for
  its consumers. In \<open>Plant\<close> a file is delivered whole, under a name that was not used before; what happens to
  one that is delivered under the name of a claimed one is a theorem of \<open>DirWatcher\<close>.
\<close>

end
